(* ===== verification/Prelude.thy ===== *)
theory Prelude
  imports Main "HOL-Library.Word"
begin

text \<open>
  Shared vocabulary of the development: the kernel monad, in which every kernel routine is
  written; wait channels; bytes, little-endian loads and stores and array splicing; and the
  first-match scan that the fixed-size kernel tables share.

  A kernel routine is a function from the state to one of three outcomes: \<open>Ret\<close> (it returned a
  value and a new state), \<open>Panic\<close> (it called \<open>panic\<close> with that message: \<open>console.c\<close> stops the
  machine there) or \<open>Block\<close> (it called \<open>sleep\<close> on that channel and waits in that state).
  Sequencing is \<open>kbind\<close>; the C statement \<open>x = f(...)\<close> followed by \<open>rest\<close> is
  \<open>kbind (f \<dots>) (\<lambda>x. rest)\<close>. A critical section between \<open>acquire\<close> and \<open>release\<close> is one
  uninterrupted piece of such a function; the locks themselves are the subject of the theory
  of spin locks.
\<close>

unbundle bit_operations_syntax

named_theorems kern_defs \<open>definitions of the kernel monad's operators\<close>
named_theorems kok_rules \<open>total-correctness rules, one per operator\<close>
named_theorems kstep \<open>execution of the first statement of a sequence\<close>

subsection \<open>Constants of param.h, fs.h and mmu.h\<close>

definition NPROC :: nat where "NPROC = 64"
definition NOFILE :: nat where "NOFILE = 16"
definition NFILE :: nat where "NFILE = 100"
definition NINODE :: nat where "NINODE = 50"
definition NDEV :: nat where "NDEV = 10"
definition ROOTDEV :: nat where "ROOTDEV = 1"
definition MAXARG :: nat where "MAXARG = 32"
definition MAXOPBLOCKS :: nat where "MAXOPBLOCKS = 10"
definition LOGSIZE :: nat where "LOGSIZE = MAXOPBLOCKS * 3"
definition NBUF :: nat where "NBUF = MAXOPBLOCKS * 3"
definition FSSIZE :: nat where "FSSIZE = 1000"
definition ROOTINO :: nat where "ROOTINO = 1"
definition BSIZE :: nat where "BSIZE = 512"
definition NDIRECT :: nat where "NDIRECT = 12"
definition NINDIRECT :: nat where "NINDIRECT = 128"
definition MAXFILE :: nat where "MAXFILE = NDIRECT + NINDIRECT"
definition IPB :: nat where "IPB = 8"
definition BPB :: nat where "BPB = BSIZE * 8"
definition DIRSIZ :: nat where "DIRSIZ = 14"
definition PGSIZE :: nat where "PGSIZE = 4096"

lemmas param_defs =
  NPROC_def NOFILE_def NFILE_def NINODE_def NDEV_def ROOTDEV_def MAXARG_def MAXOPBLOCKS_def
  LOGSIZE_def NBUF_def FSSIZE_def ROOTINO_def BSIZE_def NDIRECT_def NINDIRECT_def MAXFILE_def
  IPB_def BPB_def DIRSIZ_def PGSIZE_def

subsection \<open>Wait channels and the base of the kernel state\<close>

text \<open>
  A wait channel is the address a process sleeps on. The addresses the kernel uses are those
  of a buffer, of the log, of a cached inode, of the two counters of a pipe, of the console's
  read index, of the tick counter and of a process slot. \<open>ChanSpin\<close> stands for busy waiting on a spin lock, and
  \<open>ChanSched\<close> for a switch to the scheduler by a process that has set its own state.
\<close>

datatype chan =
    ChanBuf nat
  | ChanLog
  | ChanInode nat
  | ChanPipeRead nat
  | ChanPipeWrite nat
  | ChanInput
  | ChanTicks
  | ChanProc nat
  | ChanSpin nat
  | ChanSched

text \<open>
  Every kernel state carries the wakeups issued so far, newest first: \<open>wakeup\<close> makes the
  sleepers on its channel runnable, which the process table's theory models. It also carries the
  characters passed to \<open>consputc\<close>, oldest first; the theory of the console models what they do to
  the screen.
\<close>

record kbase =
  wakeups :: "chan list"
  cons_out :: "int list"

subsection \<open>The kernel monad\<close>

datatype ('s, 'a) kres = Ret 'a 's | Panic string | Block chan 's

type_synonym ('s, 'a) kern = "'s \<Rightarrow> ('s, 'a) kres"

definition kret :: "'a \<Rightarrow> ('s, 'a) kern" where
  [kern_defs]: "kret x = (\<lambda>s. Ret x s)"

definition kbind :: "('s, 'a) kern \<Rightarrow> ('a \<Rightarrow> ('s, 'b) kern) \<Rightarrow> ('s, 'b) kern" where
  [kern_defs]: "kbind m f = (\<lambda>s. case m s of
     Ret x s' \<Rightarrow> f x s'
   | Panic e \<Rightarrow> Panic e
   | Block c s' \<Rightarrow> Block c s')"

definition kpanic :: "string \<Rightarrow> ('s, 'a) kern" where
  [kern_defs]: "kpanic e = (\<lambda>s. Panic e)"

definition ksleep :: "chan \<Rightarrow> ('s, 'a) kern" where
  [kern_defs]: "ksleep c = (\<lambda>s. Block c s)"

definition kget :: "('s \<Rightarrow> 'a) \<Rightarrow> ('s, 'a) kern" where
  [kern_defs]: "kget f = (\<lambda>s. Ret (f s) s)"

definition kmod :: "('s \<Rightarrow> 's) \<Rightarrow> ('s, unit) kern" where
  [kern_defs]: "kmod f = (\<lambda>s. Ret () (f s))"

definition kwakeup :: "chan \<Rightarrow> ('a kbase_scheme, unit) kern" where
  "kwakeup c = kmod (\<lambda>s. s\<lparr>wakeups := c # wakeups s\<rparr>)"

definition consputc :: "int \<Rightarrow> ('a kbase_scheme, unit) kern" where
  "consputc c = kmod (\<lambda>s. s\<lparr>cons_out := cons_out s @ [c]\<rparr>)"

text \<open>Monad laws and inversion of a successful run.\<close>

lemma kbind_kret [simp]: "kbind (kret x) f = f x"
  by (simp add: kern_defs)

lemma kbind_kret_right [simp]: "kbind m kret = m"
  by (rule ext) (simp add: kern_defs split: kres.splits)

lemma kbind_assoc: "kbind (kbind m f) g = kbind m (\<lambda>x. kbind (f x) g)"
  by (rule ext) (simp add: kern_defs split: kres.splits)

lemma kbind_eq_Ret:
  "kbind m f s = Ret y t \<longleftrightarrow> (\<exists>x s'. m s = Ret x s' \<and> f x s' = Ret y t)"
  by (simp add: kern_defs split: kres.splits)

lemma kbind_eq_Panic:
  "kbind m f s = Panic e \<longleftrightarrow> m s = Panic e \<or> (\<exists>x s'. m s = Ret x s' \<and> f x s' = Panic e)"
  by (simp add: kern_defs split: kres.splits)

lemma kbind_Ret_step: "m s = Ret x t \<Longrightarrow> kbind m f s = f x t"
  by (simp add: kern_defs)

lemma kbind_Panic_step: "m s = Panic e \<Longrightarrow> kbind m f s = Panic e"
  by (simp add: kern_defs)

lemma kbind_simple_step [kstep]:
  "kbind (kget f) g1 s = g1 (f s) s" "kbind (kmod h) g2 s = g2 () (h s)" "kbind (kret x) g3 s = g3 x s"
  "kbind (kpanic e) g4 s = Panic e" "kbind (ksleep c) g5 s = Block c s"
  by (simp_all add: kern_defs)

lemma kbind_if: "kbind (if b then m else n) g s = (if b then kbind m g s else kbind n g s)"
  by simp

lemma kget_apply [simp]: "kget f s = Ret (f s) s"
  by (simp add: kern_defs)

lemma kret_apply: "kret x s = Ret x s"
  by (simp add: kern_defs)

lemma kmod_apply [simp]: "kmod f s = Ret () (f s)"
  by (simp add: kern_defs)

lemma kpanic_apply [simp]: "kpanic e s = Panic e"
  by (simp add: kern_defs)

lemma ksleep_apply [simp]: "ksleep c s = Block c s"
  by (simp add: kern_defs)

text \<open>
  Total correctness: \<open>kok m s Q\<close> says that \<open>m\<close> returns from \<open>s\<close>, neither panicking nor
  sleeping, and that \<open>Q\<close> holds of what it returns.
\<close>

definition kok :: "('s, 'a) kern \<Rightarrow> 's \<Rightarrow> ('a \<Rightarrow> 's \<Rightarrow> bool) \<Rightarrow> bool" where
  "kok m s Q \<longleftrightarrow> (\<exists>x t. m s = Ret x t \<and> Q x t)"

lemma kok_bind [kok_rules]: "kok (kbind m f) s Q \<longleftrightarrow> kok m s (\<lambda>x t. kok (f x) t Q)"
  by (auto simp: kok_def kbind_eq_Ret)

lemma kok_ret [kok_rules]: "kok (kret x) s Q \<longleftrightarrow> Q x s"
  by (simp add: kok_def kret_apply)

lemma kok_get [kok_rules]: "kok (kget f) s Q \<longleftrightarrow> Q (f s) s"
  by (simp add: kok_def)

lemma kok_mod [kok_rules]: "kok (kmod f) s Q \<longleftrightarrow> Q () (f s)"
  by (simp add: kok_def)

lemma kok_wakeup [kok_rules]: "kok (kwakeup c) s Q \<longleftrightarrow> Q () (s\<lparr>wakeups := c # wakeups s\<rparr>)"
  by (simp add: kwakeup_def kok_mod)

lemma kok_panic [kok_rules]: "\<not> kok (kpanic e) s Q"
  by (simp add: kok_def)

lemma kok_sleep [kok_rules]: "\<not> kok (ksleep c) s Q"
  by (simp add: kok_def)

lemma kok_mono: "kok m s Q \<Longrightarrow> (\<And>x t. m s = Ret x t \<Longrightarrow> Q x t \<Longrightarrow> Q' x t) \<Longrightarrow> kok m s Q'"
  by (auto simp: kok_def)

lemma kokD: "kok m s Q \<Longrightarrow> m s = Ret x t \<Longrightarrow> Q x t"
  by (auto simp: kok_def)

lemma kokE: "kok m s Q \<Longrightarrow> (\<And>x t. m s = Ret x t \<Longrightarrow> Q x t \<Longrightarrow> thesis) \<Longrightarrow> thesis"
  by (auto simp: kok_def)

subsection \<open>Bytes, slices and splices\<close>

type_synonym byte = "8 word"

definition bslice :: "nat \<Rightarrow> nat \<Rightarrow> 'a list \<Rightarrow> 'a list" where
  "bslice off n xs = take n (drop off xs)"

definition splice_at :: "nat \<Rightarrow> 'a list \<Rightarrow> 'a list \<Rightarrow> 'a list" where
  "splice_at off ys xs = take off xs @ ys @ drop (off + length ys) xs"

lemma length_bslice [simp]: "length (bslice off n xs) = min n (length xs - off)"
  by (simp add: bslice_def)

lemma length_splice_at [simp]:
  "off + length ys \<le> length xs \<Longrightarrow> length (splice_at off ys xs) = length xs"
  by (simp add: splice_at_def)

lemma splice_at_Nil [simp]: "splice_at off [] xs = xs"
  by (simp add: splice_at_def)

lemma nth_splice_at:
  assumes "off + length ys \<le> length xs" "i < length xs"
  shows "splice_at off ys xs ! i =
    (if off \<le> i \<and> i < off + length ys then ys ! (i - off) else xs ! i)"
  using assms by (auto simp: splice_at_def nth_append min_def)

lemma bslice_splice_at_same:
  "off + length ys \<le> length xs \<Longrightarrow> bslice off (length ys) (splice_at off ys xs) = ys"
  by (simp add: bslice_def splice_at_def)

lemma bslice_splice_at_other:
  assumes "off + length ys \<le> length xs" "off' + n \<le> length xs"
    and "off' + n \<le> off \<or> off + length ys \<le> off'"
  shows "bslice off' n (splice_at off ys xs) = bslice off' n xs"
proof (rule nth_equalityI)
  show "length (bslice off' n (splice_at off ys xs)) = length (bslice off' n xs)"
    using assms by simp
next
  fix i assume "i < length (bslice off' n (splice_at off ys xs))"
  then have "i < n" "off' + i < length xs"
    using assms by auto
  then show "bslice off' n (splice_at off ys xs) ! i = bslice off' n xs ! i"
    using assms by (auto simp: bslice_def nth_splice_at)
qed

subsection \<open>Little-endian fields of a byte array\<close>

definition enc16 :: "16 word \<Rightarrow> byte list" where
  "enc16 w = [ucast w, ucast (drop_bit 8 w)]"

definition enc32 :: "32 word \<Rightarrow> byte list" where
  "enc32 w = [ucast w, ucast (drop_bit 8 w), ucast (drop_bit 16 w), ucast (drop_bit 24 w)]"

definition dec16 :: "byte list \<Rightarrow> 16 word" where
  "dec16 bs = ucast (bs ! 0) OR push_bit 8 (ucast (bs ! 1))"

definition dec32 :: "byte list \<Rightarrow> 32 word" where
  "dec32 bs = ucast (bs ! 0) OR push_bit 8 (ucast (bs ! 1)) OR
     push_bit 16 (ucast (bs ! 2)) OR push_bit 24 (ucast (bs ! 3))"

definition load16 :: "byte list \<Rightarrow> nat \<Rightarrow> 16 word" where
  "load16 bs off = dec16 (bslice off 2 bs)"

definition load32 :: "byte list \<Rightarrow> nat \<Rightarrow> 32 word" where
  "load32 bs off = dec32 (bslice off 4 bs)"

definition store16 :: "nat \<Rightarrow> 16 word \<Rightarrow> byte list \<Rightarrow> byte list" where
  "store16 off w bs = splice_at off (enc16 w) bs"

definition store32 :: "nat \<Rightarrow> 32 word \<Rightarrow> byte list \<Rightarrow> byte list" where
  "store32 off w bs = splice_at off (enc32 w) bs"

lemma length_enc [simp]: "length (enc16 v) = 2" "length (enc32 w) = 4"
  by (simp_all add: enc16_def enc32_def)

lemma dec16_enc16 [simp]: "dec16 (enc16 w) = w"
proof (rule bit_word_eqI)
  fix n assume "n < LENGTH(16)"
  then consider "n < 8" | "8 \<le> n" "n < 16" by fastforce
  then show "bit (dec16 (enc16 w)) n = bit w n"
    by cases (auto simp: dec16_def enc16_def bit_simps)
qed

lemma dec32_enc32 [simp]: "dec32 (enc32 w) = w"
proof (rule bit_word_eqI)
  fix n assume "n < LENGTH(32)"
  then consider "n < 8" | "8 \<le> n" "n < 16" | "16 \<le> n" "n < 24" | "24 \<le> n" "n < 32" by fastforce
  then show "bit (dec32 (enc32 w)) n = bit w n"
    by cases (auto simp: dec32_def enc32_def bit_simps numeral_2_eq_2 numeral_3_eq_3)
qed

lemma length_store [simp]:
  "off + 2 \<le> length bs \<Longrightarrow> length (store16 off v bs) = length bs"
  "off + 4 \<le> length bs \<Longrightarrow> length (store32 off w bs) = length bs"
  by (simp_all add: store16_def store32_def)

lemma load16_store16_same [simp]:
  "off + 2 \<le> length bs \<Longrightarrow> load16 (store16 off w bs) off = w"
  using bslice_splice_at_same [of off "enc16 w" bs] by (simp add: load16_def store16_def)

lemma load32_store32_same [simp]:
  "off + 4 \<le> length bs \<Longrightarrow> load32 (store32 off w bs) off = w"
  using bslice_splice_at_same [of off "enc32 w" bs] by (simp add: load32_def store32_def)

lemma load32_store32_other:
  assumes "off + 4 \<le> length bs" "off' + 4 \<le> length bs" "off' + 4 \<le> off \<or> off + 4 \<le> off'"
  shows "load32 (store32 off w bs) off' = load32 bs off'"
  using assms by (simp add: load32_def store32_def bslice_splice_at_other)

subsection \<open>First-match scan of a table\<close>

text \<open>
  \<open>find_idx P xs\<close> is the loop \<open>for(i = 0; i < N; i++) if(P(xs[i])) return i;\<close> over a table.
\<close>

fun find_idx :: "('a \<Rightarrow> bool) \<Rightarrow> 'a list \<Rightarrow> nat option" where
  "find_idx P [] = None"
| "find_idx P (x # xs) = (if P x then Some 0 else map_option Suc (find_idx P xs))"

lemma nth_upd: "j < length xs \<Longrightarrow> xs[i := v] ! j = (if j = i then v else xs ! j)"
  by (cases "j = i") simp_all

lemma find_idx_None: "find_idx P xs = None \<longleftrightarrow> (\<forall>x\<in>set xs. \<not> P x)"
  by (induction xs) auto

lemma find_idx_Some:
  "find_idx P xs = Some i \<longleftrightarrow> i < length xs \<and> P (xs ! i) \<and> (\<forall>j<i. \<not> P (xs ! j))"
proof (induction xs arbitrary: i)
  case Nil
  then show ?case by simp
next
  case (Cons x xs)
  then show ?case
    by (cases i) (auto simp: less_Suc_eq_0_disj all_conj_distrib)
qed

lemma find_idx_SomeD:
  "find_idx P xs = Some i \<Longrightarrow> i < length xs"
  "find_idx P xs = Some i \<Longrightarrow> P (xs ! i)"
  by (simp_all add: find_idx_Some)

lemma find_SomeD: "find P xs = Some x \<Longrightarrow> x \<in> set xs \<and> P x"
  by (induction xs) (auto split: if_splits)

lemma find_total: "x \<in> set xs \<Longrightarrow> P x \<Longrightarrow> \<exists>y. find P xs = Some y"
  by (induction xs) auto

end
