(* ===== verification/Kalloc.thy ===== *)
theory Kalloc
  imports Prelude
begin

text \<open>
  Physical memory and its allocator: \<open>memlayout.h\<close>, the page-rounding macros of \<open>mmu.h\<close> and
  \<open>kalloc.c\<close>. Physical memory is a function from page-frame numbers to the bytes of the frame.
  The linker places the symbols \<open>data\<close> and \<open>end\<close>; \<open>kernel_data\<close> and \<open>kernel_end\<close> are their addresses.
  The free list is the one the code keeps: its head pointer is a kernel variable and the link
  of each free page is the first word of that page. \<open>free_pages\<close> is the list it represents.
\<close>

definition EXTMEM :: "32 word" where "EXTMEM = 0x100000"
definition PHYSTOP :: "32 word" where "PHYSTOP = 0xE000000"
definition DEVSPACE :: "32 word" where "DEVSPACE = 0xFE000000"
definition KERNBASE :: "32 word" where "KERNBASE = 0x80000000"
definition KERNLINK :: "32 word" where "KERNLINK = KERNBASE + EXTMEM"

definition v2p :: "32 word \<Rightarrow> 32 word" where "v2p a = a - KERNBASE"
definition p2v :: "32 word \<Rightarrow> 32 word" where "p2v a = a + KERNBASE"

definition PGROUNDUP :: "32 word \<Rightarrow> 32 word" where
  "PGROUNDUP sz = (sz + 4096 - 1) AND NOT (4096 - 1)"

definition PGROUNDDOWN :: "32 word \<Rightarrow> 32 word" where
  "PGROUNDDOWN a = a AND NOT (4096 - 1)"

lemmas memlayout_defs = EXTMEM_def PHYSTOP_def DEVSPACE_def KERNBASE_def KERNLINK_def v2p_def p2v_def

lemma v2p_p2v [simp]: "v2p (p2v a) = a" "p2v (v2p a) = a"
  by (simp_all add: v2p_def p2v_def)

text \<open>The frame a kernel virtual address lies in.\<close>

definition frame :: "32 word \<Rightarrow> nat" where
  "frame v = unat (v2p v) div PGSIZE"

record kmem_state = kbase +
  pages :: "nat \<Rightarrow> byte list"
  kernel_data :: "32 word"
  kernel_end :: "32 word"
  use_lock :: bool
  freelist :: "32 word"
  free_frame_cnt :: int

definition set_page :: "nat \<Rightarrow> byte list \<Rightarrow> 'a kmem_state_scheme \<Rightarrow> 'a kmem_state_scheme" where
  "set_page f bs s = s\<lparr>pages := (pages s)(f := bs)\<rparr>"

text \<open>\<open>kfree\<close> and \<open>kalloc\<close>.\<close>

definition kfree :: "32 word \<Rightarrow> ('a kmem_state_scheme, unit) kern" where
  "kfree v = kbind (kget kernel_end) (\<lambda>kend.
     if unat v mod PGSIZE \<noteq> 0 \<or> v < kend \<or> v2p v \<ge> PHYSTOP then kpanic ''kfree''
     else
       kbind (kmod (set_page (frame v) (replicate PGSIZE 1))) (\<lambda>_.
       kbind (kmod (\<lambda>s. set_page (frame v) (store32 0 (freelist s) (pages s (frame v))) s)) (\<lambda>_.
       kmod (\<lambda>s. s\<lparr>freelist := v, free_frame_cnt := free_frame_cnt s + 1\<rparr>))))"

definition kalloc :: "('a kmem_state_scheme, 32 word) kern" where
  "kalloc = kbind (kget freelist) (\<lambda>r.
     if r \<noteq> 0 then
       kbind (kmod (\<lambda>s. s\<lparr>free_frame_cnt := free_frame_cnt s - 1\<rparr>)) (\<lambda>_.
       kbind (kmod (\<lambda>s. s\<lparr>freelist := load32 (pages s (frame r)) 0\<rparr>)) (\<lambda>_.
       kret r))
     else kret r)"

text \<open>The loop of \<open>freerange\<close>: its pointers do not wrap (pointer overflow is undefined in C).\<close>

function freerange_loop :: "nat \<Rightarrow> nat \<Rightarrow> ('a kmem_state_scheme, unit) kern" where
  "freerange_loop p vend =
     (if p + PGSIZE \<le> vend
      then kbind (kfree (of_nat p)) (\<lambda>_. freerange_loop (p + PGSIZE) vend)
      else kret ())"
  by pat_completeness auto
termination
  by (relation "measure (\<lambda>(p, vend). vend - p)") (auto simp: PGSIZE_def)

declare freerange_loop.simps [simp del]

definition freerange :: "32 word \<Rightarrow> 32 word \<Rightarrow> ('a kmem_state_scheme, unit) kern" where
  "freerange vstart vend = freerange_loop (unat (PGROUNDUP vstart)) (unat vend)"

definition kinit1 :: "32 word \<Rightarrow> 32 word \<Rightarrow> ('a kmem_state_scheme, unit) kern" where
  "kinit1 vstart vend = kbind (kmod (\<lambda>s. s\<lparr>use_lock := False\<rparr>)) (\<lambda>_. freerange vstart vend)"

definition kinit2 :: "32 word \<Rightarrow> 32 word \<Rightarrow> ('a kmem_state_scheme, unit) kern" where
  "kinit2 vstart vend = kbind (freerange vstart vend) (\<lambda>_. kmod (\<lambda>s. s\<lparr>use_lock := True\<rparr>))"

subsection \<open>The list the free list represents\<close>

text \<open>Addresses \<open>kfree\<close> accepts.\<close>

definition freeable :: "'a kmem_state_scheme \<Rightarrow> 32 word \<Rightarrow> bool" where
  "freeable s v \<longleftrightarrow> unat v mod PGSIZE = 0 \<and> kernel_end s \<le> v \<and> v2p v < PHYSTOP"

fun free_chain :: "(nat \<Rightarrow> byte list) \<Rightarrow> 32 word \<Rightarrow> 32 word list \<Rightarrow> bool" where
  "free_chain pg p [] \<longleftrightarrow> p = 0"
| "free_chain pg p (v # vs) \<longleftrightarrow>
     p = v \<and> v \<noteq> 0 \<and> length (pg (frame v)) = PGSIZE \<and> free_chain pg (load32 (pg (frame v)) 0) vs"

definition free_pages :: "'a kmem_state_scheme \<Rightarrow> 32 word list \<Rightarrow> bool" where
  "free_pages s vs \<longleftrightarrow>
     free_chain (pages s) (freelist s) vs \<and> distinct vs \<and> list_all (freeable s) vs \<and>
     free_frame_cnt s = int (length vs)"

lemma freeable_bounds:
  assumes "freeable s v"
  shows "v \<noteq> 0" "unat v = frame v * PGSIZE + 2 ^ 31" "frame v < 57344"
proof -
  from assms have "v2p v < 0xE000000" and al: "unat v mod 4096 = 0"
    by (simp_all add: freeable_def PHYSTOP_def PGSIZE_def)
  then have lt: "unat (v2p v) < 0xE000000"
    by (simp add: word_less_nat_alt)
  have "v = v2p v + 0x80000000"
    by (simp add: v2p_def KERNBASE_def)
  then have uv: "unat v = unat (v2p v) + 0x80000000"
    using lt unat_word_ariths(1) [of "v2p v" "0x80000000"] by simp
  show "v \<noteq> 0"
    using uv by auto
  have "(unat (v2p v) + 4096 * 524288) mod 4096 = 0"
    using al uv by simp
  then have al': "unat (v2p v) mod 4096 = 0"
    by (simp only: mod_mult_self2)
  then have "frame v * PGSIZE = unat (v2p v)"
    by (simp add: frame_def PGSIZE_def mod_eq_0_iff_dvd)
  then show "unat v = frame v * PGSIZE + 2 ^ 31"
    using uv by simp
  show "frame v < 57344"
    using lt by (simp add: frame_def PGSIZE_def less_mult_imp_div_less)
qed

lemma frame_inj: "freeable s v \<Longrightarrow> freeable s w \<Longrightarrow> frame v = frame w \<Longrightarrow> v = w"
  using freeable_bounds(2) [of s v] freeable_bounds(2) [of s w] by (simp add: word_unat_eq_iff)

lemma free_chain_frame:
  "(\<And>w. w \<in> set vs \<Longrightarrow> frame w \<noteq> f) \<Longrightarrow> free_chain (pg(f := bs)) p vs \<longleftrightarrow> free_chain pg p vs"
  by (induction vs arbitrary: p) auto

lemma freeable_cong:
  "kernel_end t = kernel_end s \<Longrightarrow> freeable t = freeable s"
  by (simp add: freeable_def fun_eq_iff)

lemma freeable_upd [simp]:
  "freeable (s\<lparr>freelist := x\<rparr>) = freeable s" "freeable (s\<lparr>free_frame_cnt := c\<rparr>) = freeable s"
  "freeable (s\<lparr>pages := p\<rparr>) = freeable s" "freeable (s\<lparr>use_lock := b\<rparr>) = freeable s"
  by (simp_all add: freeable_def fun_eq_iff)

text \<open>The state \<open>kfree\<close> leaves: the page holds the link to the old head, and the rest is junk.\<close>

definition kfreed :: "32 word \<Rightarrow> 'a kmem_state_scheme \<Rightarrow> 'a kmem_state_scheme" where
  "kfreed v s = s\<lparr>pages := (pages s)(frame v := store32 0 (freelist s) (replicate PGSIZE 1)),
     freelist := v, free_frame_cnt := free_frame_cnt s + 1\<rparr>"

lemma kfree_eq:
  "kfree v s = (if freeable s v then Ret () (kfreed v s) else Panic ''kfree'')"
  by (auto simp: kfree_def kern_defs freeable_def kfreed_def set_page_def not_less not_le)

lemma PGSIZE_ge_4: "4 \<le> PGSIZE"
  by (simp add: PGSIZE_def)

lemma free_pages_kfreed:
  assumes "free_pages s vs" "freeable s v" "v \<notin> set vs"
  shows "free_pages (kfreed v s) (v # vs)"
proof -
  have "frame w \<noteq> frame v" if "w \<in> set vs" for w
    using assms that frame_inj [of s w v] by (auto simp: free_pages_def list_all_iff)
  then have "free_chain ((pages s)(frame v := bs)) (freelist s) vs" for bs
    using assms(1) by (simp add: free_chain_frame free_pages_def)
  then show ?thesis
    using assms freeable_bounds(1) [OF assms(2)] PGSIZE_ge_4
    by (simp add: free_pages_def kfreed_def)
qed

text \<open>The state \<open>kalloc\<close> leaves when the free list is not empty.\<close>

definition kalloced :: "32 word \<Rightarrow> 'a kmem_state_scheme \<Rightarrow> 'a kmem_state_scheme" where
  "kalloced v s = s\<lparr>free_frame_cnt := free_frame_cnt s - 1,
     freelist := load32 (pages s (frame v)) 0\<rparr>"

lemma kalloc_eq:
  "kalloc s = (if freelist s = 0 then Ret 0 s else Ret (freelist s) (kalloced (freelist s) s))"
  by (simp add: kalloc_def kern_defs kalloced_def)

lemma free_pages_Nil: "free_pages s [] \<Longrightarrow> freelist s = 0"
  by (simp add: free_pages_def)

lemma free_pages_Cons:
  "free_pages s (v # vs) \<Longrightarrow> freelist s = v \<and> v \<noteq> 0 \<and> freeable s v \<and> free_pages (kalloced v s) vs"
  by (auto simp: free_pages_def kalloced_def)

lemma free_pages_cnt: "free_pages s vs \<Longrightarrow> free_frame_cnt s = int (length vs)"
  by (simp add: free_pages_def)

subsection \<open>The contract of a page allocator\<close>

text \<open>
  What the virtual-memory code, the pipes and the process table rely on: \<open>pool s vs\<close> says that
  the pages \<open>vs\<close> are the free ones, \<open>alloc\<close> hands out the first of them or the null pointer, and
  \<open>free\<close> puts back a page that \<open>may_free\<close> allows and that is not free yet.
\<close>

locale page_allocator =
  fixes alloc :: "('s, 32 word) kern"
    and free :: "32 word \<Rightarrow> ('s, unit) kern"
    and pool :: "'s \<Rightarrow> 32 word list \<Rightarrow> bool"
    and may_free :: "'s \<Rightarrow> 32 word \<Rightarrow> bool"
  assumes alloc_empty: "pool s [] \<Longrightarrow> alloc s = Ret 0 s"
    and alloc_page: "pool s (v # vs) \<Longrightarrow> \<exists>t. alloc s = Ret v t \<and> v \<noteq> 0 \<and> pool t vs"
    and free_page: "pool s vs \<Longrightarrow> may_free s v \<Longrightarrow> v \<notin> set vs \<Longrightarrow>
      \<exists>t. free v s = Ret () t \<and> pool t (v # vs)"
    and pool_distinct: "pool s vs \<Longrightarrow> distinct vs"
begin

lemma alloc_total: "pool s vs \<Longrightarrow> kok alloc s (\<lambda>r t. pool t (tl vs) \<and> r = (if vs = [] then 0 else hd vs))"
  by (cases vs) (auto simp: kok_def alloc_empty dest: alloc_page)

lemma alloc_null_iff: "pool s vs \<Longrightarrow> alloc s = Ret r t \<Longrightarrow> r = 0 \<longleftrightarrow> vs = []"
  by (cases vs) (auto simp: alloc_empty dest: alloc_page)

lemma alloc_fresh:
  assumes "pool s vs" "alloc s = Ret r t" "r \<noteq> 0"
  shows "r \<in> set vs \<and> pool t (tl vs) \<and> r \<notin> set (tl vs)"
proof (cases vs)
  case Nil
  with assms alloc_empty show ?thesis by auto
next
  case (Cons v ws)
  with assms alloc_page [of s v ws] pool_distinct [of s vs] show ?thesis by auto
qed

lemma free_then_alloc:
  assumes "pool s vs" "may_free s v" "v \<notin> set vs"
  shows "kok (kbind (free v) (\<lambda>_. alloc)) s (\<lambda>r t. r = v \<and> pool t vs)"
proof -
  obtain t where t: "free v s = Ret () t" "pool t (v # vs)"
    using free_page [OF assms] by blast
  then show ?thesis
    using alloc_page [OF t(2)] by (auto simp: kok_def kbind_eq_Ret)
qed

end

interpretation kmem: page_allocator kalloc kfree free_pages freeable
proof
  fix s :: "'a kmem_state_scheme" and v :: "32 word" and vs :: "32 word list"
  show "free_pages s [] \<Longrightarrow> kalloc s = Ret 0 s"
    by (simp add: kalloc_eq free_pages_Nil)
  show "free_pages s (v # vs) \<Longrightarrow> \<exists>t. kalloc s = Ret v t \<and> v \<noteq> 0 \<and> free_pages t vs"
    by (drule free_pages_Cons) (auto simp: kalloc_eq)
  show "free_pages s vs \<Longrightarrow> freeable s v \<Longrightarrow> v \<notin> set vs \<Longrightarrow>
      \<exists>t. kfree v s = Ret () t \<and> free_pages t (v # vs)"
    by (simp add: kfree_eq free_pages_kfreed)
  show "free_pages s vs \<Longrightarrow> distinct vs"
    by (simp add: free_pages_def)
qed

subsection \<open>Freeing a range of memory\<close>

text \<open>The whole pages between \<open>p\<close> and \<open>vend\<close>, lowest first.\<close>

definition range_pages :: "nat \<Rightarrow> nat \<Rightarrow> 32 word list" where
  "range_pages p vend = map (\<lambda>i. of_nat (p + i * PGSIZE)) [0..<(vend - p) div PGSIZE]"

lemma range_pages_empty: "\<not> p + PGSIZE \<le> vend \<Longrightarrow> range_pages p vend = []"
  by (auto simp: range_pages_def div_eq_0_iff)

lemma range_pages_step:
  assumes "p + PGSIZE \<le> vend"
  shows "range_pages p vend = of_nat p # range_pages (p + PGSIZE) vend"
proof -
  have "(vend - p) div PGSIZE = Suc ((vend - (p + PGSIZE)) div PGSIZE)"
    using assms le_div_geq [of PGSIZE "vend - p"] by (simp add: PGSIZE_def)
  then show ?thesis
    by (simp add: range_pages_def upt_conv_Cons map_Suc_upt [symmetric] comp_def algebra_simps
        del: upt_Suc)
qed

lemma range_pages_distinct:
  assumes "vend \<le> 2 ^ 32"
  shows "distinct (range_pages p vend)"
proof -
  have "inj_on (\<lambda>i. of_nat (p + i * PGSIZE) :: 32 word) {..<(vend - p) div PGSIZE}"
  proof (rule inj_onI)
    fix i j
    assume ij: "i \<in> {..<(vend - p) div PGSIZE}" "j \<in> {..<(vend - p) div PGSIZE}"
      and eq: "of_nat (p + i * PGSIZE) = (of_nat (p + j * PGSIZE) :: 32 word)"
    have b: "p + k * PGSIZE < 2 ^ 32" if "k < (vend - p) div PGSIZE" for k
    proof -
      have "k * PGSIZE < (vend - p) div PGSIZE * PGSIZE"
        using that by (simp add: PGSIZE_def)
      also have "\<dots> \<le> vend - p"
        by simp
      finally show ?thesis
        using assms by linarith
    qed
    have "unat (of_nat (p + i * PGSIZE) :: 32 word) = p + i * PGSIZE"
      using b [of i] ij by (simp only: unat_of_nat) simp
    moreover have "unat (of_nat (p + j * PGSIZE) :: 32 word) = p + j * PGSIZE"
      using b [of j] ij by (simp only: unat_of_nat) simp
    ultimately have "p + i * PGSIZE = p + j * PGSIZE"
      using eq by metis
    then show "i = j"
      by (simp add: PGSIZE_def)
  qed
  then show ?thesis
    by (simp add: range_pages_def distinct_map atLeast0LessThan)
qed

lemma kernel_end_kfreed [simp]: "kernel_end (kfreed v s) = kernel_end s"
  by (simp add: kfreed_def)

lemma freerange_loop_pool:
  assumes "free_pages s vs" "distinct (range_pages p vend)"
    and "\<forall>v\<in>set (range_pages p vend). freeable s v \<and> v \<notin> set vs"
  shows "kok (freerange_loop p vend) s (\<lambda>_ t. free_pages t (rev (range_pages p vend) @ vs))"
  using assms
proof (induction p vend arbitrary: s vs rule: freerange_loop.induct)
  case (1 p vend)
  show ?case
  proof (cases "p + PGSIZE \<le> vend")
    case False
    with 1 show ?thesis
      by (simp add: freerange_loop.simps [of p] range_pages_empty kok_rules)
  next
    case True
    note step = range_pages_step [OF True]
    have fr: "freeable s (of_nat p)" "of_nat p \<notin> set vs"
      using 1(4) step by auto
    have "kok (freerange_loop (p + PGSIZE) vend) (kfreed (of_nat p) s)
        (\<lambda>_ t. free_pages t (rev (range_pages (p + PGSIZE) vend) @ of_nat p # vs))"
    proof (rule 1(1) [OF True])
      show "free_pages (kfreed (of_nat p) s) (of_nat p # vs)"
        using fr 1(2) by (simp add: free_pages_kfreed)
      show "distinct (range_pages (p + PGSIZE) vend)"
        using 1(3) step by simp
      show "\<forall>v\<in>set (range_pages (p + PGSIZE) vend).
          freeable (kfreed (of_nat p) s) v \<and> v \<notin> set (of_nat p # vs)"
        using 1(3,4) step freeable_cong [of "kfreed (of_nat p) s" s] by auto
    qed
    with True step fr show ?thesis
      by (simp add: freerange_loop.simps [of p] kok_bind) (simp add: kok_def kfree_eq)
  qed
qed

text \<open>
  C14. Memory initialisation: if the free list holds the pages \<open>vs\<close> and every whole page between
  \<open>vstart\<close> (rounded up) and \<open>vend\<close> passes the checks of \<open>kfree\<close> and is not free yet, then
  \<open>freerange\<close> returns, and afterwards the free list holds exactly those pages, the highest
  first, in front of \<open>vs\<close>; the representation invariant includes that the list is free of
  repetitions and that \<open>free_frame_cnt\<close> is its length.
\<close>

theorem freerange_adds_pages:
  assumes "free_pages s vs"
    and "\<forall>v\<in>set (range_pages (unat (PGROUNDUP vstart)) (unat vend)). freeable s v \<and> v \<notin> set vs"
  shows "kok (freerange vstart vend) s
    (\<lambda>_ t. free_pages t (rev (range_pages (unat (PGROUNDUP vstart)) (unat vend)) @ vs))"
proof -
  have "distinct (range_pages (unat (PGROUNDUP vstart)) (unat vend))"
    using unsigned_less [of vend, where ?'a = nat] by (intro range_pages_distinct) simp
  with assms show ?thesis
    by (simp add: freerange_def freerange_loop_pool)
qed

definition kmem_example :: kmem_state where
  "kmem_example = \<lparr>wakeups = [], cons_out = [], pages = (\<lambda>_. []), kernel_data = 0x80108000, kernel_end = 0x80120000, use_lock = False,
     freelist = 0, free_frame_cnt = 0\<rparr>"

theorem freerange_adds_pages_witness:
  "kok (freerange 0x80200001 0x80203800) kmem_example
     (\<lambda>_ t. free_pages t [0x80202000, 0x80201000])"
proof -
  have r: "range_pages (unat (PGROUNDUP 0x80200001)) (unat (0x80203800 :: 32 word)) = [0x80201000, 0x80202000]"
    by (simp add: range_pages_def PGROUNDUP_def PGSIZE_def upt_conv_Cons)
  have "free_pages kmem_example []"
    by (simp add: free_pages_def kmem_example_def)
  moreover have "\<forall>v\<in>set [0x80201000, 0x80202000 :: 32 word]. freeable kmem_example v"
    by (simp add: freeable_def kmem_example_def memlayout_defs PGSIZE_def)
  ultimately show ?thesis
    using freerange_adds_pages [of kmem_example "[]" "0x80200001" "0x80203800"] unfolding r by simp
qed

text \<open>
  C15. Allocation and release: with the pages \<open>vs\<close> free, \<open>kalloc\<close> returns the null pointer exactly
  when there is none, otherwise the first page, and leaves the others free; \<open>kfree\<close> panics on a
  pointer that is not page-aligned, below the end of the kernel or at or above \<open>PHYSTOP\<close>, and
  otherwise makes a page free that was not, so that the next \<open>kalloc\<close> returns that page.
\<close>

theorem kalloc_kfree_spec:
  assumes "free_pages s vs"
  shows "kok kalloc s (\<lambda>r t. r = (if vs = [] then 0 else hd vs) \<and> free_pages t (tl vs)) \<and>
    (\<not> freeable s v \<longrightarrow> kfree v s = Panic ''kfree'') \<and>
    (freeable s v \<and> v \<notin> set vs \<longrightarrow>
      kok (kfree v) s (\<lambda>_ t. free_pages t (v # vs) \<and>
        free_frame_cnt t = free_frame_cnt s + 1 \<and> kok kalloc t (\<lambda>r u. r = v \<and> free_pages u vs)))"
proof -
  have "kok kalloc s (\<lambda>r t. r = (if vs = [] then 0 else hd vs) \<and> free_pages t (tl vs))"
    using kmem.alloc_total [OF assms] by (simp add: conj_commute)
  moreover have "kfree v s = Panic ''kfree''" if "\<not> freeable s v"
    using that by (simp add: kfree_eq)
  moreover have "kok (kfree v) s (\<lambda>_ t. free_pages t (v # vs) \<and>
        free_frame_cnt t = free_frame_cnt s + 1 \<and> kok kalloc t (\<lambda>r u. r = v \<and> free_pages u vs))"
    if v: "freeable s v" "v \<notin> set vs"
  proof -
    obtain t where t: "kfree v s = Ret () t" "free_pages t (v # vs)"
      using kmem.free_page [OF assms v] by blast
    then have "kok kalloc t (\<lambda>r u. r = v \<and> free_pages u vs)"
      using kmem.alloc_total [OF t(2)] by (simp add: conj_commute)
    with t free_pages_cnt [OF t(2)] free_pages_cnt [OF assms] show ?thesis
      by (simp add: kok_def)
  qed
  ultimately show ?thesis by blast
qed

theorem kalloc_kfree_spec_witness:
  "kok kalloc kmem_example (\<lambda>r t. r = 0 \<and> free_pages t []) \<and>
   kfree 0x80200001 kmem_example = Panic ''kfree'' \<and>
   kok (kfree 0x80200000) kmem_example (\<lambda>_ t. free_pages t [0x80200000] \<and>
     free_frame_cnt t = 1 \<and> kok kalloc t (\<lambda>r u. r = 0x80200000 \<and> free_pages u []))"
proof -
  have "free_pages kmem_example []"
    by (simp add: free_pages_def kmem_example_def)
  note spec = kalloc_kfree_spec [OF this]
  have "freeable kmem_example 0x80200000" "\<not> freeable kmem_example 0x80200001"
    by (simp_all add: freeable_def kmem_example_def memlayout_defs PGSIZE_def)
  then show ?thesis
    using spec [of "0x80200000"] spec [of "0x80200001"] by (simp add: kmem_example_def)
qed

end
