(* ===== verification/Bio.thy ===== *)
theory Bio
  imports Kalloc
begin

text \<open>
  The buffer cache, \<open>bio.c\<close>, over the synchronous block device \<open>memide.c\<close>. The interrupt-driven
  driver \<open>ide.c\<close> has a theory of its own, which shows that it moves the same data.

  \<open>bufs\<close> is the array \<open>bcache.buf\<close> and \<open>lru\<close> the doubly linked list through \<open>prev\<close>/\<open>next\<close>, as the
  list of buffer indices from \<open>head.next\<close> to \<open>head.prev\<close>; that the pointer surgery of \<open>binit\<close> and
  \<open>brelse\<close> computes that list is shown at the end. The flag bits are three booleans.
  \<open>disk_log\<close> is a history variable: the block writes that have reached the disk, in order.
\<close>

record buf =
  b_busy :: bool
  b_valid :: bool
  b_dirty :: bool
  b_dev :: nat
  b_blockno :: nat
  b_data :: "byte list"

record bio_state = kmem_state +
  disk :: "nat \<Rightarrow> byte list"
  disksize :: nat
  disk_log :: "(nat \<times> byte list) list"
  bufs :: "buf list"
  lru :: "nat list"

text \<open>The device number \<open>-1\<close> that \<open>binit\<close> stores.\<close>

definition NODEV_ID :: nat where "NODEV_ID = 2 ^ 32 - 1"

definition upd_buf :: "nat \<Rightarrow> (buf \<Rightarrow> buf) \<Rightarrow> 'a bio_state_scheme \<Rightarrow> 'a bio_state_scheme" where
  "upd_buf i f s = s\<lparr>bufs := (bufs s)[i := f (bufs s ! i)]\<rparr>"

definition getbuf :: "nat \<Rightarrow> ('a bio_state_scheme, buf) kern" where
  "getbuf i = kget (\<lambda>s. bufs s ! i)"

definition modbuf :: "nat \<Rightarrow> (buf \<Rightarrow> buf) \<Rightarrow> ('a bio_state_scheme, unit) kern" where
  "modbuf i f = kmod (upd_buf i f)"

definition binit :: "('a bio_state_scheme, unit) kern" where
  "binit = kmod (\<lambda>s. s\<lparr>lru := rev [0..<NBUF], bufs := map (\<lambda>b. b\<lparr>b_dev := NODEV_ID\<rparr>) (bufs s)\<rparr>)"

text \<open>\<open>memide.c\<close>: sync a buffer with the disk.\<close>

definition iderw :: "nat \<Rightarrow> ('a bio_state_scheme, unit) kern" where
  "iderw i = kbind (getbuf i) (\<lambda>b.
     if \<not> b_busy b then kpanic ''iderw: buf not busy''
     else if b_valid b \<and> \<not> b_dirty b then kpanic ''iderw: nothing to do''
     else if b_dev b \<noteq> 1 then kpanic ''iderw: request not for disk 1''
     else kbind (kget disksize) (\<lambda>n.
       if b_blockno b \<ge> n then kpanic ''iderw: block out of range''
       else
         kbind
           (if b_dirty b then
              kbind (modbuf i (\<lambda>b. b\<lparr>b_dirty := False\<rparr>)) (\<lambda>_.
              kmod (\<lambda>s. s\<lparr>disk := (disk s)(b_blockno b := b_data b),
                          disk_log := disk_log s @ [(b_blockno b, b_data b)]\<rparr>))
            else
              kbind (kget (\<lambda>s. disk s (b_blockno b))) (\<lambda>d. modbuf i (\<lambda>b. b\<lparr>b_data := d\<rparr>)))
           (\<lambda>_. modbuf i (\<lambda>b. b\<lparr>b_valid := True\<rparr>))))"

definition bget :: "nat \<Rightarrow> nat \<Rightarrow> ('a bio_state_scheme, nat) kern" where
  "bget dev blockno =
     kbind (kget (\<lambda>s. find (\<lambda>i. b_dev (bufs s ! i) = dev \<and> b_blockno (bufs s ! i) = blockno) (lru s))) (\<lambda>hit.
     case hit of
       Some i \<Rightarrow> kbind (getbuf i) (\<lambda>b.
         if \<not> b_busy b then kbind (modbuf i (\<lambda>b. b\<lparr>b_busy := True\<rparr>)) (\<lambda>_. kret i)
         else ksleep (ChanBuf i))
     | None \<Rightarrow>
         kbind (kget (\<lambda>s. find (\<lambda>i. \<not> b_busy (bufs s ! i) \<and> \<not> b_dirty (bufs s ! i)) (rev (lru s)))) (\<lambda>victim.
         case victim of
           Some i \<Rightarrow>
             kbind (modbuf i (\<lambda>b. b\<lparr>b_dev := dev, b_blockno := blockno,
                                     b_busy := True, b_valid := False, b_dirty := False\<rparr>)) (\<lambda>_.
             kret i)
         | None \<Rightarrow> kpanic ''bget: no buffers''))"

definition bread :: "nat \<Rightarrow> nat \<Rightarrow> ('a bio_state_scheme, nat) kern" where
  "bread dev blockno =
     kbind (bget dev blockno) (\<lambda>i.
     kbind (getbuf i) (\<lambda>b.
     if \<not> b_valid b then kbind (iderw i) (\<lambda>_. kret i) else kret i))"

definition bwrite :: "nat \<Rightarrow> ('a bio_state_scheme, unit) kern" where
  "bwrite i = kbind (getbuf i) (\<lambda>b.
     if \<not> b_busy b then kpanic ''bwrite''
     else kbind (modbuf i (\<lambda>b. b\<lparr>b_dirty := True\<rparr>)) (\<lambda>_. iderw i))"

definition brelse :: "nat \<Rightarrow> ('a bio_state_scheme, unit) kern" where
  "brelse i = kbind (getbuf i) (\<lambda>b.
     if \<not> b_busy b then kpanic ''brelse''
     else
       kbind (kmod (\<lambda>s. s\<lparr>lru := i # remove1 i (lru s)\<rparr>)) (\<lambda>_.
       kbind (modbuf i (\<lambda>b. b\<lparr>b_busy := False\<rparr>)) (\<lambda>_.
       kwakeup (ChanBuf i))))"

text \<open>What C code does to a buffer it holds: read its bytes, or replace them.\<close>

definition bdata :: "nat \<Rightarrow> ('a bio_state_scheme, byte list) kern" where
  "bdata i = kget (\<lambda>s. b_data (bufs s ! i))"

definition bset :: "nat \<Rightarrow> (byte list \<Rightarrow> byte list) \<Rightarrow> ('a bio_state_scheme, unit) kern" where
  "bset i f = modbuf i (\<lambda>b. b\<lparr>b_data := f (b_data b)\<rparr>)"

lemmas bio_ops = bget_def bread_def bwrite_def brelse_def iderw_def getbuf_def modbuf_def bdata_def bset_def

subsection \<open>The cache invariant and the contents it presents\<close>

text \<open>
  A buffer is either unused, as \<open>binit\<close> leaves it, or live: it holds a block of disk 1, and when
  it is neither held by a process (busy) nor waiting for a commit (dirty) its bytes are those on
  the disk. No block has two live buffers.
\<close>

definition buf_ok :: "'a bio_state_scheme \<Rightarrow> buf \<Rightarrow> bool" where
  "buf_ok s u \<longleftrightarrow>
     b_dev u = NODEV_ID \<and> \<not> b_valid u \<and> \<not> b_busy u \<and> \<not> b_dirty u \<or>
     b_dev u = ROOTDEV \<and> b_valid u \<and> b_blockno u < disksize s \<and> length (b_data u) = BSIZE \<and>
       (\<not> b_busy u \<and> \<not> b_dirty u \<longrightarrow> b_data u = disk s (b_blockno u))"

definition live_at :: "'a bio_state_scheme \<Rightarrow> nat \<Rightarrow> nat \<Rightarrow> bool" where
  "live_at s i b \<longleftrightarrow> i < NBUF \<and> b_dev (bufs s ! i) = ROOTDEV \<and> b_blockno (bufs s ! i) = b"

definition bio_inv :: "'a bio_state_scheme \<Rightarrow> bool" where
  "bio_inv s \<longleftrightarrow>
     length (bufs s) = NBUF \<and> distinct (lru s) \<and> set (lru s) = {..<NBUF} \<and>
     (\<forall>i<NBUF. buf_ok s (bufs s ! i)) \<and>
     (\<forall>i j b. live_at s i b \<and> live_at s j b \<longrightarrow> i = j) \<and>
     (\<forall>b<disksize s. length (disk s b) = BSIZE)"

text \<open>The bytes of a block as the rest of the kernel sees them: the cached copy, else the disk.\<close>

definition view :: "'a bio_state_scheme \<Rightarrow> nat \<Rightarrow> byte list" where
  "view s b = (case find_idx (\<lambda>u. b_dev u = ROOTDEV \<and> b_blockno u = b) (bufs s) of
     Some i \<Rightarrow> b_data (bufs s ! i)
   | None \<Rightarrow> disk s b)"

definition busy_at :: "'a bio_state_scheme \<Rightarrow> nat \<Rightarrow> bool" where
  "busy_at s b \<longleftrightarrow> (\<exists>i. live_at s i b \<and> b_busy (bufs s ! i))"

definition dirty_at :: "'a bio_state_scheme \<Rightarrow> nat \<Rightarrow> bool" where
  "dirty_at s b \<longleftrightarrow> (\<exists>i. live_at s i b \<and> b_dirty (bufs s ! i))"

text \<open>\<open>held s i b\<close>: the running process holds buffer \<open>i\<close>, which caches block \<open>b\<close>.\<close>

definition held :: "'a bio_state_scheme \<Rightarrow> nat \<Rightarrow> nat \<Rightarrow> bool" where
  "held s i b \<longleftrightarrow> live_at s i b \<and> b_busy (bufs s ! i)"

lemma NODEV_neq_ROOTDEV [simp]: "NODEV_ID \<noteq> ROOTDEV" "ROOTDEV \<noteq> NODEV_ID"
  by (simp_all add: NODEV_ID_def ROOTDEV_def)

lemma upd_buf_sel [simp]:
  "bufs (upd_buf i f s) = (bufs s)[i := f (bufs s ! i)]"
  "disk (upd_buf i f s) = disk s" "disksize (upd_buf i f s) = disksize s"
  "disk_log (upd_buf i f s) = disk_log s" "lru (upd_buf i f s) = lru s"
  by (simp_all add: upd_buf_def)

lemma bio_invD:
  assumes "bio_inv s"
  shows "length (bufs s) = NBUF" "distinct (lru s)" "set (lru s) = {..<NBUF}"
    "i < NBUF \<Longrightarrow> buf_ok s (bufs s ! i)"
    "live_at s i b \<Longrightarrow> live_at s j b \<Longrightarrow> i = j"
    "c < disksize s \<Longrightarrow> length (disk s c) = BSIZE"
  using assms unfolding bio_inv_def by blast+

lemma live_at_ok:
  assumes "bio_inv s" "live_at s i b"
  shows "i < NBUF" "i < length (bufs s)" "b_dev (bufs s ! i) = ROOTDEV" "b_blockno (bufs s ! i) = b"
    "b_valid (bufs s ! i)" "b < disksize s" "length (b_data (bufs s ! i)) = BSIZE"
    "\<not> b_busy (bufs s ! i) \<Longrightarrow> \<not> b_dirty (bufs s ! i) \<Longrightarrow> b_data (bufs s ! i) = disk s b"
  using assms bio_invD(4) [OF assms(1), of i] bio_invD(1) [OF assms(1)]
  by (auto simp: live_at_def buf_ok_def)

lemma view_live: "bio_inv s \<Longrightarrow> live_at s i b \<Longrightarrow> view s b = b_data (bufs s ! i)"
proof -
  assume inv: "bio_inv s" and live: "live_at s i b"
  let ?P = "\<lambda>u. b_dev u = ROOTDEV \<and> b_blockno u = b"
  have "find_idx ?P (bufs s) \<noteq> None"
    using live_at_ok(2-4) [OF inv live] by (auto simp: find_idx_None)
  then obtain j where j: "find_idx ?P (bufs s) = Some j" by blast
  then have "live_at s j b"
    using bio_invD(1) [OF inv] by (auto simp: find_idx_Some live_at_def)
  then have "j = i"
    using bio_invD(5) [OF inv _ live] by blast
  with j show ?thesis by (simp add: view_def)
qed

lemma view_disk: "bio_inv s \<Longrightarrow> (\<And>i. \<not> live_at s i b) \<Longrightarrow> view s b = disk s b"
proof -
  assume inv: "bio_inv s" and no: "\<And>i. \<not> live_at s i b"
  have "find_idx (\<lambda>u. b_dev u = ROOTDEV \<and> b_blockno u = b) (bufs s) = None"
    using bio_invD(1) [OF inv] no
    by (auto simp: find_idx_None in_set_conv_nth live_at_def) blast
  then show ?thesis by (simp add: view_def)
qed

lemma view_clean:
  assumes "bio_inv s" "\<not> busy_at s b" "\<not> dirty_at s b"
  shows "view s b = disk s b"
proof (cases "\<exists>i. live_at s i b")
  case True
  then obtain i where i: "live_at s i b" by blast
  with assms have "\<not> b_busy (bufs s ! i)" "\<not> b_dirty (bufs s ! i)"
    by (auto simp: busy_at_def dirty_at_def)
  with assms(1) i show ?thesis
    by (simp add: view_live live_at_ok(8))
next
  case False
  with assms(1) show ?thesis by (simp add: view_disk)
qed

lemma length_view: "bio_inv s \<Longrightarrow> b < disksize s \<Longrightarrow> length (view s b) = BSIZE"
  by (cases "\<exists>i. live_at s i b") (auto simp: view_live view_disk live_at_ok(7) bio_invD(6))

subsection \<open>Replacing one buffer\<close>

lemma live_at_upd_buf:
  assumes "bio_inv s" "i < NBUF"
  shows "live_at (upd_buf i f s) j b \<longleftrightarrow>
    (if j = i then b_dev (f (bufs s ! i)) = ROOTDEV \<and> b_blockno (f (bufs s ! i)) = b else live_at s j b)"
  using assms bio_invD(1) [OF assms(1)] by (auto simp: live_at_def)

lemma buf_ok_upd_buf [simp]: "buf_ok (upd_buf i f s) = buf_ok s"
  by (simp add: buf_ok_def fun_eq_iff)

lemma bio_inv_upd_buf:
  assumes inv: "bio_inv s" and i: "i < NBUF" and ok: "buf_ok s (f (bufs s ! i))"
    and uniq: "b_dev (f (bufs s ! i)) = ROOTDEV \<Longrightarrow>
      \<forall>j. j \<noteq> i \<longrightarrow> \<not> live_at s j (b_blockno (f (bufs s ! i)))"
  shows "bio_inv (upd_buf i f s)"
proof -
  note live = live_at_upd_buf [OF inv i, of f]
  have "\<forall>j<NBUF. buf_ok s ((bufs s)[i := f (bufs s ! i)] ! j)"
    using bio_invD(1,4) [OF inv] ok i by (simp add: nth_list_update)
  moreover have "j = k" if "live_at (upd_buf i f s) j b" "live_at (upd_buf i f s) k b" for j k b
    using that bio_invD(5) [OF inv] uniq by (auto simp: live split: if_splits)
  ultimately show ?thesis
    using bio_invD(1,2,3,6) [OF inv] by (auto simp: bio_inv_def)
qed

lemma view_upd_buf:
  assumes inv: "bio_inv s" and i: "i < NBUF" and inv': "bio_inv (upd_buf i f s)"
  shows "view (upd_buf i f s) b =
    (if b_dev (f (bufs s ! i)) = ROOTDEV \<and> b_blockno (f (bufs s ! i)) = b then b_data (f (bufs s ! i))
     else if live_at s i b then disk s b else view s b)"
proof -
  note live = live_at_upd_buf [OF inv i, of f]
  consider (new) "b_dev (f (bufs s ! i)) = ROOTDEV \<and> b_blockno (f (bufs s ! i)) = b"
    | (old) "\<not> (b_dev (f (bufs s ! i)) = ROOTDEV \<and> b_blockno (f (bufs s ! i)) = b)" "live_at s i b"
    | (other) "\<not> (b_dev (f (bufs s ! i)) = ROOTDEV \<and> b_blockno (f (bufs s ! i)) = b)" "\<not> live_at s i b"
    by blast
  then show ?thesis
  proof cases
    case new
    then have "live_at (upd_buf i f s) i b" by (simp add: live)
    with new show ?thesis
      using i bio_invD(1) [OF inv] by (simp add: view_live [OF inv'])
  next
    case old
    then have "\<not> live_at (upd_buf i f s) j b" for j
      using bio_invD(5) [OF inv] by (auto simp: live)
    with old show ?thesis by (auto simp: view_disk [OF inv'])
  next
    case other
    show ?thesis
    proof (cases "\<exists>j. live_at s j b")
      case True
      then obtain j where j: "live_at s j b" by blast
      with other have "j \<noteq> i" and "live_at (upd_buf i f s) j b"
        by (auto simp: live)
      with j other show ?thesis
        by (auto simp: view_live [OF inv'] view_live [OF inv])
    next
      case False
      with other have "\<not> live_at (upd_buf i f s) j b" for j
        by (auto simp: live)
      with other False show ?thesis
        by (auto simp: view_disk [OF inv'] view_disk [OF inv])
    qed
  qed
qed

text \<open>The part of the state the buffer cache may change.\<close>

definition bio_only :: "'a bio_state_scheme \<Rightarrow> 'a bio_state_scheme \<Rightarrow> bool" where
  "bio_only s t \<longleftrightarrow>
     t = s\<lparr>wakeups := wakeups t, disk := disk t, disk_log := disk_log t, bufs := bufs t, lru := lru t\<rparr>"

lemma bio_only_refl [simp]: "bio_only s s"
  by (simp add: bio_only_def)

lemma bio_only_trans:
  assumes "bio_only s t" "bio_only t u"
  shows "bio_only s u"
proof -
  from assms(2) have "u = t\<lparr>wakeups := wakeups u, disk := disk u, disk_log := disk_log u, bufs := bufs u, lru := lru u\<rparr>"
    by (simp only: bio_only_def)
  also have "\<dots> = s\<lparr>wakeups := wakeups u, disk := disk u, disk_log := disk_log u, bufs := bufs u, lru := lru u\<rparr>"
    by (subst assms(1) [unfolded bio_only_def]) simp
  finally show ?thesis
    by (simp only: bio_only_def)
qed

lemma bio_only_upd_buf [simp]: "bio_only s (upd_buf i f s)"
  by (simp add: bio_only_def upd_buf_def)

lemma bio_only_sel:
  assumes "bio_only s t"
  shows "disksize t = disksize s" "pages t = pages s" "kernel_end t = kernel_end s"
    "freelist t = freelist s" "free_frame_cnt t = free_frame_cnt s"
  using arg_cong [OF assms [unfolded bio_only_def], of disksize]
    arg_cong [OF assms [unfolded bio_only_def], of pages]
    arg_cong [OF assms [unfolded bio_only_def], of kernel_end]
    arg_cong [OF assms [unfolded bio_only_def], of freelist]
    arg_cong [OF assms [unfolded bio_only_def], of free_frame_cnt] by simp_all

subsection \<open>The operations\<close>

lemma bread_hit:
  assumes inv: "bio_inv s" and live: "live_at s i b"
  shows "bread ROOTDEV b s =
    (if b_busy (bufs s ! i) then Block (ChanBuf i) s else Ret i (upd_buf i (\<lambda>u. u\<lparr>b_busy := True\<rparr>) s))"
proof -
  let ?P = "\<lambda>j. b_dev (bufs s ! j) = ROOTDEV \<and> b_blockno (bufs s ! j) = b"
  have "find ?P (lru s) \<noteq> None"
    using live bio_invD(3) [OF inv] by (auto simp: find_None_iff live_at_def)
  then obtain j where j: "find ?P (lru s) = Some j" by blast
  then have "j \<in> set (lru s)" "?P j"
    by (auto simp: find_Some_iff)
  then have "live_at s j b"
    using bio_invD(3) [OF inv] by (auto simp: live_at_def)
  then have "j = i"
    using bio_invD(5) [OF inv] live by blast
  with j show ?thesis
    using live_at_ok(2,5) [OF inv live] by (simp add: bio_ops kern_defs)
qed

definition clean_buf :: "'a bio_state_scheme \<Rightarrow> nat \<Rightarrow> bool" where
  "clean_buf s i \<longleftrightarrow> \<not> b_busy (bufs s ! i) \<and> \<not> b_dirty (bufs s ! i)"

definition fresh_buf :: "'a bio_state_scheme \<Rightarrow> nat \<Rightarrow> buf" where
  "fresh_buf s b = \<lparr>b_busy = True, b_valid = True, b_dirty = False, b_dev = ROOTDEV,
     b_blockno = b, b_data = disk s b\<rparr>"

lemma fresh_buf_eq:
  "(u :: buf)\<lparr>b_dev := ROOTDEV, b_blockno := b, b_busy := True, b_dirty := False, b_data := disk s b,
     b_valid := True\<rparr> = fresh_buf s b"
  by (cases u) (simp add: fresh_buf_def)

lemma bread_miss:
  assumes inv: "bio_inv s" and miss: "\<And>i. \<not> live_at s i b"
  shows "bread ROOTDEV b s = (case find (clean_buf s) (rev (lru s)) of
     None \<Rightarrow> Panic ''bget: no buffers''
   | Some i \<Rightarrow> if disksize s \<le> b then Panic ''iderw: block out of range''
       else Ret i (upd_buf i (\<lambda>_. fresh_buf s b) s))"
proof -
  have none: "find (\<lambda>j. b_dev (bufs s ! j) = ROOTDEV \<and> b_blockno (bufs s ! j) = b) (lru s) = None"
    using miss bio_invD(3) [OF inv] by (auto simp: find_None_iff live_at_def)
  show ?thesis
  proof (cases "find (clean_buf s) (rev (lru s))")
    case None
    with none show ?thesis by (simp add: bio_ops kern_defs clean_buf_def [abs_def])
  next
    case (Some i)
    have "i < length (bufs s)"
      using find_SomeD [OF Some] bio_invD(1,3) [OF inv] by simp
    with Some none show ?thesis
      by (simp add: bio_ops kern_defs clean_buf_def [abs_def] upd_buf_def
          fresh_buf_eq [symmetric, of _ _ "bufs s ! i"] ROOTDEV_def)
  qed
qed

text \<open>
  What a successful \<open>bread\<close> does: it replaces one buffer that nobody held and that was clean or
  already cached the block, by a held buffer with the block's current contents.
\<close>

lemma bread_Ret:
  assumes inv: "bio_inv s" and ret: "bread ROOTDEV b s = Ret i t"
  obtains u where "t = upd_buf i (\<lambda>_. u) s" "i < NBUF" "\<not> b_busy (bufs s ! i)" "b < disksize s"
    "b_busy u" "b_valid u" "b_dev u = ROOTDEV" "b_blockno u = b" "b_data u = view s b"
    "b_dirty u \<longleftrightarrow> dirty_at s b" "\<And>j. live_at s j b \<Longrightarrow> j = i"
    "\<And>c. live_at s i c \<Longrightarrow> c \<noteq> b \<Longrightarrow> \<not> b_dirty (bufs s ! i)"
proof (cases "\<exists>j. live_at s j b")
  case True
  then obtain j where j: "live_at s j b" by blast
  note ok = live_at_ok [OF inv j] and uniq = bio_invD(5) [OF inv _ j]
  from ret ok have i: "i = j" "\<not> b_busy (bufs s ! j)" "t = upd_buf j (\<lambda>u. u\<lparr>b_busy := True\<rparr>) s"
    by (auto simp: bread_hit [OF inv j] split: if_splits)
  show ?thesis
  proof (rule that [of "(bufs s ! j)\<lparr>b_busy := True\<rparr>"])
    show "t = upd_buf i (\<lambda>_. (bufs s ! j)\<lparr>b_busy := True\<rparr>) s"
      using i by (simp add: upd_buf_def)
    show "b_dirty ((bufs s ! j)\<lparr>b_busy := True\<rparr>) \<longleftrightarrow> dirty_at s b"
      unfolding dirty_at_def by (simp, metis j uniq)
    show "b_data ((bufs s ! j)\<lparr>b_busy := True\<rparr>) = view s b"
      using j by (simp add: view_live [OF inv])
    show "\<And>c. live_at s i c \<Longrightarrow> c \<noteq> b \<Longrightarrow> \<not> b_dirty (bufs s ! i)"
      using j i by (auto simp: live_at_def)
    show "i < NBUF" "\<not> b_busy (bufs s ! i)" "b < disksize s"
      using i ok(1,6) by simp_all
    show "b_busy ((bufs s ! j)\<lparr>b_busy := True\<rparr>)" "b_valid ((bufs s ! j)\<lparr>b_busy := True\<rparr>)"
      "b_dev ((bufs s ! j)\<lparr>b_busy := True\<rparr>) = ROOTDEV" "b_blockno ((bufs s ! j)\<lparr>b_busy := True\<rparr>) = b"
      using ok(3,4,5) by simp_all
    show "\<And>k. live_at s k b \<Longrightarrow> k = i"
      unfolding i(1) by (rule uniq)
  qed
next
  case False
  then have miss: "\<And>j. \<not> live_at s j b" by blast
  from ret obtain v: "find (clean_buf s) (rev (lru s)) = Some i" "b < disksize s"
    "t = upd_buf i (\<lambda>_. fresh_buf s b) s"
    by (auto simp: bread_miss [OF inv miss] split: option.splits if_splits)
  have "i < NBUF" "clean_buf s i"
    using find_SomeD [OF v(1)] bio_invD(3) [OF inv] by simp_all
  then show ?thesis
    using v miss by (intro that [of "fresh_buf s b"])
      (auto simp: fresh_buf_def clean_buf_def dirty_at_def view_disk [OF inv miss])
qed

lemma busy_at_upd_buf:
  assumes "bio_inv s" "i < NBUF"
  shows "busy_at (upd_buf i f s) c \<longleftrightarrow>
    (b_dev (f (bufs s ! i)) = ROOTDEV \<and> b_blockno (f (bufs s ! i)) = c \<and> b_busy (f (bufs s ! i))) \<or>
    (\<exists>j. j \<noteq> i \<and> live_at s j c \<and> b_busy (bufs s ! j))"
  using assms bio_invD(1) [OF assms(1)] by (auto simp: busy_at_def live_at_upd_buf)

lemma dirty_at_upd_buf:
  assumes "bio_inv s" "i < NBUF"
  shows "dirty_at (upd_buf i f s) c \<longleftrightarrow>
    (b_dev (f (bufs s ! i)) = ROOTDEV \<and> b_blockno (f (bufs s ! i)) = c \<and> b_dirty (f (bufs s ! i))) \<or>
    (\<exists>j. j \<noteq> i \<and> live_at s j c \<and> b_dirty (bufs s ! j))"
  using assms bio_invD(1) [OF assms(1)] by (auto simp: dirty_at_def live_at_upd_buf)

text \<open>The buffers the process already holds stay held, with their contents.\<close>

definition keeps_held :: "'a bio_state_scheme \<Rightarrow> 'a bio_state_scheme \<Rightarrow> nat \<Rightarrow> bool" where
  "keeps_held s t i \<longleftrightarrow> (\<forall>j c. j \<noteq> i \<longrightarrow> held s j c \<longrightarrow> held t j c)"

lemma keeps_held_upd_buf [simp]: "bio_inv s \<Longrightarrow> keeps_held s (upd_buf i f s) i"
  by (auto simp: keeps_held_def held_def live_at_def)

lemma held_data: "bio_inv s \<Longrightarrow> held s i b \<Longrightarrow> b_data (bufs s ! i) = view s b"
  by (metis held_def view_live)

lemma held_inj: "bio_inv s \<Longrightarrow> held s i b \<Longrightarrow> held s j b \<Longrightarrow> i = j"
  using bio_invD(5) by (auto simp: held_def)

lemma held_busy: "held s i b \<Longrightarrow> busy_at s b"
  by (auto simp: held_def busy_at_def)

theorem bread_post:
  assumes inv: "bio_inv s" and ret: "bread ROOTDEV b s = Ret i t"
  shows "bio_inv t" "held t i b" "view t = view s" "disk t = disk s" "disk_log t = disk_log s"
    "bio_only s t" "\<not> busy_at s b" "busy_at t = (busy_at s)(b := True)" "dirty_at t = dirty_at s"
    "keeps_held s t i" "\<not> held s i c" "b < disksize s"
proof -
  obtain u where u: "t = upd_buf i (\<lambda>_. u) s" "i < NBUF" "\<not> b_busy (bufs s ! i)" "b < disksize s"
    "b_busy u" "b_valid u" "b_dev u = ROOTDEV" "b_blockno u = b" "b_data u = view s b"
    "b_dirty u \<longleftrightarrow> dirty_at s b" "\<And>j. live_at s j b \<Longrightarrow> j = i"
    "\<And>c. live_at s i c \<Longrightarrow> c \<noteq> b \<Longrightarrow> \<not> b_dirty (bufs s ! i)"
    by (rule bread_Ret [OF inv ret]) blast
  have "buf_ok s u"
    using u(4-9) length_view [OF inv u(4)] by (simp add: buf_ok_def)
  then show inv': "bio_inv t"
    unfolding u(1) using u(11) by (intro bio_inv_upd_buf [OF inv u(2)]) (auto simp: u(8))
  show "view t = view s"
  proof
    fix c
    have "live_at s i c \<Longrightarrow> c \<noteq> b \<Longrightarrow> disk s c = view s c"
      using u(3,12) live_at_ok(8) [OF inv, of i c] by (simp add: view_live [OF inv])
    then show "view t c = view s c"
      using view_upd_buf [OF inv u(2) inv' [unfolded u(1)]] u(7,8,9) by (simp add: u(1))
  qed
  show "held t i b"
    using u(2,5,7,8) bio_invD(1) [OF inv] by (simp add: u(1) held_def live_at_def)
  show "\<not> busy_at s b"
    using u(3,11) unfolding busy_at_def by blast
  show "busy_at t = (busy_at s)(b := True)"
  proof
    fix c
    show "busy_at t c = ((busy_at s)(b := True)) c"
      unfolding u(1) busy_at_upd_buf [OF inv u(2)] using u(3,5,7,8) by (auto simp: busy_at_def)
  qed
  show "dirty_at t = dirty_at s"
  proof
    fix c
    show "dirty_at t c = dirty_at s c"
      unfolding u(1) dirty_at_upd_buf [OF inv u(2)]
      by (cases "c = b") (simp_all add: u(7,8,10), (metis dirty_at_def u(11,12))+)
  qed
  show "\<not> held s i c"
    using u(3) by (simp add: held_def)
  show "disk t = disk s" "disk_log t = disk_log s" "bio_only s t" "keeps_held s t i" "b < disksize s"
    using inv by (simp_all add: u(1,4))
qed

text \<open>\<open>bread\<close> returns when the block exists, nobody holds it, and it is cached or some buffer is clean.\<close>

definition clean_exists :: "'a bio_state_scheme \<Rightarrow> bool" where
  "clean_exists s \<longleftrightarrow> (\<exists>i<NBUF. clean_buf s i)"

lemma bread_returns:
  assumes inv: "bio_inv s" and b: "b < disksize s" "\<not> busy_at s b"
    and room: "(\<exists>i. live_at s i b) \<or> clean_exists s"
  shows "\<exists>i t. bread ROOTDEV b s = Ret i t"
proof (cases "\<exists>i. live_at s i b")
  case True
  then obtain i where i: "live_at s i b" by blast
  with b have "\<not> b_busy (bufs s ! i)" by (auto simp: busy_at_def)
  then show ?thesis by (simp add: bread_hit [OF inv i])
next
  case False
  with room obtain i where "i < NBUF" "clean_buf s i" by (auto simp: clean_exists_def)
  then obtain v where "find (clean_buf s) (rev (lru s)) = Some v"
    using find_total [of i "rev (lru s)" "clean_buf s"] bio_invD(3) [OF inv] by auto
  then show ?thesis
    using b False by (simp add: bread_miss [OF inv])
qed

lemma lru_wakeups_upd [simp]:
  "live_at (s\<lparr>lru := l\<rparr>) = live_at s" "live_at (s\<lparr>wakeups := w\<rparr>) = live_at s"
  "buf_ok (s\<lparr>lru := l\<rparr>) = buf_ok s" "buf_ok (s\<lparr>wakeups := w\<rparr>) = buf_ok s"
  "view (s\<lparr>lru := l\<rparr>) = view s" "view (s\<lparr>wakeups := w\<rparr>) = view s"
  "busy_at (s\<lparr>lru := l\<rparr>) = busy_at s" "busy_at (s\<lparr>wakeups := w\<rparr>) = busy_at s"
  "dirty_at (s\<lparr>lru := l\<rparr>) = dirty_at s" "dirty_at (s\<lparr>wakeups := w\<rparr>) = dirty_at s"
  "held (s\<lparr>lru := l\<rparr>) = held s" "held (s\<lparr>wakeups := w\<rparr>) = held s"
  by (simp_all add: live_at_def buf_ok_def view_def busy_at_def dirty_at_def held_def fun_eq_iff
      cong: option.case_cong)

lemma bio_inv_wakeups [simp]: "bio_inv (s\<lparr>wakeups := w\<rparr>) = bio_inv s"
  by (simp add: bio_inv_def)

lemma bio_inv_lru: "bio_inv s \<Longrightarrow> distinct l \<Longrightarrow> set l = {..<NBUF} \<Longrightarrow> bio_inv (s\<lparr>lru := l\<rparr>)"
  by (simp add: bio_inv_def)

lemma ex_live_split:
  "(\<exists>j. live_at s j c \<and> P j) \<longleftrightarrow> (live_at s i c \<and> P i) \<or> (\<exists>j. j \<noteq> i \<and> live_at s j c \<and> P j)"
  by (metis (mono_tags))

lemma brelse_post:
  assumes inv: "bio_inv s" and h: "held s i b" and ok: "dirty_at s b \<or> view s b = disk s b"
  obtains t where "brelse i s = Ret () t" "bio_inv t" "view t = view s" "disk t = disk s"
    "disk_log t = disk_log s" "bio_only s t" "busy_at t = (busy_at s)(b := False)"
    "dirty_at t = dirty_at s" "keeps_held s t i" "wakeups t = ChanBuf i # wakeups s"
proof -
  let ?f = "\<lambda>u :: buf. u\<lparr>b_busy := False\<rparr>"
  define r where "r = upd_buf i ?f s"
  define t where "t = r\<lparr>lru := i # remove1 i (lru s), wakeups := ChanBuf i # wakeups s\<rparr>"
  from h have live: "live_at s i b" and busy: "b_busy (bufs s ! i)" by (auto simp: held_def)
  note lo = live_at_ok [OF inv live]
  have nliv: "\<not> live_at s j b" if "j \<noteq> i" for j
    using bio_invD(5) [OF inv _ live] that by blast
  have liv: "live_at s i c \<longleftrightarrow> c = b" for c
    using live by (auto simp: live_at_def)
  have d: "dirty_at s b \<longleftrightarrow> b_dirty (bufs s ! i)"
    using live nliv by (metis dirty_at_def)
  have bs: "busy_at s c \<longleftrightarrow> c = b \<or> (\<exists>j. j \<noteq> i \<and> live_at s j c \<and> b_busy (bufs s ! j))" for c
    unfolding busy_at_def by (subst ex_live_split [where i = i]) (simp add: liv busy)
  have ds: "dirty_at s c \<longleftrightarrow> c = b \<and> b_dirty (bufs s ! i) \<or> (\<exists>j. j \<noteq> i \<and> live_at s j c \<and> b_dirty (bufs s ! j))" for c
    unfolding dirty_at_def by (subst ex_live_split [where i = i]) (simp add: liv)
  have "brelse i s = Ret () t"
    using busy by (simp add: bio_ops kern_defs kwakeup_def r_def t_def upd_buf_def)
  moreover have invr: "bio_inv r"
    unfolding r_def
  proof (rule bio_inv_upd_buf [OF inv lo(1)])
    show "buf_ok s (?f (bufs s ! i))"
      using lo ok d view_live [OF inv live] by (auto simp: buf_ok_def)
    show "\<forall>j. j \<noteq> i \<longrightarrow> \<not> live_at s j (b_blockno (?f (bufs s ! i)))"
      using nliv lo(4) by simp
  qed
  moreover have "bio_inv t"
    unfolding t_def bio_inv_wakeups
    using bio_invD(2,3) [OF inv] lo(1) by (intro bio_inv_lru [OF invr]) auto
  moreover have "view t = view s"
  proof
    fix c
    have "view t c = view r c" by (simp add: t_def)
    also have "\<dots> = view s c"
      unfolding r_def view_upd_buf [OF inv lo(1) invr [unfolded r_def]]
      using lo(3,4) by (cases "c = b") (simp_all add: liv view_live [OF inv live])
    finally show "view t c = view s c" .
  qed
  moreover have "busy_at t = (busy_at s)(b := False)"
  proof
    fix c
    have "busy_at t c = busy_at r c" by (simp add: t_def)
    then show "busy_at t c = ((busy_at s)(b := False)) c"
      using nliv lo(3,4) by (cases "c = b") (auto simp: bs r_def busy_at_upd_buf [OF inv lo(1)])
  qed
  moreover have "dirty_at t = dirty_at s"
  proof
    fix c
    have "dirty_at t c = dirty_at r c" by (simp add: t_def)
    then show "dirty_at t c = dirty_at s c"
      using nliv lo(3,4) by (cases "c = b") (auto simp: ds r_def dirty_at_upd_buf [OF inv lo(1)])
  qed
  moreover have "keeps_held s t i"
    using keeps_held_upd_buf [OF inv, of i ?f] by (simp add: keeps_held_def t_def r_def)
  ultimately show ?thesis
    by (intro that [of t]) (auto simp: t_def r_def bio_only_def upd_buf_def)
qed

lemma bset_post:
  assumes inv: "bio_inv s" and h: "held s i b" and len: "length (f (view s b)) = BSIZE"
  obtains t where "bset i f s = Ret () t" "bio_inv t" "view t = (view s)(b := f (view s b))"
    "disk t = disk s" "disk_log t = disk_log s" "bio_only s t" "busy_at t = busy_at s"
    "dirty_at t = dirty_at s" "held t = held s" "wakeups t = wakeups s"
proof -
  let ?f = "\<lambda>u :: buf. u\<lparr>b_data := f (b_data u)\<rparr>"
  define t where "t = upd_buf i ?f s"
  from h have live: "live_at s i b" and busy: "b_busy (bufs s ! i)" by (auto simp: held_def)
  note lo = live_at_ok [OF inv live] and vl = view_live [OF inv live]
  have nliv: "\<not> live_at s j b" if "j \<noteq> i" for j
    using bio_invD(5) [OF inv _ live] that by blast
  have liv: "live_at s i c \<longleftrightarrow> c = b" for c
    using live by (auto simp: live_at_def)
  have "bset i f s = Ret () t"
    by (simp add: bio_ops kern_defs t_def)
  moreover have invt: "bio_inv t"
    unfolding t_def
  proof (rule bio_inv_upd_buf [OF inv lo(1)])
    show "buf_ok s (?f (bufs s ! i))"
      using lo(3-6) busy len by (simp add: buf_ok_def vl)
    show "\<forall>j. j \<noteq> i \<longrightarrow> \<not> live_at s j (b_blockno (?f (bufs s ! i)))"
      using nliv lo(4) by simp
  qed
  moreover have "view t = (view s)(b := f (view s b))"
  proof
    fix c
    show "view t c = ((view s)(b := f (view s b))) c"
      unfolding t_def view_upd_buf [OF inv lo(1) invt [unfolded t_def]]
      using lo(3,4) by (cases "c = b") (simp_all add: liv vl)
  qed
  moreover have nb: "live_at t = live_at s" "\<And>j. b_busy (bufs t ! j) = b_busy (bufs s ! j)"
      "\<And>j. b_dirty (bufs t ! j) = b_dirty (bufs s ! j)"
    using lo(2) by (auto simp: t_def live_at_def fun_eq_iff nth_list_update)
  have "busy_at t = busy_at s" "dirty_at t = dirty_at s" "held t = held s"
    by (simp_all add: busy_at_def dirty_at_def held_def nb fun_eq_iff)
  ultimately show ?thesis
    by (intro that [of t]) (simp_all add: t_def upd_buf_def bio_only_def)
qed

lemma disk_upd [simp]:
  "live_at (s\<lparr>disk := d\<rparr>) = live_at s" "live_at (s\<lparr>disk_log := l\<rparr>) = live_at s"
  "busy_at (s\<lparr>disk := d\<rparr>) = busy_at s" "busy_at (s\<lparr>disk_log := l\<rparr>) = busy_at s"
  "dirty_at (s\<lparr>disk := d\<rparr>) = dirty_at s" "dirty_at (s\<lparr>disk_log := l\<rparr>) = dirty_at s"
  "held (s\<lparr>disk := d\<rparr>) = held s" "held (s\<lparr>disk_log := l\<rparr>) = held s"
  "buf_ok (s\<lparr>disk_log := l\<rparr>) = buf_ok s" "view (s\<lparr>disk_log := l\<rparr>) = view s"
  "bio_inv (s\<lparr>disk_log := l\<rparr>) = bio_inv s"
  by (simp_all add: live_at_def buf_ok_def view_def busy_at_def dirty_at_def held_def bio_inv_def
      fun_eq_iff cong: option.case_cong)

text \<open>Writing a held block's contents to the disk keeps the invariant and the view.\<close>

lemma disk_write:
  assumes inv: "bio_inv s" and live: "live_at s i b" and d: "d = view s b"
  shows "bio_inv (s\<lparr>disk := (disk s)(b := d)\<rparr>)" "view (s\<lparr>disk := (disk s)(b := d)\<rparr>) = view s"
proof -
  let ?t = "s\<lparr>disk := (disk s)(b := d)\<rparr>"
  note lo = live_at_ok [OF inv live] and vl = view_live [OF inv live]
  have "buf_ok ?t (bufs s ! j)" if j: "j < NBUF" for j
  proof (cases "j = i")
    case True
    with lo show ?thesis by (simp add: buf_ok_def d vl)
  next
    case False
    then have "b_dev (bufs s ! j) = ROOTDEV \<longrightarrow> b_blockno (bufs s ! j) \<noteq> b"
      using bio_invD(5) [OF inv _ live, of j] j by (auto simp: live_at_def)
    with bio_invD(4) [OF inv j] show ?thesis by (auto simp: buf_ok_def)
  qed
  moreover have "length d = BSIZE"
    using length_view [OF inv lo(6)] d by simp
  ultimately show invt: "bio_inv ?t"
    using bio_invD(1,2,3,6) [OF inv] bio_invD(5) [OF inv] unfolding bio_inv_def by (auto simp del: One_nat_def)
  show "view ?t = view s"
  proof
    fix c
    show "view ?t c = view s c"
    proof (cases "\<exists>j. live_at s j c")
      case True
      then obtain j where j: "live_at s j c" by blast
      then have "live_at ?t j c" by simp
      from view_live [OF invt this] view_live [OF inv j] show ?thesis by simp
    next
      case False
      then have "c \<noteq> b" using live by blast
      with False show ?thesis by (simp add: view_disk [OF invt] view_disk [OF inv])
    qed
  qed
qed

lemma bwrite_eq:
  assumes inv: "bio_inv s" and h: "held s i b"
  shows "bwrite i s = Ret () (upd_buf i (\<lambda>u. u\<lparr>b_dirty := False\<rparr>)
    (s\<lparr>disk := (disk s)(b := view s b), disk_log := disk_log s @ [(b, view s b)]\<rparr>))"
proof -
  from h have live: "live_at s i b" and busy: "b_busy (bufs s ! i)" by (auto simp: held_def)
  note lo = live_at_ok [OF inv live] and vl = view_live [OF inv live]
  have u: "(bufs s ! i)\<lparr>b_dirty := False, b_valid := True\<rparr> = (bufs s ! i)\<lparr>b_dirty := False\<rparr>"
    using lo(5) by simp
  have r: "b_dev (bufs s ! i) = 1"
    using lo(3) by (simp add: ROOTDEV_def)
  show ?thesis
    using lo(2,4,6) busy r by (simp add: bio_ops kern_defs upd_buf_def vl u)
qed

lemma bwrite_post:
  assumes inv: "bio_inv s" and h: "held s i b"
  obtains t where "bwrite i s = Ret () t" "bio_inv t" "view t = view s"
    "disk t = (disk s)(b := view s b)" "disk_log t = disk_log s @ [(b, view s b)]" "bio_only s t"
    "busy_at t = busy_at s" "dirty_at t = (dirty_at s)(b := False)" "held t = held s"
    "wakeups t = wakeups s"
proof -
  let ?f = "\<lambda>u :: buf. u\<lparr>b_dirty := False\<rparr>"
  define r where "r = s\<lparr>disk := (disk s)(b := view s b), disk_log := disk_log s @ [(b, view s b)]\<rparr>"
  define t where "t = upd_buf i ?f r"
  from h have live: "live_at s i b" and busy: "b_busy (bufs s ! i)" by (auto simp: held_def)
  have rs [simp]: "live_at r = live_at s" "bufs r = bufs s" "busy_at r = busy_at s" "dirty_at r = dirty_at s"
      "held r = held s" "view r = view s" "disk r = (disk s)(b := view s b)"
    by (simp_all add: r_def disk_write(2) [OF inv live])
  have invr: "bio_inv r"
    by (simp add: r_def disk_write(1) [OF inv live])
  note lo = live_at_ok [OF invr, unfolded rs, OF live]
  have nliv: "\<not> live_at s j b" if "j \<noteq> i" for j
    using bio_invD(5) [OF inv _ live] that by blast
  have liv: "live_at s i c \<longleftrightarrow> c = b" for c
    using live by (auto simp: live_at_def)
  have vl: "b_data (bufs s ! i) = view s b"
    by (simp add: view_live [OF inv live])
  have "bwrite i s = Ret () t"
    by (simp add: bwrite_eq [OF inv h] t_def r_def)
  moreover have invt: "bio_inv t"
    unfolding t_def
  proof (rule bio_inv_upd_buf [OF invr lo(1)])
    show "buf_ok r (?f (bufs r ! i))"
      using lo(3-7) vl by (simp add: buf_ok_def)
    show "\<forall>j. j \<noteq> i \<longrightarrow> \<not> live_at r j (b_blockno (?f (bufs r ! i)))"
      using nliv lo(4) by simp
  qed
  moreover have "view t = view s"
  proof
    fix c
    show "view t c = view s c"
      unfolding t_def view_upd_buf [OF invr lo(1) invt [unfolded t_def]]
      using lo(3,4) by (cases "c = b") (simp_all add: liv vl)
  qed
  moreover have l: "live_at t = live_at s" and nb: "\<And>j. b_busy (bufs t ! j) = b_busy (bufs s ! j)"
    using lo(2) by (auto simp: t_def live_at_def fun_eq_iff nth_list_update)
  then have "busy_at t = busy_at s" "held t = held s"
    by (simp_all add: busy_at_def held_def fun_eq_iff)
  moreover have "dirty_at t = (dirty_at s)(b := False)"
  proof
    fix c
    have ds: "dirty_at s c \<longleftrightarrow> c = b \<and> b_dirty (bufs s ! i) \<or> (\<exists>j. j \<noteq> i \<and> live_at s j c \<and> b_dirty (bufs s ! j))"
      unfolding dirty_at_def by (subst ex_live_split [where i = i]) (simp add: liv)
    show "dirty_at t c = ((dirty_at s)(b := False)) c"
      using nliv lo(3,4) by (cases "c = b") (auto simp: ds t_def dirty_at_upd_buf [OF invr lo(1)])
  qed
  ultimately show ?thesis
    by (intro that [of t]) (simp_all add: t_def r_def bio_only_def upd_buf_def)
qed

subsection \<open>The cache as its clients see it\<close>

text \<open>
  The abstract state of the cache: the contents of every block, the contents of the disk, the
  history of disk writes, and which blocks are held and which are waiting for a commit.
\<close>

record cview =
  v_data :: "nat \<Rightarrow> byte list"
  v_disk :: "nat \<Rightarrow> byte list"
  v_log :: "(nat \<times> byte list) list"
  v_busy :: "nat \<Rightarrow> bool"
  v_dirty :: "nat \<Rightarrow> bool"

definition cview_of :: "'a bio_state_scheme \<Rightarrow> cview" where
  "cview_of s = \<lparr>v_data = view s, v_disk = disk s, v_log = disk_log s, v_busy = busy_at s, v_dirty = dirty_at s\<rparr>"

lemma cview_of_sel [simp]:
  "v_data (cview_of s) = view s" "v_disk (cview_of s) = disk s" "v_log (cview_of s) = disk_log s"
  "v_busy (cview_of s) = busy_at s" "v_dirty (cview_of s) = dirty_at s"
  by (simp_all add: cview_of_def)

text \<open>Blocks whose buffer cannot be recycled.\<close>

definition used_blocks :: "'a bio_state_scheme \<Rightarrow> nat set" where
  "used_blocks s = {b. busy_at s b \<or> dirty_at s b}"

lemma clean_exists_card:
  assumes inv: "bio_inv s" and card: "card (used_blocks s) < NBUF" and fin: "finite (used_blocks s)"
  shows "clean_exists s"
proof (rule ccontr)
  assume no: "\<not> clean_exists s"
  let ?f = "\<lambda>i. b_blockno (bufs s ! i)"
  have live: "live_at s i (?f i)" if "i < NBUF" for i
    using no that bio_invD(4) [OF inv that] by (auto simp: clean_exists_def clean_buf_def buf_ok_def live_at_def)
  have "inj_on ?f {..<NBUF}"
    using live bio_invD(5) [OF inv] by (metis (lifting) inj_onI lessThan_iff)
  moreover have "?f ` {..<NBUF} \<subseteq> used_blocks s"
    using no live by (auto simp: used_blocks_def busy_at_def dirty_at_def clean_exists_def clean_buf_def)
  ultimately show False
    using card card_inj_on_le [of ?f "{..<NBUF}" "used_blocks s"] fin by simp
qed

text \<open>The postconditions of the four operations, as changes of the abstract state.\<close>

lemma bread_ok:
  assumes inv: "bio_inv s" and b: "b < disksize s" "\<not> busy_at s b"
    and room: "dirty_at s b \<or> finite (used_blocks s) \<and> card (used_blocks s) < NBUF"
  obtains i t where "bread ROOTDEV b s = Ret i t" "bio_inv t" "held t i b" "bio_only s t"
    "cview_of t = (cview_of s)\<lparr>v_busy := (busy_at s)(b := True)\<rparr>" "keeps_held s t i"
    "\<And>c. \<not> held s i c" "b_data (bufs t ! i) = view s b"
proof -
  have "(\<exists>i. live_at s i b) \<or> clean_exists s"
    using room clean_exists_card [OF inv] by (auto simp: dirty_at_def)
  then obtain i t where ret: "bread ROOTDEV b s = Ret i t"
    using bread_returns [OF inv b] by blast
  note post = bread_post [OF inv ret]
  show ?thesis
    using post held_data [OF post(1,2)] by (intro that [OF ret]) (simp_all add: cview_of_def)
qed

lemma bset_ok:
  assumes "bio_inv s" "held s i b" "length (f (view s b)) = BSIZE"
  obtains t where "bset i f s = Ret () t" "bio_inv t" "held t = held s" "bio_only s t"
    "cview_of t = (cview_of s)\<lparr>v_data := (view s)(b := f (view s b))\<rparr>"
proof -
  obtain t where "bset i f s = Ret () t" "bio_inv t" "view t = (view s)(b := f (view s b))"
    "disk t = disk s" "disk_log t = disk_log s" "bio_only s t" "busy_at t = busy_at s"
    "dirty_at t = dirty_at s" "held t = held s"
    using bset_post [of s i b f, OF assms] by metis
  then show ?thesis by (intro that [of t]) (simp_all add: cview_of_def)
qed

lemma bwrite_ok:
  assumes "bio_inv s" "held s i b"
  obtains t where "bwrite i s = Ret () t" "bio_inv t" "held t = held s" "bio_only s t"
    "cview_of t = (cview_of s)\<lparr>v_disk := (disk s)(b := view s b), v_log := disk_log s @ [(b, view s b)],
       v_dirty := (dirty_at s)(b := False)\<rparr>"
proof -
  obtain t where "bwrite i s = Ret () t" "bio_inv t" "view t = view s"
    "disk t = (disk s)(b := view s b)" "disk_log t = disk_log s @ [(b, view s b)]" "bio_only s t"
    "busy_at t = busy_at s" "dirty_at t = (dirty_at s)(b := False)" "held t = held s"
    using bwrite_post [of s i b, OF assms] by metis
  then show ?thesis by (intro that [of t]) (simp_all add: cview_of_def)
qed

lemma brelse_ok:
  assumes "bio_inv s" "held s i b" "dirty_at s b \<or> view s b = disk s b"
  obtains t where "brelse i s = Ret () t" "bio_inv t" "keeps_held s t i" "bio_only s t"
    "cview_of t = (cview_of s)\<lparr>v_busy := (busy_at s)(b := False)\<rparr>"
proof -
  obtain t where "brelse i s = Ret () t" "bio_inv t" "view t = view s" "disk t = disk s"
    "disk_log t = disk_log s" "bio_only s t" "busy_at t = (busy_at s)(b := False)"
    "dirty_at t = dirty_at s" "keeps_held s t i"
    using brelse_post [of s i b, OF assms] by metis
  then show ?thesis by (intro that [of t]) (simp_all add: cview_of_def)
qed

subsection \<open>The linked list through the buffers\<close>

text \<open>
  \<open>bcache\<close>'s list at the level of pointers: the fields \<open>next\<close> and \<open>prev\<close> of every buffer, the
  index \<open>NBUF\<close> standing for \<open>bcache.head\<close>.
\<close>

record bufptrs =
  nx :: "nat \<Rightarrow> nat"
  pv :: "nat \<Rightarrow> nat"

definition insert_head :: "nat \<Rightarrow> bufptrs \<Rightarrow> bufptrs" where
  "insert_head b p =
    (let p = p\<lparr>nx := (nx p)(b := nx p NBUF)\<rparr>;
         p = p\<lparr>pv := (pv p)(b := NBUF)\<rparr>;
         p = p\<lparr>pv := (pv p)(nx p NBUF := b)\<rparr>
     in p\<lparr>nx := (nx p)(NBUF := b)\<rparr>)"

definition binit_ptrs :: "bufptrs \<Rightarrow> bufptrs" where
  "binit_ptrs p = fold insert_head [0..<NBUF] (p\<lparr>pv := (pv p)(NBUF := NBUF), nx := (nx p)(NBUF := NBUF)\<rparr>)"

definition brelse_ptrs :: "nat \<Rightarrow> bufptrs \<Rightarrow> bufptrs" where
  "brelse_ptrs b p =
    (let p = p\<lparr>pv := (pv p)(nx p b := pv p b)\<rparr>;
         p = p\<lparr>nx := (nx p)(pv p b := nx p b)\<rparr>
     in insert_head b p)"

fun seg :: "bufptrs \<Rightarrow> nat \<Rightarrow> nat list \<Rightarrow> nat \<Rightarrow> bool" where
  "seg p a [] c \<longleftrightarrow> nx p a = c \<and> pv p c = a"
| "seg p a (x # xs) c \<longleftrightarrow> nx p a = x \<and> pv p x = a \<and> seg p x xs c"

definition dll :: "bufptrs \<Rightarrow> nat list \<Rightarrow> bool" where
  "dll p xs \<longleftrightarrow> distinct xs \<and> NBUF \<notin> set xs \<and> seg p NBUF xs NBUF"

lemma seg_append: "seg p a (xs @ x # ys) c \<longleftrightarrow> seg p a xs x \<and> seg p x ys c"
  by (induction xs arbitrary: a) auto

lemma seg_cong:
  "(\<And>x. x = a \<or> x \<in> set xs \<Longrightarrow> nx p x = nx q x) \<Longrightarrow> (\<And>x. x = c \<or> x \<in> set xs \<Longrightarrow> pv p x = pv q x) \<Longrightarrow>
   seg p a xs c = seg q a xs c"
proof (induction xs arbitrary: a)
  case (Cons x xs)
  have "nx p a = nx q a" "pv p x = pv q x" using Cons.prems by auto
  moreover have "seg p x xs c = seg q x xs c" by (rule Cons.IH) (use Cons.prems in auto)
  ultimately show ?case by simp
qed simp

lemma seg_link: "seg p a xs c \<Longrightarrow> nx p a = hd (xs @ [c])"
  by (cases xs) auto

lemma seg_back: "seg p a xs c \<Longrightarrow> pv p c = last (a # xs)"
  by (induction xs arbitrary: a) auto

lemma insert_head_dll:
  assumes "dll p xs" "b \<notin> set xs" "b \<noteq> NBUF"
  shows "dll (insert_head b p) (b # xs)"
proof (cases xs)
  case Nil
  with assms show ?thesis by (simp add: dll_def insert_head_def)
next
  case (Cons x ys)
  have "seg (insert_head b p) x ys NBUF = seg p x ys NBUF"
    using assms Cons by (intro seg_cong) (auto simp: insert_head_def dll_def)
  with assms Cons show ?thesis by (auto simp: dll_def insert_head_def)
qed

lemma unlink_dll:
  assumes "dll p (xs @ b # ys)"
  shows "dll (p\<lparr>pv := (pv p)(nx p b := pv p b), nx := (nx p)(pv p b := nx p b)\<rparr>) (xs @ ys)"
proof -
  let ?q = "p\<lparr>pv := (pv p)(nx p b := pv p b), nx := (nx p)(pv p b := nx p b)\<rparr>"
  have s: "seg p NBUF xs b" "seg p b ys NBUF" and d: "distinct (xs @ b # ys)" "NBUF \<notin> set (xs @ b # ys)"
    using assms by (auto simp: dll_def seg_append)
  have l: "pv p b = last (NBUF # xs)" "nx p b = hd (ys @ [NBUF])"
    using seg_back [OF s(1)] seg_link [OF s(2)] by auto
  show ?thesis
  proof (cases ys)
    case Nil
    show ?thesis
    proof (cases xs rule: rev_cases)
      case Nil
      with \<open>ys = []\<close> l show ?thesis by (simp add: dll_def)
    next
      case (snoc zs z)
      with s(1) have "seg p NBUF zs z" by (simp add: seg_append)
      then have "seg ?q NBUF zs z"
        using l d \<open>ys = []\<close> snoc by (subst seg_cong [where q = p]) auto
      with snoc \<open>ys = []\<close> l d show ?thesis by (simp add: dll_def seg_append)
    qed
  next
    case (Cons w ws)
    with s(2) have w: "seg p w ws NBUF" by simp
    show ?thesis
    proof (cases xs rule: rev_cases)
      case Nil
      have "seg ?q w ws NBUF"
        using w l d Cons Nil by (subst seg_cong [where q = p]) auto
      with Cons Nil l d show ?thesis by (simp add: dll_def)
    next
      case (snoc zs z)
      with s(1) have "seg p NBUF zs z" by (simp add: seg_append)
      then have "seg ?q NBUF zs z"
        using l d Cons snoc by (subst seg_cong [where q = p]) auto
      moreover have "seg ?q w ws NBUF"
        using w l d Cons snoc by (subst seg_cong [where q = p]) auto
      ultimately show ?thesis using Cons snoc l d by (simp add: dll_def seg_append)
    qed
  qed
qed

lemma brelse_ptrs_dll:
  assumes "dll p xs" "b \<in> set xs"
  shows "dll (brelse_ptrs b p) (b # remove1 b xs)"
proof -
  obtain ys zs where xs: "xs = ys @ b # zs" "b \<notin> set ys"
    using assms(2) by (metis split_list_first)
  have d: "distinct xs" "NBUF \<notin> set xs" using assms(1) by (auto simp: dll_def)
  have r: "remove1 b xs = ys @ zs" using xs by (simp add: remove1_append)
  have s: "seg p NBUF ys b" "seg p b zs NBUF"
    using assms(1) by (auto simp: dll_def xs seg_append)
  have "nx p b \<noteq> b"
    using seg_link [OF s(2)] d by (cases zs) (auto simp: xs)
  then have "brelse_ptrs b p = insert_head b (p\<lparr>pv := (pv p)(nx p b := pv p b), nx := (nx p)(pv p b := nx p b)\<rparr>)"
    by (simp add: brelse_ptrs_def)
  with insert_head_dll [OF unlink_dll [OF assms(1) [unfolded xs]]] d show ?thesis
    by (simp add: r) (auto simp: xs)
qed

lemma binit_ptrs_dll: "dll (binit_ptrs p) (rev [0..<NBUF])"
proof -
  have "dll (fold insert_head [0..<n] (p\<lparr>pv := (pv p)(NBUF := NBUF), nx := (nx p)(NBUF := NBUF)\<rparr>)) (rev [0..<n])"
    if "n \<le> NBUF" for n
    using that by (induction n) (auto simp: dll_def [of _ "[]"] intro!: insert_head_dll)
  then show ?thesis by (simp add: binit_ptrs_def)
qed

text \<open>
  C16. The linked list of the buffer cache: the pointer assignments of \<open>binit\<close> and \<open>brelse\<close> keep a
  doubly linked list through \<open>bcache.head\<close> that is, in both directions, the list \<open>lru\<close> of the
  model: \<open>binit\<close> builds it with the last buffer first, and \<open>brelse\<close> moves the released buffer to
  the front and keeps the order of the others.
\<close>

theorem bcache_list_refines:
  assumes "set (lru s) = {..<NBUF}"
  shows "(\<forall>t. binit s = Ret () t \<longrightarrow> dll (binit_ptrs p) (lru t)) \<and>
    (\<forall>i t. i < NBUF \<and> dll p (lru s) \<and> brelse i s = Ret () t \<longrightarrow> dll (brelse_ptrs i p) (lru t))"
proof (intro conjI allI impI)
  fix t assume "binit s = Ret () t"
  then have "lru t = rev [0..<NBUF]" by (auto simp: binit_def)
  then show "dll (binit_ptrs p) (lru t)" by (simp add: binit_ptrs_dll)
next
  fix i t assume a: "i < NBUF \<and> dll p (lru s) \<and> brelse i s = Ret () t"
  then have "lru t = i # remove1 i (lru s)"
    by (auto simp: bio_ops kern_defs kwakeup_def split: if_splits)
  with a assms show "dll (brelse_ptrs i p) (lru t)"
    by (simp add: brelse_ptrs_dll)
qed

definition zero_buf :: buf where
  "zero_buf = \<lparr>b_busy = False, b_valid = False, b_dirty = False, b_dev = 0, b_blockno = 0, b_data = replicate BSIZE 0\<rparr>"

text \<open>The cache as the loader leaves it, over a disk of \<open>n\<close> blocks.\<close>

definition bio_boot :: "nat \<Rightarrow> (nat \<Rightarrow> byte list) \<Rightarrow> kmem_state \<Rightarrow> bio_state" where
  "bio_boot n d k = kmem_state.extend k
     \<lparr>disk = d, disksize = n, disk_log = [], bufs = replicate NBUF zero_buf, lru = []\<rparr>"

lemma bio_boot_sel [simp]:
  "disk (bio_boot n d k) = d" "disksize (bio_boot n d k) = n" "disk_log (bio_boot n d k) = []"
  "bufs (bio_boot n d k) = replicate NBUF zero_buf" "lru (bio_boot n d k) = []"
  by (simp_all add: bio_boot_def kmem_state.defs)

text \<open>The initialised cache, and a cache in which block 7 has been read into the last buffer.\<close>

definition bio_ready :: "nat \<Rightarrow> (nat \<Rightarrow> byte list) \<Rightarrow> kmem_state \<Rightarrow> bio_state" where
  "bio_ready n d k = (bio_boot n d k)\<lparr>lru := rev [0..<NBUF],
     bufs := replicate NBUF (zero_buf\<lparr>b_dev := NODEV_ID\<rparr>)\<rparr>"

lemma binit_ready: "binit (bio_boot n d k) = Ret () (bio_ready n d k)"
  by (simp add: binit_def bio_ready_def)

lemma bio_ready_sel [simp]:
  "disk (bio_ready n d k) = d" "disksize (bio_ready n d k) = n" "disk_log (bio_ready n d k) = []"
  "lru (bio_ready n d k) = rev [0..<NBUF]"
  "bufs (bio_ready n d k) = replicate NBUF (zero_buf\<lparr>b_dev := NODEV_ID\<rparr>)"
  by (simp_all add: bio_ready_def)

lemma bio_ready_live [simp]: "\<not> live_at (bio_ready n d k) i b"
  by (auto simp: live_at_def)

lemma bio_ready_inv: "\<forall>b<n. length (d b) = BSIZE \<Longrightarrow> bio_inv (bio_ready n d k)"
  by (auto simp: bio_inv_def buf_ok_def zero_buf_def)

lemma bio_ready_idle [simp]: "busy_at (bio_ready n d k) = (\<lambda>_. False)" "dirty_at (bio_ready n d k) = (\<lambda>_. False)"
  by (simp_all add: busy_at_def dirty_at_def fun_eq_iff)

lemma bio_ready_view: "\<forall>b<n. length (d b) = BSIZE \<Longrightarrow> view (bio_ready n d k) = d"
  by (rule ext) (simp add: view_disk bio_ready_inv)

theorem bcache_list_refines_witness:
  "let p = binit_ptrs \<lparr>nx = (\<lambda>_. 0), pv = (\<lambda>_. 0)\<rparr>;
       s = upd_buf 3 (\<lambda>u. u\<lparr>b_busy := True\<rparr>) (bio_ready 8 (\<lambda>_. replicate BSIZE 0) kmem_example)
   in dll p (lru s) \<and> (\<exists>t. brelse 3 s = Ret () t \<and> dll (brelse_ptrs 3 p) (lru t))"
proof -
  let ?p = "binit_ptrs \<lparr>nx = (\<lambda>_. 0), pv = (\<lambda>_. 0)\<rparr>"
  let ?s = "upd_buf 3 (\<lambda>u. u\<lparr>b_busy := True\<rparr>) (bio_ready 8 (\<lambda>_. replicate BSIZE 0) kmem_example)"
  have d: "dll ?p (lru ?s)" by (simp add: binit_ptrs_dll)
  have n: "3 < NBUF" by (simp add: NBUF_def MAXOPBLOCKS_def)
  have "\<exists>t. brelse 3 ?s = Ret () t"
    using n by (simp add: bio_ops kern_defs kwakeup_def)
  with d n show ?thesis
    using bcache_list_refines [of ?s ?p] by (auto simp: Let_def lessThan_atLeast0)
qed



end
