(* ===== verification/Log.thy ===== *)
theory Log
  imports Bio
begin

text \<open>
  The write-ahead log, \<open>log.c\<close>, with \<open>readsb\<close> of \<open>fs.c\<close>, which \<open>initlog\<close> calls. \<open>lh\<close> is the list of the
  first \<open>n\<close> entries of \<open>log.lh.block\<close>. The theorems give the exact sequence of disk writes of a
  commit and show that recovery after a crash between any two of them is atomic.
\<close>

record superblock =
  sb_size :: nat
  sb_nblocks :: nat
  sb_ninodes :: nat
  sb_nlog :: nat
  sb_logstart :: nat
  sb_inodestart :: nat
  sb_bmapstart :: nat

record log_state = bio_state +
  lg_start :: nat
  lg_size :: nat
  outstanding :: int
  committing :: bool
  lg_dev :: nat
  lh :: "nat list"

definition decode_sb :: "byte list \<Rightarrow> superblock" where
  "decode_sb d = \<lparr>sb_size = unat (load32 d 0), sb_nblocks = unat (load32 d 4), sb_ninodes = unat (load32 d 8),
     sb_nlog = unat (load32 d 12), sb_logstart = unat (load32 d 16), sb_inodestart = unat (load32 d 20),
     sb_bmapstart = unat (load32 d 24)\<rparr>"

definition readsb :: "nat \<Rightarrow> ('a bio_state_scheme, superblock) kern" where
  "readsb dev =
     kbind (bread dev 1) (\<lambda>bp.
     kbind (bdata bp) (\<lambda>d.
     kbind (brelse bp) (\<lambda>_.
     kret (decode_sb d))))"

text \<open>The loop of \<open>install_trans\<close>, from index \<open>tail\<close> on; \<open>bs\<close> are the remaining entries of the header.\<close>

fun install_from :: "nat \<Rightarrow> nat \<Rightarrow> nat \<Rightarrow> nat list \<Rightarrow> ('a bio_state_scheme, unit) kern" where
  "install_from dev start tail [] = kret ()"
| "install_from dev start tail (b # bs) =
     kbind (bread dev (start + tail + 1)) (\<lambda>lbuf.
     kbind (bread dev b) (\<lambda>dbuf.
     kbind (bdata lbuf) (\<lambda>d.
     kbind (bset dbuf (\<lambda>_. d)) (\<lambda>_.
     kbind (bwrite dbuf) (\<lambda>_.
     kbind (brelse lbuf) (\<lambda>_.
     kbind (brelse dbuf) (\<lambda>_.
     install_from dev start (tail + 1) bs)))))))"

definition install_trans :: "('a log_state_scheme, unit) kern" where
  "install_trans = kbind (kget (\<lambda>s. (lg_dev s, lg_start s, lh s))) (\<lambda>(dev, start, bs). install_from dev start 0 bs)"

text \<open>The header block: \<open>n\<close>, an int, and \<open>n\<close> block numbers.\<close>

definition head_blocks :: "byte list \<Rightarrow> nat list" where
  "head_blocks d = map (\<lambda>i. unat (load32 d (4 + 4 * i))) [0..<nat (sint (load32 d 0))]"

definition put_head :: "nat list \<Rightarrow> byte list \<Rightarrow> byte list" where
  "put_head bs d = fold (\<lambda>i d. store32 (4 + 4 * i) (of_nat (bs ! i)) d) [0..<length bs]
     (store32 0 (of_nat (length bs)) d)"

definition read_head :: "('a log_state_scheme, unit) kern" where
  "read_head =
     kbind (kget (\<lambda>s. (lg_dev s, lg_start s))) (\<lambda>(dev, start).
     kbind (bread dev start) (\<lambda>buf.
     kbind (bdata buf) (\<lambda>d.
     kbind (kmod (\<lambda>s. s\<lparr>lh := head_blocks d\<rparr>)) (\<lambda>_.
     brelse buf))))"

definition write_head :: "('a log_state_scheme, unit) kern" where
  "write_head =
     kbind (kget (\<lambda>s. (lg_dev s, lg_start s, lh s))) (\<lambda>(dev, start, bs).
     kbind (bread dev start) (\<lambda>buf.
     kbind (bset buf (put_head bs)) (\<lambda>_.
     kbind (bwrite buf) (\<lambda>_.
     brelse buf))))"

definition recover_from_log :: "('a log_state_scheme, unit) kern" where
  "recover_from_log =
     kbind read_head (\<lambda>_.
     kbind install_trans (\<lambda>_.
     kbind (kmod (\<lambda>s. s\<lparr>lh := []\<rparr>)) (\<lambda>_.
     write_head)))"

definition initlog :: "nat \<Rightarrow> ('a log_state_scheme, unit) kern" where
  "initlog dev =
     (if 4 + 4 * LOGSIZE \<ge> BSIZE then kpanic ''initlog: too big logheader''
      else
        kbind (readsb dev) (\<lambda>sb.
        kbind (kmod (\<lambda>s. s\<lparr>lg_start := sb_logstart sb, lg_size := sb_nlog sb, lg_dev := dev\<rparr>)) (\<lambda>_.
        recover_from_log)))"

definition begin_op :: "('a log_state_scheme, unit) kern" where
  "begin_op =
     kbind (kget (\<lambda>s. (committing s, lh s, outstanding s))) (\<lambda>(c, bs, out).
     if c then ksleep ChanLog
     else if int (length bs) + (out + 1) * int MAXOPBLOCKS > int LOGSIZE then ksleep ChanLog
     else kmod (\<lambda>s. s\<lparr>outstanding := outstanding s + 1\<rparr>))"

text \<open>The loop of \<open>write_log\<close>.\<close>

fun write_log_from :: "nat \<Rightarrow> nat \<Rightarrow> nat \<Rightarrow> nat list \<Rightarrow> ('a bio_state_scheme, unit) kern" where
  "write_log_from dev start tail [] = kret ()"
| "write_log_from dev start tail (b # bs) =
     kbind (bread dev (start + tail + 1)) (\<lambda>to.
     kbind (bread dev b) (\<lambda>from.
     kbind (bdata from) (\<lambda>d.
     kbind (bset to (\<lambda>_. d)) (\<lambda>_.
     kbind (bwrite to) (\<lambda>_.
     kbind (brelse from) (\<lambda>_.
     kbind (brelse to) (\<lambda>_.
     write_log_from dev start (tail + 1) bs)))))))"

definition write_log :: "('a log_state_scheme, unit) kern" where
  "write_log = kbind (kget (\<lambda>s. (lg_dev s, lg_start s, lh s))) (\<lambda>(dev, start, bs). write_log_from dev start 0 bs)"

definition commit :: "('a log_state_scheme, unit) kern" where
  "commit = kbind (kget lh) (\<lambda>bs.
     if length bs > 0 then
       kbind write_log (\<lambda>_.
       kbind write_head (\<lambda>_.
       kbind install_trans (\<lambda>_.
       kbind (kmod (\<lambda>s. s\<lparr>lh := []\<rparr>)) (\<lambda>_.
       write_head))))
     else kret ())"

definition end_op :: "('a log_state_scheme, unit) kern" where
  "end_op =
     kbind (kmod (\<lambda>s. s\<lparr>outstanding := outstanding s - 1\<rparr>)) (\<lambda>_.
     kbind (kget (\<lambda>s. (committing s, outstanding s))) (\<lambda>(c, out).
     if c then kpanic ''log.committing''
     else if out = 0 then
       kbind (kmod (\<lambda>s. s\<lparr>committing := True\<rparr>)) (\<lambda>_.
       kbind commit (\<lambda>_.
       kbind (kmod (\<lambda>s. s\<lparr>committing := False\<rparr>)) (\<lambda>_.
       kwakeup ChanLog)))
     else kwakeup ChanLog))"

definition log_write :: "nat \<Rightarrow> ('a log_state_scheme, unit) kern" where
  "log_write i =
     kbind (kget (\<lambda>s. (lh s, lg_size s, outstanding s))) (\<lambda>(bs, size, out).
     if length bs \<ge> LOGSIZE \<or> int (length bs) \<ge> int size - 1 then kpanic ''too big a transaction''
     else if out < 1 then kpanic ''log_write outside of trans''
     else
       kbind (getbuf i) (\<lambda>b.
       kbind (kmod (\<lambda>s. s\<lparr>lh := (case find_idx (\<lambda>x. x = b_blockno b) (lh s) of
                            Some k \<Rightarrow> (lh s)[k := b_blockno b]
                          | None \<Rightarrow> lh s @ [b_blockno b])\<rparr>)) (\<lambda>_.
       modbuf i (\<lambda>b. b\<lparr>b_dirty := True\<rparr>))))"

subsection \<open>Copying a block to another and writing it out\<close>

lemma cview_of_eqD:
  assumes "cview_of t = c"
  shows "view t = v_data c" "disk t = v_disk c" "disk_log t = v_log c" "busy_at t = v_busy c" "dirty_at t = v_dirty c"
  using assms by auto

lemma cview_of_iff:
  "cview_of t = c \<longleftrightarrow> view t = v_data c \<and> disk t = v_disk c \<and> disk_log t = v_log c \<and>
     busy_at t = v_busy c \<and> dirty_at t = v_dirty c"
  by (cases c) (auto simp: cview_of_def)

lemma copy_held:
  fixes s :: "'a bio_state_scheme"
  assumes inv: "bio_inv s" and h: "held s i a" "held s j b" and ne: "a \<noteq> b" "i \<noteq> j"
    and d: "dirty_at s b \<or> view s b = disk s b"
  obtains t where
    "\<And>f :: unit \<Rightarrow> ('a bio_state_scheme, unit) kern. kbind (bdata j) (\<lambda>d. kbind (bset i (\<lambda>_. d)) (\<lambda>_. kbind (bwrite i) (\<lambda>_.
       kbind (brelse j) (\<lambda>_. kbind (brelse i) f)))) s = f () t"
    "bio_inv t" "bio_only s t"
    "cview_of t = (cview_of s)\<lparr>v_data := (view s)(a := view s b), v_disk := (disk s)(a := view s b),
       v_log := disk_log s @ [(a, view s b)], v_busy := (busy_at s)(b := False, a := False),
       v_dirty := (dirty_at s)(a := False)\<rparr>"
proof -
  have bd: "b_data (bufs s ! j) = view s b"
    by (rule held_data [OF inv h(2)])
  have "b < disksize s" using h(2) live_at_ok(6) [OF inv] by (auto simp: held_def)
  then have len: "length (view s b) = BSIZE" by (rule length_view [OF inv])
  obtain s1 where s1: "bset i (\<lambda>_. view s b) s = Ret () s1" "bio_inv s1" "held s1 = held s" "bio_only s s1"
    "cview_of s1 = (cview_of s)\<lparr>v_data := (view s)(a := view s b)\<rparr>"
    using bset_ok [OF inv h(1), of "\<lambda>_. view s b"] len by metis
  note c1 = cview_of_eqD [OF s1(5), simplified]
  obtain s2 where s2: "bwrite i s1 = Ret () s2" "bio_inv s2" "held s2 = held s1" "bio_only s1 s2"
    "cview_of s2 = (cview_of s1)\<lparr>v_disk := (disk s1)(a := view s1 a), v_log := disk_log s1 @ [(a, view s1 a)],
       v_dirty := (dirty_at s1)(a := False)\<rparr>"
    using bwrite_ok [OF s1(2), of i a] h(1) s1(3) by metis
  note c2 = cview_of_eqD [OF s2(5), simplified, unfolded c1]
  have "held s2 j b" using h(2) s1(3) s2(3) by simp
  then obtain s3 where s3: "brelse j s2 = Ret () s3" "bio_inv s3" "keeps_held s2 s3 j" "bio_only s2 s3"
    "cview_of s3 = (cview_of s2)\<lparr>v_busy := (busy_at s2)(b := False)\<rparr>"
    using brelse_ok [OF s2(2), of j b] d ne by (auto simp: c2)
  note c3 = cview_of_eqD [OF s3(5), simplified, unfolded c2]
  have "held s3 i a" using h(1) s1(3) s2(3) s3(3) ne by (auto simp: keeps_held_def)
  then obtain t where t: "brelse i s3 = Ret () t" "bio_inv t" "bio_only s3 t"
    "cview_of t = (cview_of s3)\<lparr>v_busy := (busy_at s3)(a := False)\<rparr>"
    using brelse_ok [OF s3(2), of i a] ne by (auto simp: c3)
  show ?thesis
  proof (rule that [of t])
    show "bio_inv t" by (rule t)
    show "bio_only s t" using s1(4) s2(4) s3(4) t(3) by (blast intro: bio_only_trans)
    show "cview_of t = (cview_of s)\<lparr>v_data := (view s)(a := view s b), v_disk := (disk s)(a := view s b),
       v_log := disk_log s @ [(a, view s b)], v_busy := (busy_at s)(b := False, a := False),
       v_dirty := (dirty_at s)(a := False)\<rparr>"
      using t(4) c3 by (simp add: cview_of_def)
  qed (simp add: kbind_def bdata_def bd s1 s2 s3 t)
qed

text \<open>Two different blocks that nobody holds can be read one after the other.\<close>

lemma bread_two:
  fixes s :: "'a bio_state_scheme"
  assumes inv: "bio_inv s" and ne: "a \<noteq> b" and a: "a < disksize s" "\<not> busy_at s a"
    and b: "b < disksize s" "\<not> busy_at s b"
    and room: "finite (used_blocks s)" "card (used_blocks s) < NBUF"
      "dirty_at s b \<or> card (used_blocks s) + 1 < NBUF"
  obtains i j t where "\<And>f :: nat \<Rightarrow> nat \<Rightarrow> ('a bio_state_scheme, unit) kern. kbind (bread ROOTDEV a) (\<lambda>i. kbind (bread ROOTDEV b) (f i)) s = f i j t"
    "bio_inv t" "bio_only s t" "held t i a" "held t j b" "i \<noteq> j"
    "cview_of t = (cview_of s)\<lparr>v_busy := (busy_at s)(a := True, b := True)\<rparr>"
proof -
  obtain i s1 where s1: "bread ROOTDEV a s = Ret i s1" "bio_inv s1" "held s1 i a" "bio_only s s1"
    "cview_of s1 = (cview_of s)\<lparr>v_busy := (busy_at s)(a := True)\<rparr>"
    using bread_ok [OF inv a] room by metis
  note c1 = cview_of_eqD [OF s1(5), simplified]
  have u: "used_blocks s1 = insert a (used_blocks s)" by (auto simp: used_blocks_def c1)
  have "dirty_at s1 b \<or> finite (used_blocks s1) \<and> card (used_blocks s1) < NBUF"
    using room card_insert_le_m1 [of NBUF "used_blocks s" a] by (auto simp: u c1 card_insert_if)
  moreover have "b < disksize s1" using b bio_only_sel(1) [OF s1(4)] by simp
  ultimately obtain j t where t: "bread ROOTDEV b s1 = Ret j t" "bio_inv t" "held t j b" "bio_only s1 t"
    "cview_of t = (cview_of s1)\<lparr>v_busy := (busy_at s1)(b := True)\<rparr>" "keeps_held s1 t j" "\<And>c. \<not> held s1 j c"
    using bread_ok [OF s1(2), of b] b ne c1(4) by (metis fun_upd_other)
  have "i \<noteq> j" using s1(3) t(7) by blast
  moreover have "held t i a" using s1(3) t(6) \<open>i \<noteq> j\<close> by (auto simp: keeps_held_def)
  moreover have "bio_only s t" using s1(4) t(4) by (rule bio_only_trans)
  moreover have "cview_of t = (cview_of s)\<lparr>v_busy := (busy_at s)(a := True, b := True)\<rparr>"
    using t(5) by (simp add: s1(5) c1)
  ultimately show ?thesis
    using t(2,3) by (intro that) (auto simp: kbind_def s1(1) t(1))
qed

subsection \<open>The disk writes of the loops\<close>

definition apply_writes :: "(nat \<times> byte list) list \<Rightarrow> (nat \<Rightarrow> byte list) \<Rightarrow> nat \<Rightarrow> byte list" where
  "apply_writes ws d = fold (\<lambda>(b, x) d. d(b := x)) ws d"

lemma apply_writes_simps [simp]:
  "apply_writes [] d = d" "apply_writes ((b, x) # ws) d = apply_writes ws (d(b := x))"
  "apply_writes (ws @ vs) d = apply_writes vs (apply_writes ws d)"
  by (simp_all add: apply_writes_def)

lemma apply_writes_other: "c \<notin> fst ` set ws \<Longrightarrow> apply_writes ws d c = d c"
  by (induction ws arbitrary: d) auto

text \<open>\<open>write_log\<close> copies each block of the list to the next log block; \<open>install_trans\<close> copies back.\<close>

fun log_writes :: "nat \<Rightarrow> nat list \<Rightarrow> (nat \<Rightarrow> byte list) \<Rightarrow> (nat \<times> byte list) list" where
  "log_writes a [] d = []"
| "log_writes a (b # bs) d = (a, d b) # log_writes (a + 1) bs d"

fun home_writes :: "nat \<Rightarrow> nat list \<Rightarrow> (nat \<Rightarrow> byte list) \<Rightarrow> (nat \<times> byte list) list" where
  "home_writes a [] d = []"
| "home_writes a (b # bs) d = (b, d a) # home_writes (a + 1) bs d"

lemma log_writes_cong: "(\<And>b. b \<in> set bs \<Longrightarrow> d b = e b) \<Longrightarrow> log_writes a bs d = log_writes a bs e"
  by (induction bs arbitrary: a) auto

lemma home_writes_cong:
  "(\<And>c. a \<le> c \<Longrightarrow> c < a + length bs \<Longrightarrow> d c = e c) \<Longrightarrow> home_writes a bs d = home_writes a bs e"
proof (induction bs arbitrary: a)
  case (Cons b bs)
  have "d a = e a" using Cons.prems by simp
  moreover have "home_writes (a + 1) bs d = home_writes (a + 1) bs e"
    using Cons.prems by (intro Cons.IH) simp
  ultimately show ?case by simp
qed simp

lemma log_writes_dom: "fst ` set (log_writes a bs d) = {a..<a + length bs}"
proof (induction bs arbitrary: a)
  case (Cons b bs)
  then show ?case by (simp del: atLeastLessThan_iff) auto
qed simp

lemma home_writes_dom: "fst ` set (home_writes a bs d) = set bs"
  by (induction bs arbitrary: a) auto

lemma length_writes [simp]: "length (log_writes a bs d) = length bs" "length (home_writes a bs d) = length bs"
  by (induction bs arbitrary: a) auto

lemma apply_log_writes:
  "k < length bs \<Longrightarrow> apply_writes (log_writes a bs d) e (a + k) = d (bs ! k)"
proof (induction bs arbitrary: a e k)
  case (Cons b bs)
  show ?case
  proof (cases k)
    case 0
    have "a \<notin> fst ` set (log_writes (a + 1) bs d)" by (simp add: log_writes_dom)
    then show ?thesis using 0 by (simp add: apply_writes_other)
  next
    case (Suc j)
    then show ?thesis using Cons.IH [of j "a + 1" "e(a := d b)"] Cons.prems by (simp del: fun_upd_apply)
  qed
qed simp

lemma apply_home_writes:
  "k < length bs \<Longrightarrow> distinct bs \<Longrightarrow> apply_writes (home_writes a bs d) e (bs ! k) = d (a + k)"
proof (induction bs arbitrary: a e k)
  case (Cons b bs)
  show ?case
  proof (cases k)
    case 0
    have "b \<notin> fst ` set (home_writes (a + 1) bs d)" using Cons.prems by (simp add: home_writes_dom)
    then show ?thesis using 0 by (simp add: apply_writes_other)
  next
    case (Suc j)
    then show ?thesis using Cons.IH [of j "a + 1" "e(b := d a)"] Cons.prems by (simp del: fun_upd_apply)
  qed
qed simp

text \<open>Nobody holds a buffer.\<close>

definition idle :: "'a bio_state_scheme \<Rightarrow> bool" where
  "idle s \<longleftrightarrow> busy_at s = (\<lambda>_. False)"

lemma used_blocks_idle: "idle s \<Longrightarrow> used_blocks s = {b. dirty_at s b}"
  by (simp add: idle_def used_blocks_def)

lemma idle_not_dirty: "bio_inv s \<Longrightarrow> idle s \<Longrightarrow> dirty_at s b \<or> view s b = disk s b"
  using view_clean [of s b] by (auto simp: idle_def)

lemma upd_false [simp]: "(\<lambda>_. False)(a := True, b := True, b := False, a := False) = (\<lambda>_. False)"
  "(\<lambda>_. False)(b := True, a := True, b := False, a := False) = (\<lambda>_. False)"
  by (auto simp: fun_eq_iff)

lemma write_log_step:
  fixes s :: "'a bio_state_scheme"
  assumes inv: "bio_inv s" and idle: "idle s" and ab: "a \<noteq> b" "a < disksize s" "b < disksize s"
    and room: "finite {b. dirty_at s b}" "card {b. dirty_at s b} < NBUF" "dirty_at s b"
  obtains t where
    "\<And>f :: unit \<Rightarrow> ('a bio_state_scheme, unit) kern.
       kbind (bread ROOTDEV a) (\<lambda>i. kbind (bread ROOTDEV b) (\<lambda>j.
       kbind (bdata j) (\<lambda>d. kbind (bset i (\<lambda>_. d)) (\<lambda>_. kbind (bwrite i) (\<lambda>_.
         kbind (brelse j) (\<lambda>_. kbind (brelse i) f)))))) s = f () t"
    "bio_inv t" "bio_only s t"
    "cview_of t = (cview_of s)\<lparr>v_data := (view s)(a := view s b), v_disk := (disk s)(a := view s b),
       v_log := disk_log s @ [(a, view s b)], v_dirty := (dirty_at s)(a := False)\<rparr>"
proof -
  have nb: "busy_at s = (\<lambda>_. False)" using idle by (simp add: idle_def)
  have pre: "\<not> busy_at s a" "\<not> busy_at s b" "finite (used_blocks s)" "card (used_blocks s) < NBUF"
    "dirty_at s b \<or> card (used_blocks s) + 1 < NBUF"
    using room by (simp_all add: nb used_blocks_idle [OF idle])
  obtain i j r where r: "\<And>f :: nat \<Rightarrow> nat \<Rightarrow> ('a bio_state_scheme, unit) kern. kbind (bread ROOTDEV a) (\<lambda>i. kbind (bread ROOTDEV b) (f i)) s = f i j r"
    "bio_inv r" "bio_only s r" "held r i a" "held r j b" "i \<noteq> j"
    "cview_of r = (cview_of s)\<lparr>v_busy := (busy_at s)(a := True, b := True)\<rparr>"
    by (rule bread_two [OF inv ab(1,2) pre(1) ab(3) pre(2-)]) (rule that)
  note c = cview_of_eqD [OF r(7), simplified]
  have "dirty_at r b \<or> view r b = disk r b"
    using idle_not_dirty [OF inv idle, of b] by (simp add: c)
  then obtain t where t: "\<And>f :: unit \<Rightarrow> ('a bio_state_scheme, unit) kern. kbind (bdata j) (\<lambda>d. kbind (bset i (\<lambda>_. d)) (\<lambda>_. kbind (bwrite i) (\<lambda>_.
       kbind (brelse j) (\<lambda>_. kbind (brelse i) f)))) r = f () t" "bio_inv t" "bio_only r t"
    "cview_of t = (cview_of r)\<lparr>v_data := (view r)(a := view r b), v_disk := (disk r)(a := view r b),
       v_log := disk_log r @ [(a, view r b)], v_busy := (busy_at r)(b := False, a := False),
       v_dirty := (dirty_at r)(a := False)\<rparr>"
    by (rule copy_held [OF r(2,4,5) ab(1) r(6)]) (rule that)
  show ?thesis
  proof (rule that [of t])
    show "bio_inv t" "bio_only s t" using t r(3) by (blast intro: bio_only_trans)+
    show "cview_of t = (cview_of s)\<lparr>v_data := (view s)(a := view s b), v_disk := (disk s)(a := view s b),
       v_log := disk_log s @ [(a, view s b)], v_dirty := (dirty_at s)(a := False)\<rparr>"
      unfolding t(4) c nb upd_false by (simp add: cview_of_def nb c)
  qed (subst r(1), rule t(1))
qed

lemma install_step:
  fixes s :: "'a bio_state_scheme"
  assumes inv: "bio_inv s" and idle: "idle s" and ab: "a \<noteq> b" "a < disksize s" "b < disksize s"
    and room: "finite {b. dirty_at s b}" "card {b. dirty_at s b} < NBUF"
      "dirty_at s b \<or> card {b. dirty_at s b} + 1 < NBUF"
  obtains t where
    "\<And>f :: unit \<Rightarrow> ('a bio_state_scheme, unit) kern.
       kbind (bread ROOTDEV a) (\<lambda>i. kbind (bread ROOTDEV b) (\<lambda>j.
       kbind (bdata i) (\<lambda>d. kbind (bset j (\<lambda>_. d)) (\<lambda>_. kbind (bwrite j) (\<lambda>_.
         kbind (brelse i) (\<lambda>_. kbind (brelse j) f)))))) s = f () t"
    "bio_inv t" "bio_only s t"
    "cview_of t = (cview_of s)\<lparr>v_data := (view s)(b := view s a), v_disk := (disk s)(b := view s a),
       v_log := disk_log s @ [(b, view s a)], v_dirty := (dirty_at s)(b := False)\<rparr>"
proof -
  have nb: "busy_at s = (\<lambda>_. False)" using idle by (simp add: idle_def)
  have pre: "\<not> busy_at s a" "\<not> busy_at s b" "finite (used_blocks s)" "card (used_blocks s) < NBUF"
    "dirty_at s b \<or> card (used_blocks s) + 1 < NBUF"
    using room by (simp_all add: nb used_blocks_idle [OF idle])
  obtain i j r where r: "\<And>f :: nat \<Rightarrow> nat \<Rightarrow> ('a bio_state_scheme, unit) kern. kbind (bread ROOTDEV a) (\<lambda>i. kbind (bread ROOTDEV b) (f i)) s = f i j r"
    "bio_inv r" "bio_only s r" "held r i a" "held r j b" "i \<noteq> j"
    "cview_of r = (cview_of s)\<lparr>v_busy := (busy_at s)(a := True, b := True)\<rparr>"
    by (rule bread_two [OF inv ab(1,2) pre(1) ab(3) pre(2-)]) (rule that)
  note c = cview_of_eqD [OF r(7), simplified]
  have "dirty_at r a \<or> view r a = disk r a"
    using idle_not_dirty [OF inv idle, of a] by (simp add: c)
  then obtain t where t: "\<And>f :: unit \<Rightarrow> ('a bio_state_scheme, unit) kern. kbind (bdata i) (\<lambda>d. kbind (bset j (\<lambda>_. d)) (\<lambda>_. kbind (bwrite j) (\<lambda>_.
       kbind (brelse i) (\<lambda>_. kbind (brelse j) f)))) r = f () t" "bio_inv t" "bio_only r t"
    "cview_of t = (cview_of r)\<lparr>v_data := (view r)(b := view r a), v_disk := (disk r)(b := view r a),
       v_log := disk_log r @ [(b, view r a)], v_busy := (busy_at r)(a := False, b := False),
       v_dirty := (dirty_at r)(b := False)\<rparr>"
    by (rule copy_held [OF r(2,5,4) ab(1) [symmetric] r(6) [symmetric]]) (rule that)
  show ?thesis
  proof (rule that [of t])
    show "bio_inv t" "bio_only s t" using t r(3) by (blast intro: bio_only_trans)+
    show "cview_of t = (cview_of s)\<lparr>v_data := (view s)(b := view s a), v_disk := (disk s)(b := view s a),
       v_log := disk_log s @ [(b, view s a)], v_dirty := (dirty_at s)(b := False)\<rparr>"
      unfolding t(4) c nb upd_false by (simp add: cview_of_def nb c)
  qed (subst r(1), rule t(1))
qed

lemma write_log_from_ok:
  fixes s :: "'a bio_state_scheme"
  assumes "bio_inv s" "idle s" "set bs \<inter> {start + tail + 1..<start + tail + 1 + length bs} = {}"
    "\<forall>b\<in>set bs. b < disksize s \<and> dirty_at s b" "start + tail + length bs < disksize s"
    "\<forall>a. start + tail < a \<and> a \<le> start + tail + length bs \<longrightarrow> \<not> dirty_at s a"
    "finite {b. dirty_at s b}" "card {b. dirty_at s b} < NBUF"
  shows "\<exists>t. write_log_from ROOTDEV start tail bs s = Ret () t \<and> bio_inv t \<and> bio_only s t \<and>
    cview_of t = (let ws = log_writes (start + tail + 1) bs (view s) in
      (cview_of s)\<lparr>v_data := apply_writes ws (view s), v_disk := apply_writes ws (disk s), v_log := disk_log s @ ws\<rparr>)"
  using assms
proof (induction bs arbitrary: tail s)
  case Nil
  then show ?case by (simp add: kret_def cview_of_def)
next
  case (Cons b bs)
  let ?a = "start + tail + 1"
  note p = Cons.prems
  have ab: "?a \<noteq> b" "?a < disksize s" "b < disksize s" "dirty_at s b" and nd: "\<not> dirty_at s ?a"
    using p(3-6) by auto
  obtain r where r:
    "\<And>f :: unit \<Rightarrow> ('a bio_state_scheme, unit) kern.
       kbind (bread ROOTDEV ?a) (\<lambda>i. kbind (bread ROOTDEV b) (\<lambda>j.
       kbind (bdata j) (\<lambda>d. kbind (bset i (\<lambda>_. d)) (\<lambda>_. kbind (bwrite i) (\<lambda>_.
         kbind (brelse j) (\<lambda>_. kbind (brelse i) f)))))) s = f () r"
    "bio_inv r" "bio_only s r"
    "cview_of r = (cview_of s)\<lparr>v_data := (view s)(?a := view s b), v_disk := (disk s)(?a := view s b),
       v_log := disk_log s @ [(?a, view s b)], v_dirty := (dirty_at s)(?a := False)\<rparr>"
    by (rule write_log_step [OF p(1,2) ab(1-3) p(7,8) ab(4)]) (rule that)
  note c = cview_of_eqD [OF r(4), simplified]
  have dr: "dirty_at r = dirty_at s" using nd by (auto simp: c fun_eq_iff)
  have "\<exists>t. write_log_from ROOTDEV start (tail + 1) bs r = Ret () t \<and> bio_inv t \<and> bio_only r t \<and>
    cview_of t = (let ws = log_writes (start + (tail + 1) + 1) bs (view r) in
      (cview_of r)\<lparr>v_data := apply_writes ws (view r), v_disk := apply_writes ws (disk r), v_log := disk_log r @ ws\<rparr>)"
    using p by (intro Cons.IH) (auto simp: r(2) idle_def c(4) dr bio_only_sel(1) [OF r(3)])
  then obtain t where t: "write_log_from ROOTDEV start (tail + 1) bs r = Ret () t" "bio_inv t" "bio_only r t"
    "cview_of t = (let ws = log_writes (start + (tail + 1) + 1) bs (view r) in
      (cview_of r)\<lparr>v_data := apply_writes ws (view r), v_disk := apply_writes ws (disk r), v_log := disk_log r @ ws\<rparr>)"
    by blast
  have lw: "log_writes (?a + 1) bs ((view s)(?a := view s b)) = log_writes (?a + 1) bs (view s)"
    using p(3) by (intro log_writes_cong) auto
  have "cview_of t = (let ws = log_writes ?a (b # bs) (view s) in
      (cview_of s)\<lparr>v_data := apply_writes ws (view s), v_disk := apply_writes ws (disk s), v_log := disk_log s @ ws\<rparr>)"
    using t(4) lw by (simp add: Let_def c(1-4) dr cview_of_def)
  moreover have "write_log_from ROOTDEV start tail (b # bs) s = Ret () t"
    unfolding write_log_from.simps r(1) by (rule t(1))
  ultimately show ?case
    using t(2) bio_only_trans [OF r(3) t(3)] by blast
qed

lemma install_from_ok:
  fixes s :: "'a bio_state_scheme"
  assumes "bio_inv s" "idle s" "set bs \<inter> {start + tail + 1..<start + tail + 1 + length bs} = {}"
    "\<forall>b\<in>set bs. b < disksize s" "start + tail + length bs < disksize s"
    "finite {b. dirty_at s b}"
    "distinct bs \<and> (\<forall>b\<in>set bs. dirty_at s b) \<and> card {b. dirty_at s b} < NBUF \<or> card {b. dirty_at s b} + 1 < NBUF"
  shows "\<exists>t. install_from ROOTDEV start tail bs s = Ret () t \<and> bio_inv t \<and> bio_only s t \<and>
    cview_of t = (let ws = home_writes (start + tail + 1) bs (view s) in
      (cview_of s)\<lparr>v_data := apply_writes ws (view s), v_disk := apply_writes ws (disk s), v_log := disk_log s @ ws,
        v_dirty := (\<lambda>b. dirty_at s b \<and> b \<notin> set bs)\<rparr>)"
  using assms
proof (induction bs arbitrary: tail s)
  case Nil
  then show ?case by (simp add: kret_def cview_of_def)
next
  case (Cons b bs)
  let ?a = "start + tail + 1"
  note p = Cons.prems
  have ab: "?a \<noteq> b" "?a < disksize s" "b < disksize s" and room: "card {b. dirty_at s b} < NBUF"
      "dirty_at s b \<or> card {b. dirty_at s b} + 1 < NBUF"
    using p(3-7) by auto
  obtain r where r:
    "\<And>f :: unit \<Rightarrow> ('a bio_state_scheme, unit) kern.
       kbind (bread ROOTDEV ?a) (\<lambda>i. kbind (bread ROOTDEV b) (\<lambda>j.
       kbind (bdata i) (\<lambda>d. kbind (bset j (\<lambda>_. d)) (\<lambda>_. kbind (bwrite j) (\<lambda>_.
         kbind (brelse i) (\<lambda>_. kbind (brelse j) f)))))) s = f () r"
    "bio_inv r" "bio_only s r"
    "cview_of r = (cview_of s)\<lparr>v_data := (view s)(b := view s ?a), v_disk := (disk s)(b := view s ?a),
       v_log := disk_log s @ [(b, view s ?a)], v_dirty := (dirty_at s)(b := False)\<rparr>"
    by (rule install_step [OF p(1,2) ab p(6) room]) (rule that)
  note c = cview_of_eqD [OF r(4), simplified]
  have dr: "{c. dirty_at r c} = {c. dirty_at s c} - {b}" by (auto simp: c)
  have cr: "card {c. dirty_at r c} \<le> card {c. dirty_at s c}"
    unfolding dr by (rule card_mono [OF p(6)]) auto
  have "\<forall>c\<in>set bs. dirty_at r c" if "distinct (b # bs)" "\<forall>c\<in>set (b # bs). dirty_at s c"
    using that by (auto simp: c(5))
  with p(7) cr have room': "distinct bs \<and> (\<forall>b\<in>set bs. dirty_at r b) \<and> card {b. dirty_at r b} < NBUF \<or>
      card {b. dirty_at r b} + 1 < NBUF"
    by fastforce
  have "\<exists>t. install_from ROOTDEV start (tail + 1) bs r = Ret () t \<and> bio_inv t \<and> bio_only r t \<and>
    cview_of t = (let ws = home_writes (start + (tail + 1) + 1) bs (view r) in
      (cview_of r)\<lparr>v_data := apply_writes ws (view r), v_disk := apply_writes ws (disk r), v_log := disk_log r @ ws,
        v_dirty := (\<lambda>b. dirty_at r b \<and> b \<notin> set bs)\<rparr>)"
    using p by (intro Cons.IH room') (auto simp: r(2) idle_def c(4) dr bio_only_sel(1) [OF r(3)])
  then obtain t where t: "install_from ROOTDEV start (tail + 1) bs r = Ret () t" "bio_inv t" "bio_only r t"
    "cview_of t = (let ws = home_writes (start + (tail + 1) + 1) bs (view r) in
      (cview_of r)\<lparr>v_data := apply_writes ws (view r), v_disk := apply_writes ws (disk r), v_log := disk_log r @ ws,
        v_dirty := (\<lambda>b. dirty_at r b \<and> b \<notin> set bs)\<rparr>)"
    by blast
  have lw: "home_writes (?a + 1) bs ((view s)(b := view s ?a)) = home_writes (?a + 1) bs (view s)"
    using p(3) by (intro home_writes_cong) auto
  have "cview_of t = (let ws = home_writes ?a (b # bs) (view s) in
      (cview_of s)\<lparr>v_data := apply_writes ws (view s), v_disk := apply_writes ws (disk s), v_log := disk_log s @ ws,
        v_dirty := (\<lambda>c. dirty_at s c \<and> c \<notin> set (b # bs))\<rparr>)"
    using t(4) lw by (simp add: Let_def c cview_of_def) (auto simp: fun_eq_iff)
  moreover have "install_from ROOTDEV start tail (b # bs) s = Ret () t"
    unfolding install_from.simps r(1) by (rule t(1))
  ultimately show ?case
    using t(2) bio_only_trans [OF r(3) t(3)] by blast
qed

subsection \<open>The header block\<close>

lemma put_head_prefix:
  assumes "k \<le> length bs" "4 + 4 * length bs \<le> length d"
  shows "length (fold (\<lambda>i d. store32 (4 + 4 * i) (of_nat (bs ! i)) d) [0..<k] d) = length d \<and>
    load32 (fold (\<lambda>i d. store32 (4 + 4 * i) (of_nat (bs ! i)) d) [0..<k] d) 0 = load32 d 0 \<and>
    (\<forall>i<k. load32 (fold (\<lambda>i d. store32 (4 + 4 * i) (of_nat (bs ! i)) d) [0..<k] d) (4 + 4 * i) = of_nat (bs ! i))"
  using assms
proof (induction k)
  case (Suc k)
  let ?f = "fold (\<lambda>i d. store32 (4 + 4 * i) (of_nat (bs ! i)) d) [0..<k] d"
  from Suc have ih: "length ?f = length d" "load32 ?f 0 = load32 d 0" "\<And>i. i < k \<Longrightarrow> load32 ?f (4 + 4 * i) = of_nat (bs ! i)"
    by simp_all
  have k: "4 + 4 * k + 4 \<le> length d" using Suc.prems by simp
  then show ?case
    using ih by (auto simp: load32_store32_other less_Suc_eq)
qed simp

lemma length_put_head [simp]: "4 + 4 * length bs \<le> length d \<Longrightarrow> length (put_head bs d) = length d"
  using put_head_prefix [of "length bs" bs "store32 0 (of_nat (length bs)) d"] by (simp add: put_head_def)

lemma sint_of_nat_small: "n < 2 ^ 31 \<Longrightarrow> sint (of_nat n :: 32 word) = int n"
  by (simp add: signed_of_nat signed_take_bit_int_eq_self)

lemma head_blocks_put_head:
  assumes "4 + 4 * length bs \<le> length d" "length bs < 2 ^ 31" "\<forall>b\<in>set bs. b < 2 ^ 32"
  shows "head_blocks (put_head bs d) = bs"
proof -
  let ?d = "store32 0 (of_nat (length bs)) d :: byte list"
  have "4 + 4 * length bs \<le> length ?d" using assms(1) by simp
  note pre = put_head_prefix [OF le_refl this]
  have n: "load32 (put_head bs d) 0 = of_nat (length bs)"
    using pre assms(1) by (simp add: put_head_def)
  show ?thesis
  proof (rule nth_equalityI)
    show l: "length (head_blocks (put_head bs d)) = length bs"
      using assms(2) by (simp add: head_blocks_def n sint_of_nat_small)
    fix i assume "i < length (head_blocks (put_head bs d))"
    then have i: "i < length bs" using l by simp
    then have "bs ! i < 2 ^ 32" using assms(3) by simp
    then show "head_blocks (put_head bs d) ! i = bs ! i"
      using pre i assms(2)
      by (simp add: head_blocks_def n sint_of_nat_small) (simp add: put_head_def unat_of_nat)
  qed
qed

subsection \<open>The log's own fields do not concern the cache\<close>

lemma log_fields [simp]:
  "live_at (s\<lparr>lh := x\<rparr>) = live_at s" "buf_ok (s\<lparr>lh := x\<rparr>) = buf_ok s"
  "live_at (s\<lparr>outstanding := y\<rparr>) = live_at s" "buf_ok (s\<lparr>outstanding := y\<rparr>) = buf_ok s"
  "live_at (s\<lparr>committing := c\<rparr>) = live_at s" "buf_ok (s\<lparr>committing := c\<rparr>) = buf_ok s"
  "live_at (s\<lparr>lg_start := st, lg_size := sz, lg_dev := dv\<rparr>) = live_at s"
  "buf_ok (s\<lparr>lg_start := st, lg_size := sz, lg_dev := dv\<rparr>) = buf_ok s"
  by (simp_all add: live_at_def buf_ok_def fun_eq_iff)

lemma log_fields_inv [simp]:
  "bio_inv (s\<lparr>lh := x\<rparr>) = bio_inv s" "bio_inv (s\<lparr>outstanding := y\<rparr>) = bio_inv s"
  "bio_inv (s\<lparr>committing := c\<rparr>) = bio_inv s"
  "bio_inv (s\<lparr>lg_start := st, lg_size := sz, lg_dev := dv\<rparr>) = bio_inv s"
  by (simp_all add: bio_inv_def)

lemma log_fields_cview [simp]:
  "cview_of (s\<lparr>lh := x\<rparr>) = cview_of s" "cview_of (s\<lparr>outstanding := y\<rparr>) = cview_of s"
  "cview_of (s\<lparr>committing := c\<rparr>) = cview_of s"
  "cview_of (s\<lparr>lg_start := st, lg_size := sz, lg_dev := dv\<rparr>) = cview_of s"
  by (simp_all add: cview_of_def busy_at_def dirty_at_def view_def fun_eq_iff cong: option.case_cong)

lemma cview_of_cong:
  assumes "cview_of s = cview_of t"
  shows "view s = view t" "disk s = disk t" "disk_log s = disk_log t" "busy_at s = busy_at t"
    "dirty_at s = dirty_at t" "idle s = idle t"
  using assms by (auto simp: cview_of_def idle_def)

lemmas log_fields_view [simp] =
  log_fields_cview(1) [THEN cview_of_cong(1)] log_fields_cview(1) [THEN cview_of_cong(5)]
  log_fields_cview(1) [THEN cview_of_cong(6)] log_fields_cview(1) [THEN cview_of_cong(4)]
  log_fields_cview(2) [THEN cview_of_cong(1)] log_fields_cview(2) [THEN cview_of_cong(5)]
  log_fields_cview(2) [THEN cview_of_cong(6)] log_fields_cview(2) [THEN cview_of_cong(4)]
  log_fields_cview(3) [THEN cview_of_cong(1)] log_fields_cview(3) [THEN cview_of_cong(5)]
  log_fields_cview(3) [THEN cview_of_cong(6)] log_fields_cview(3) [THEN cview_of_cong(4)]
  log_fields_cview(4) [THEN cview_of_cong(1)] log_fields_cview(4) [THEN cview_of_cong(5)]
  log_fields_cview(4) [THEN cview_of_cong(6)] log_fields_cview(4) [THEN cview_of_cong(4)]

lemma held_lh [simp]: "held (s\<lparr>lh := x\<rparr>) = held s"
  by (simp add: held_def fun_eq_iff)

lemma bio_only_log:
  assumes "bio_only s t"
  shows "lh t = lh s" "lg_start t = lg_start s" "lg_size t = lg_size s" "lg_dev t = lg_dev s"
    "outstanding t = outstanding s" "committing t = committing s"
  using arg_cong [OF assms [unfolded bio_only_def], of lh]
    arg_cong [OF assms [unfolded bio_only_def], of lg_start]
    arg_cong [OF assms [unfolded bio_only_def], of lg_size]
    arg_cong [OF assms [unfolded bio_only_def], of lg_dev]
    arg_cong [OF assms [unfolded bio_only_def], of outstanding]
    arg_cong [OF assms [unfolded bio_only_def], of committing] by simp_all

text \<open>A block read, changed and written straight to the disk, and a block only read.\<close>

lemma bread_bwrite_ok:
  fixes s :: "'a bio_state_scheme"
  assumes inv: "bio_inv s" and id: "idle s" and b: "b < disksize s" and len: "length (f (view s b)) = BSIZE"
    and room: "finite {b. dirty_at s b}" "card {b. dirty_at s b} < NBUF"
  shows "\<exists>t. kbind (bread ROOTDEV b) (\<lambda>i. kbind (bset i f) (\<lambda>_. kbind (bwrite i) (\<lambda>_. brelse i))) s = Ret () t \<and>
    bio_inv t \<and> bio_only s t \<and>
    cview_of t = (cview_of s)\<lparr>v_data := (view s)(b := f (view s b)), v_disk := (disk s)(b := f (view s b)),
      v_log := disk_log s @ [(b, f (view s b))], v_dirty := (dirty_at s)(b := False)\<rparr>"
proof -
  have nb: "busy_at s = (\<lambda>_. False)" using id by (simp add: idle_def)
  obtain i s1 where s1: "bread ROOTDEV b s = Ret i s1" "bio_inv s1" "held s1 i b" "bio_only s s1"
    "cview_of s1 = (cview_of s)\<lparr>v_busy := (busy_at s)(b := True)\<rparr>"
    using bread_ok [OF inv b] room by (metis nb used_blocks_idle [OF id])
  note c1 = cview_of_eqD [OF s1(5), simplified]
  obtain s2 where s2: "bset i f s1 = Ret () s2" "bio_inv s2" "held s2 = held s1" "bio_only s1 s2"
    "cview_of s2 = (cview_of s1)\<lparr>v_data := (view s1)(b := f (view s1 b))\<rparr>"
    using bset_ok [OF s1(2,3), of f] len c1(1) by metis
  note c2 = cview_of_eqD [OF s2(5), simplified, unfolded c1]
  obtain s3 where s3: "bwrite i s2 = Ret () s3" "bio_inv s3" "held s3 = held s2" "bio_only s2 s3"
    "cview_of s3 = (cview_of s2)\<lparr>v_disk := (disk s2)(b := view s2 b), v_log := disk_log s2 @ [(b, view s2 b)],
       v_dirty := (dirty_at s2)(b := False)\<rparr>"
    using bwrite_ok [OF s2(2), of i b] s1(3) s2(3) by metis
  note c3 = cview_of_eqD [OF s3(5), simplified, unfolded c2]
  obtain t where t: "brelse i s3 = Ret () t" "bio_inv t" "bio_only s3 t"
    "cview_of t = (cview_of s3)\<lparr>v_busy := (busy_at s3)(b := False)\<rparr>"
    using brelse_ok [OF s3(2), of i b] s1(3) s2(3) s3(3) by (auto simp: c3)
  have "bio_only s t" using s1(4) s2(4) s3(4) t(3) by (blast intro: bio_only_trans)
  moreover have "(\<lambda>_. False)(b := True, b := False) = (\<lambda>_. False)" by (auto simp: fun_eq_iff)
  then have "cview_of t = (cview_of s)\<lparr>v_data := (view s)(b := f (view s b)), v_disk := (disk s)(b := f (view s b)),
      v_log := disk_log s @ [(b, f (view s b))], v_dirty := (dirty_at s)(b := False)\<rparr>"
    using t(4) c3 nb by (simp add: cview_of_def)
  ultimately show ?thesis
    using t(1,2) by (auto simp: kbind_def s1(1) s2(1) s3(1))
qed

subsection \<open>The log invariant\<close>

definition log_area :: "'a log_state_scheme \<Rightarrow> nat set" where
  "log_area s = {lg_start s..<lg_start s + lg_size s}"

text \<open>
  The geometry \<open>initlog\<close> takes from the super block: the log is on the root disk, fits it and has
  at most \<open>LOGSIZE\<close> blocks, header included (\<open>mkfs\<close> gives it exactly \<open>LOGSIZE\<close>).
\<close>

definition log_geo :: "'a log_state_scheme \<Rightarrow> bool" where
  "log_geo s \<longleftrightarrow> bio_inv s \<and> lg_dev s = ROOTDEV \<and> 0 < lg_size s \<and> lg_size s \<le> LOGSIZE \<and>
     lg_start s + lg_size s \<le> disksize s \<and> disksize s \<le> 2 ^ 32"

text \<open>The invariant of a running system: the blocks of the header list are exactly the dirty ones.\<close>

definition log_inv :: "'a log_state_scheme \<Rightarrow> bool" where
  "log_inv s \<longleftrightarrow> log_geo s \<and> distinct (lh s) \<and> length (lh s) < lg_size s \<and>
     (\<forall>b\<in>set (lh s). b < disksize s \<and> b \<notin> log_area s) \<and> dirty_at s = (\<lambda>b. b \<in> set (lh s))"

lemma log_geoD:
  assumes "log_geo s"
  shows "bio_inv s" "lg_dev s = ROOTDEV" "0 < lg_size s" "lg_size s \<le> LOGSIZE"
    "lg_start s + lg_size s \<le> disksize s" "disksize s \<le> 2 ^ 32" "lg_start s < disksize s"
  using assms by (auto simp: log_geo_def)

lemma log_invD:
  assumes "log_inv s"
  shows "log_geo s" "distinct (lh s)" "length (lh s) < lg_size s"
    "b \<in> set (lh s) \<Longrightarrow> b < disksize s" "b \<in> set (lh s) \<Longrightarrow> b \<notin> log_area s" "dirty_at s b \<longleftrightarrow> b \<in> set (lh s)"
    "finite {b. dirty_at s b}" "card {b. dirty_at s b} = length (lh s)" "length (lh s) < LOGSIZE"
proof -
  show "log_geo s" "distinct (lh s)" "length (lh s) < lg_size s" "dirty_at s b \<longleftrightarrow> b \<in> set (lh s)"
    "b \<in> set (lh s) \<Longrightarrow> b < disksize s" "b \<in> set (lh s) \<Longrightarrow> b \<notin> log_area s"
    using assms by (auto simp: log_inv_def)
  have "{b. dirty_at s b} = set (lh s)" using assms by (simp add: log_inv_def)
  then show "finite {b. dirty_at s b}" "card {b. dirty_at s b} = length (lh s)"
    using assms by (simp_all add: log_inv_def distinct_card)
  show "length (lh s) < LOGSIZE"
    using assms by (simp add: log_inv_def log_geo_def)
qed

lemma head_room: "n \<le> LOGSIZE \<Longrightarrow> 4 + 4 * n \<le> BSIZE" and LOGSIZE_NBUF: "LOGSIZE = NBUF"
  and LOGSIZE_small: "LOGSIZE < 2 ^ 31"
  by (simp_all add: param_defs)

lemma write_head_ok:
  assumes geo: "log_geo s" and id: "idle s" and n: "length (lh s) \<le> LOGSIZE"
    and room: "finite {b. dirty_at s b}" "card {b. dirty_at s b} < NBUF"
  shows "\<exists>t. write_head s = Ret () t \<and> bio_inv t \<and> bio_only s t \<and>
    cview_of t = (let h = put_head (lh s) (view s (lg_start s)) in
      (cview_of s)\<lparr>v_data := (view s)(lg_start s := h), v_disk := (disk s)(lg_start s := h),
        v_log := disk_log s @ [(lg_start s, h)], v_dirty := (dirty_at s)(lg_start s := False)\<rparr>)"
proof -
  note g = log_geoD [OF geo]
  have "length (put_head (lh s) (view s (lg_start s))) = BSIZE"
    using head_room [OF n] length_view [OF g(1,7)] by simp
  from bread_bwrite_ok [where f = "put_head (lh s)", OF g(1) id g(7) this room] show ?thesis
    by (simp add: write_head_def kbind_def [of "kget _"] g(2) Let_def)
qed

lemma write_log_ok:
  assumes inv: "log_inv s" and id: "idle s"
  shows "\<exists>t. write_log s = Ret () t \<and> bio_inv t \<and> bio_only s t \<and>
    cview_of t = (let ws = log_writes (lg_start s + 1) (lh s) (view s) in
      (cview_of s)\<lparr>v_data := apply_writes ws (view s), v_disk := apply_writes ws (disk s), v_log := disk_log s @ ws\<rparr>)"
proof -
  note i = log_invD [OF inv] and g = log_geoD [OF log_invD(1) [OF inv]]
  have "set (lh s) \<inter> {lg_start s + 0 + 1..<lg_start s + 0 + 1 + length (lh s)} = {}"
    using i(3,5) by (fastforce simp: log_area_def)
  moreover have "\<not> dirty_at s a" if "lg_start s + 0 < a" "a \<le> lg_start s + 0 + length (lh s)" for a
  proof -
    have "a \<in> log_area s" using that i(3) by (simp add: log_area_def)
    then show ?thesis using i(5,6) by auto
  qed
  ultimately have "\<exists>t. write_log_from ROOTDEV (lg_start s) 0 (lh s) s = Ret () t \<and> bio_inv t \<and> bio_only s t \<and>
    cview_of t = (let ws = log_writes (lg_start s + 0 + 1) (lh s) (view s) in
      (cview_of s)\<lparr>v_data := apply_writes ws (view s), v_disk := apply_writes ws (disk s), v_log := disk_log s @ ws\<rparr>)"
    using i(3,4,6-9) g(1,5) id LOGSIZE_NBUF by (intro write_log_from_ok) auto
  then show ?thesis
    by (simp add: write_log_def kbind_def g(2))
qed

text \<open>The four groups of disk writes of a commit.\<close>

definition commit_writes :: "'a log_state_scheme \<Rightarrow> (nat \<times> byte list) list" where
  "commit_writes s =
    (let h = put_head (lh s) (view s (lg_start s)) in
     log_writes (lg_start s + 1) (lh s) (view s) @ [(lg_start s, h)] @
     map (\<lambda>b. (b, view s b)) (lh s) @ [(lg_start s, put_head [] h)])"

lemma home_writes_logged:
  assumes "\<And>k. k < length bs \<Longrightarrow> d (a + k) = e (bs ! k)"
  shows "home_writes a bs d = map (\<lambda>b. (b, e b)) bs"
  using assms
proof (induction bs arbitrary: a)
  case (Cons b bs)
  have "d (a + 1 + k) = e (bs ! k)" if "k < length bs" for k
    using Cons.prems [of "Suc k"] that by simp
  then show ?case
    using Cons.IH [of "a + 1"] Cons.prems [of 0] by simp
qed simp

lemma apply_writes_same: "(\<And>b x. (b, x) \<in> set ws \<Longrightarrow> d b = x) \<Longrightarrow> apply_writes ws d = d"
proof (induction ws)
  case (Cons w ws)
  obtain b x where w: "w = (b, x)" by fastforce
  then have "d(b := x) = d" using Cons.prems [of b x] by auto
  with Cons w show ?case by simp
qed simp

lemma log_area_not_logged:
  assumes "log_inv s"
  shows "lg_start s \<notin> set (lh s)" "k < length (lh s) \<Longrightarrow> lg_start s + 1 + k \<notin> set (lh s)"
  using log_invD(3,5) [OF assms] by (force simp: log_area_def)+

lemma log_geo_bio_only: "bio_only s t \<Longrightarrow> bio_inv t \<Longrightarrow> log_geo s \<Longrightarrow> log_geo t"
  by (simp add: log_geo_def bio_only_log bio_only_sel)

lemma bio_only_lh:
  assumes "bio_only s t"
  shows "bio_only (s\<lparr>lh := x\<rparr>) (t\<lparr>lh := x\<rparr>)"
  using arg_cong [OF assms [unfolded bio_only_def], of "\<lambda>u. u\<lparr>lh := x\<rparr>"] by (simp add: bio_only_def)

lemma commit_ok:
  assumes inv: "log_inv s" and id: "idle s" and ne: "lh s \<noteq> []"
  shows "\<exists>t. commit s = Ret () t \<and> bio_inv t \<and> bio_only (s\<lparr>lh := []\<rparr>) t \<and>
    cview_of t = \<lparr>v_data = apply_writes (commit_writes s) (view s), v_disk = apply_writes (commit_writes s) (disk s),
      v_log = disk_log s @ commit_writes s, v_busy = (\<lambda>_. False), v_dirty = (\<lambda>_. False)\<rparr>"
proof -
  note i = log_invD [OF inv] and nl = log_area_not_logged [OF inv]
  note g = log_geoD [OF i(1)]
  let ?bs = "lh s" and ?st = "lg_start s"
  let ?L = "log_writes (?st + 1) ?bs (view s)"
  let ?h = "put_head ?bs (view s ?st)"
  have nb: "busy_at s = (\<lambda>_. False)" using id by (simp add: idle_def)
  have stL: "?st \<notin> fst ` set ?L" by (simp add: log_writes_dom)
  obtain s1 where s1: "write_log s = Ret () s1" "bio_inv s1" "bio_only s s1"
    and v1: "cview_of s1 = (cview_of s)\<lparr>v_data := apply_writes ?L (view s),
      v_disk := apply_writes ?L (disk s), v_log := disk_log s @ ?L\<rparr>"
    using write_log_ok [OF inv id] by (auto simp: Let_def)
  note c1 = cview_of_eqD [OF v1, simplified] and o1 = bio_only_log [OF s1(3)] bio_only_sel(1) [OF s1(3)]
  have "\<exists>t. write_head s1 = Ret () t \<and> bio_inv t \<and> bio_only s1 t \<and>
    cview_of t = (let h = put_head (lh s1) (view s1 (lg_start s1)) in
      (cview_of s1)\<lparr>v_data := (view s1)(lg_start s1 := h), v_disk := (disk s1)(lg_start s1 := h),
        v_log := disk_log s1 @ [(lg_start s1, h)], v_dirty := (dirty_at s1)(lg_start s1 := False)\<rparr>)"
    using i(3,7-9) nb LOGSIZE_NBUF
    by (intro write_head_ok log_geo_bio_only [OF s1(3,2) i(1)]) (simp_all add: c1 o1 idle_def)
  moreover have "view s1 ?st = view s ?st" using stL by (simp add: c1 apply_writes_other)
  moreover have "(dirty_at s)(?st := False) = dirty_at s" using i(6) nl(1) by (auto simp: fun_eq_iff)
  ultimately obtain s2 where s2: "write_head s1 = Ret () s2" "bio_inv s2" "bio_only s1 s2"
    and v2: "cview_of s2 = (cview_of s)\<lparr>v_data := apply_writes (?L @ [(?st, ?h)]) (view s),
      v_disk := apply_writes (?L @ [(?st, ?h)]) (disk s), v_log := disk_log s @ ?L @ [(?st, ?h)]\<rparr>"
    by (auto simp: Let_def o1 c1 v1)
  note c2 = cview_of_eqD [OF v2, simplified] and o2 = bio_only_log [OF s2(3)] bio_only_sel(1) [OF s2(3)]
  have hw: "home_writes (?st + 1) ?bs (view s2) = map (\<lambda>b. (b, view s b)) ?bs"
    using apply_log_writes [of _ ?bs "?st + 1" "view s" "view s"]
    by (intro home_writes_logged) (simp add: c2)
  have "set ?bs \<inter> {?st + 0 + 1..<?st + 0 + 1 + length ?bs} = {}"
    using i(3,5) by (fastforce simp: log_area_def)
  then have "\<exists>t. install_from ROOTDEV ?st 0 ?bs s2 = Ret () t \<and> bio_inv t \<and> bio_only s2 t \<and>
    cview_of t = (let ws = home_writes (?st + 0 + 1) ?bs (view s2) in
      (cview_of s2)\<lparr>v_data := apply_writes ws (view s2), v_disk := apply_writes ws (disk s2),
        v_log := disk_log s2 @ ws, v_dirty := (\<lambda>b. dirty_at s2 b \<and> b \<notin> set ?bs)\<rparr>)"
    using i(2-4,6-9) g(5) LOGSIZE_NBUF nb
    by (intro install_from_ok) (auto simp: s2(2) c2 o1 o2 idle_def)
  then obtain s3 where s3: "install_trans s2 = Ret () s3" "bio_inv s3" "bio_only s2 s3"
    and v3: "cview_of s3 = (let ws = ?L @ [(?st, ?h)] @ map (\<lambda>b. (b, view s b)) ?bs in
      (cview_of s)\<lparr>v_data := apply_writes ws (view s), v_disk := apply_writes ws (disk s), v_log := disk_log s @ ws,
        v_dirty := (\<lambda>_. False)\<rparr>)"
    using hw i(6) by (auto simp: Let_def install_trans_def kbind_def o1 o2 g(2) c2 v2)
  note c3 = cview_of_eqD [OF v3 [unfolded Let_def], simplified]
    and o3 = bio_only_log [OF s3(3)] bio_only_sel(1) [OF s3(3)]
  let ?s4 = "s3\<lparr>lh := []\<rparr>"
  have b3: "bio_only (s\<lparr>lh := []\<rparr>) ?s4"
    by (rule bio_only_lh [OF bio_only_trans [OF bio_only_trans [OF s1(3) s2(3)] s3(3)]])
  have "\<exists>t. write_head ?s4 = Ret () t \<and> bio_inv t \<and> bio_only ?s4 t \<and>
    cview_of t = (let h = put_head (lh ?s4) (view ?s4 (lg_start ?s4)) in
      (cview_of ?s4)\<lparr>v_data := (view ?s4)(lg_start ?s4 := h), v_disk := (disk ?s4)(lg_start ?s4 := h),
        v_log := disk_log ?s4 @ [(lg_start ?s4, h)], v_dirty := (dirty_at ?s4)(lg_start ?s4 := False)\<rparr>)"
    using s3(2) nb g by (intro write_head_ok) (simp_all add: c3 o3 o2 o1 idle_def log_geo_def NBUF_def MAXOPBLOCKS_def)
  moreover have "view s3 ?st = ?h"
    using nl(1) by (auto simp: c3 apply_writes_other image_iff)
  moreover have "(\<lambda>_. False)(?st := False) = (\<lambda>_. False)" by auto
  ultimately obtain t where t: "write_head ?s4 = Ret () t" "bio_inv t" "bio_only ?s4 t"
    and v4: "cview_of t = \<lparr>v_data = apply_writes (commit_writes s) (view s), v_disk = apply_writes (commit_writes s) (disk s),
      v_log = disk_log s @ commit_writes s, v_busy = (\<lambda>_. False), v_dirty = (\<lambda>_. False)\<rparr>"
    using nb by (auto simp: Let_def o3 o2 o1 c3 commit_writes_def cview_of_def)
  have "commit s = Ret () t"
    using ne by (simp add: commit_def kbind_def s1(1) s2(1) s3(1) t(1))
  with t(2) v4 bio_only_trans [OF b3 t(3)] show ?thesis by blast
qed

subsection \<open>Recovery\<close>

lemma read_head_ok:
  assumes geo: "log_geo s" and id: "idle s" and nd: "dirty_at s = (\<lambda>_. False)"
  shows "\<exists>t. read_head s = Ret () t \<and> bio_inv t \<and> cview_of t = cview_of s \<and>
    bio_only (s\<lparr>lh := head_blocks (view s (lg_start s))\<rparr>) t"
proof -
  note g = log_geoD [OF geo]
  let ?b = "lg_start s" and ?x = "head_blocks (view s (lg_start s))"
  have nb: "busy_at s = (\<lambda>_. False)" using id by (simp add: idle_def)
  have u: "used_blocks s = {}" using nb nd by (simp add: used_blocks_def)
  obtain i s1 where s1: "bread ROOTDEV ?b s = Ret i s1" "bio_inv s1" "held s1 i ?b" "bio_only s s1"
    "cview_of s1 = (cview_of s)\<lparr>v_busy := (busy_at s)(?b := True)\<rparr>" "b_data (bufs s1 ! i) = view s ?b"
    by (rule bread_ok [OF g(1,7)]) (auto simp: nb u NBUF_def MAXOPBLOCKS_def)
  note c1 = cview_of_eqD [OF s1(5), simplified]
  let ?s2 = "s1\<lparr>lh := ?x\<rparr>"
  have "bio_inv ?s2" "held ?s2 i ?b" "dirty_at ?s2 ?b \<or> view ?s2 ?b = disk ?s2 ?b"
    using s1(2,3) idle_not_dirty [OF g(1) id, of ?b] by (simp_all add: c1)
  then obtain t where t: "brelse i ?s2 = Ret () t" "bio_inv t" "bio_only ?s2 t"
    "cview_of t = (cview_of ?s2)\<lparr>v_busy := (busy_at ?s2)(?b := False)\<rparr>"
    by (metis brelse_ok)
  have "(\<lambda>_. False)(?b := True, ?b := False) = (\<lambda>_. False)" by (auto simp: fun_eq_iff)
  then have "cview_of t = cview_of s"
    using t(4) c1 nb by (simp add: cview_of_def)
  moreover have "read_head s = Ret () t"
    by (simp add: read_head_def kbind_def g(2) s1(1) bdata_def s1(6) t(1))
  ultimately show ?thesis
    using t(2) bio_only_trans [OF bio_only_lh [OF s1(4)] t(3)] by blast
qed

text \<open>The disk after recovery, as a function of the disk before it.\<close>

definition recovered :: "nat \<Rightarrow> (nat \<Rightarrow> byte list) \<Rightarrow> nat \<Rightarrow> byte list" where
  "recovered start d = apply_writes
     (home_writes (start + 1) (head_blocks (d start)) d @ [(start, put_head [] (d start))]) d"

lemma recover_from_log_ok:
  assumes geo: "log_geo s" and id: "idle s" and nd: "dirty_at s = (\<lambda>_. False)"
    and n: "length (head_blocks (disk s (lg_start s))) < lg_size s"
    and bs: "\<forall>b\<in>set (head_blocks (disk s (lg_start s))). b < disksize s \<and> b \<notin> log_area s"
  shows "\<exists>t. recover_from_log s = Ret () t \<and> log_inv t \<and> idle t \<and> lh t = [] \<and>
    lg_start t = lg_start s \<and> lg_size t = lg_size s \<and> disksize t = disksize s \<and>
    disk t = recovered (lg_start s) (disk s) \<and> view t = disk t"
proof -
  note g = log_geoD [OF geo]
  let ?st = "lg_start s" and ?bs = "head_blocks (disk s (lg_start s))"
  have nb: "busy_at s = (\<lambda>_. False)" using id by (simp add: idle_def)
  have vd: "view s = disk s" using idle_not_dirty [OF g(1) id] nd by auto
  obtain s1 where s1: "read_head s = Ret () s1" "bio_inv s1" "cview_of s1 = cview_of s"
    "bio_only (s\<lparr>lh := ?bs\<rparr>) s1"
    using read_head_ok [OF geo id nd] vd by auto
  note c1 = cview_of_eqD [OF s1(3), simplified] and o1 = bio_only_log [OF s1(4)] bio_only_sel(1) [OF s1(4)]
  have "set ?bs \<inter> {?st + 0 + 1..<?st + 0 + 1 + length ?bs} = {}"
    using n bs by (fastforce simp: log_area_def)
  then have "\<exists>t. install_from ROOTDEV ?st 0 ?bs s1 = Ret () t \<and> bio_inv t \<and> bio_only s1 t \<and>
    cview_of t = (let ws = home_writes (?st + 0 + 1) ?bs (view s1) in
      (cview_of s1)\<lparr>v_data := apply_writes ws (view s1), v_disk := apply_writes ws (disk s1),
        v_log := disk_log s1 @ ws, v_dirty := (\<lambda>b. dirty_at s1 b \<and> b \<notin> set ?bs)\<rparr>)"
    using n bs g(5) nb by (intro install_from_ok) (auto simp: s1(2) c1 o1 idle_def nd NBUF_def MAXOPBLOCKS_def)
  then obtain s2 where s2: "install_trans s1 = Ret () s2" "bio_inv s2" "bio_only s1 s2"
    "view s2 = apply_writes (home_writes (?st + 1) ?bs (disk s)) (disk s)"
    "disk s2 = apply_writes (home_writes (?st + 1) ?bs (disk s)) (disk s)"
    "busy_at s2 = (\<lambda>_. False)" "dirty_at s2 = (\<lambda>_. False)"
    using nb nd vd by (auto simp: Let_def install_trans_def kbind_def o1 g(2) c1 cview_of_iff)
  note o2 = bio_only_log [OF s2(3)] bio_only_sel(1) [OF s2(3)]
  let ?s3 = "s2\<lparr>lh := []\<rparr>"
  have geo3: "log_geo ?s3" using geo s2(2) by (simp add: log_geo_def o2 o1)
  have "\<exists>t. write_head ?s3 = Ret () t \<and> bio_inv t \<and> bio_only ?s3 t \<and>
    cview_of t = (let h = put_head (lh ?s3) (view ?s3 (lg_start ?s3)) in
      (cview_of ?s3)\<lparr>v_data := (view ?s3)(lg_start ?s3 := h), v_disk := (disk ?s3)(lg_start ?s3 := h),
        v_log := disk_log ?s3 @ [(lg_start ?s3, h)], v_dirty := (dirty_at ?s3)(lg_start ?s3 := False)\<rparr>)"
    by (rule write_head_ok [OF geo3]) (simp_all add: idle_def s2(6,7) NBUF_def MAXOPBLOCKS_def)
  then obtain t where t: "write_head ?s3 = Ret () t" "bio_inv t" "bio_only ?s3 t"
    and v3: "view t = (view s2)(?st := put_head [] (view s2 ?st))" "disk t = (disk s2)(?st := put_head [] (view s2 ?st))"
    "busy_at t = (\<lambda>_. False)" "dirty_at t = (\<lambda>_. False)(?st := False)"
    using s2(6,7) by (auto simp: Let_def o2 o1 cview_of_iff)
  note o3 = bio_only_log [OF t(3)] bio_only_sel(1) [OF t(3)]
  have "?st \<notin> set ?bs" using bs g(3) by (auto simp: log_area_def)
  then have "view s2 ?st = disk s ?st"
    by (simp add: s2(4) apply_writes_other home_writes_dom)
  then have "disk t = recovered ?st (disk s)" "view t = disk t"
    using v3 s2(4,5) by (simp_all add: recovered_def)
  moreover have "log_inv t"
    using log_geo_bio_only [OF t(3,2) geo3] v3(4) g(3) by (auto simp: log_inv_def o3 o2 o1 fun_eq_iff)
  moreover have "recover_from_log s = Ret () t"
    by (simp add: recover_from_log_def kbind_def s1(1) s2(1) t(1))
  ultimately show ?thesis
    using v3(3) by (simp add: idle_def o3 o2 o1)
qed

lemma readsb_ok:
  assumes inv: "bio_inv s" and id: "idle s" and nd: "dirty_at s = (\<lambda>_. False)" and one: "1 < disksize s"
  shows "\<exists>t. readsb ROOTDEV s = Ret (decode_sb (disk s 1)) t \<and> bio_inv t \<and> bio_only s t \<and> cview_of t = cview_of s"
proof -
  have nb: "busy_at s = (\<lambda>_. False)" using id by (simp add: idle_def)
  have u: "used_blocks s = {}" using nb nd by (simp add: used_blocks_def)
  have vd: "view s 1 = disk s 1" using idle_not_dirty [OF inv id, of 1] nd by auto
  obtain i s1 where s1: "bread ROOTDEV 1 s = Ret i s1" "bio_inv s1" "held s1 i 1" "bio_only s s1"
    "cview_of s1 = (cview_of s)\<lparr>v_busy := (busy_at s)(1 := True)\<rparr>" "b_data (bufs s1 ! i) = view s 1"
    by (rule bread_ok [OF inv one]) (auto simp: nb u NBUF_def MAXOPBLOCKS_def)
  note c1 = cview_of_eqD [OF s1(5), simplified]
  obtain t where t: "brelse i s1 = Ret () t" "bio_inv t" "bio_only s1 t"
    "cview_of t = (cview_of s1)\<lparr>v_busy := (busy_at s1)(1 := False)\<rparr>"
    using s1(2,3) vd by (rule_tac brelse_ok [of s1 i 1]) (auto simp: c1)
  have "(\<lambda>_. False)(1 := True, 1 := False) = (\<lambda>_ :: nat. False)" by (auto simp: fun_eq_iff)
  then have "cview_of t = cview_of s"
    using t(4) c1 nb by (simp add: cview_of_def)
  moreover have "readsb ROOTDEV s = Ret (decode_sb (disk s 1)) t"
    using s1(1,6) t(1) vd by (simp add: readsb_def kbind_def bdata_def kret_def)
  ultimately show ?thesis
    using t(2) bio_only_trans [OF s1(4) t(3)] by blast
qed

text \<open>A cache that holds no block: the state in which the kernel calls \<open>initlog\<close>, after \<open>binit\<close>.\<close>

definition cold :: "'a bio_state_scheme \<Rightarrow> bool" where
  "cold s \<longleftrightarrow> bio_inv s \<and> (\<forall>i b. \<not> live_at s i b)"

lemma coldD:
  assumes "cold s"
  shows "bio_inv s" "idle s" "dirty_at s = (\<lambda>_. False)"
  using assms by (auto simp: cold_def idle_def busy_at_def dirty_at_def)

lemma initlog_ok:
  assumes cold: "cold r" and one: "1 < disksize r" and st: "sb_logstart (decode_sb (disk r 1)) = st"
    and sz: "sb_nlog (decode_sb (disk r 1)) = sz"
    and geo: "0 < sz" "sz \<le> LOGSIZE" "st + sz \<le> disksize r" "disksize r \<le> 2 ^ 32"
    and n: "length (head_blocks (disk r st)) < sz"
    and bs: "\<forall>b\<in>set (head_blocks (disk r st)). b < disksize r \<and> b \<notin> {st..<st + sz}"
  shows "\<exists>u. initlog ROOTDEV r = Ret () u \<and> log_inv u \<and> idle u \<and> lh u = [] \<and> lg_start u = st \<and> lg_size u = sz \<and>
    disk u = recovered st (disk r) \<and> view u = disk u"
proof -
  note c = coldD [OF cold]
  obtain r1 where r1: "readsb ROOTDEV r = Ret (decode_sb (disk r 1)) r1" "bio_inv r1" "bio_only r r1" "cview_of r1 = cview_of r"
    using readsb_ok [OF c one] by blast
  note c1 = cview_of_cong [OF r1(4)] and o1 = bio_only_log [OF r1(3)] bio_only_sel(1) [OF r1(3)]
  let ?r = "r1\<lparr>lg_start := st, lg_size := sz, lg_dev := ROOTDEV\<rparr>"
  have "log_geo ?r" using geo r1(2) by (simp add: log_geo_def o1)
  then have "\<exists>t. recover_from_log ?r = Ret () t \<and> log_inv t \<and> idle t \<and> lh t = [] \<and>
    lg_start t = lg_start ?r \<and> lg_size t = lg_size ?r \<and> disksize t = disksize ?r \<and>
    disk t = recovered (lg_start ?r) (disk ?r) \<and> view t = disk t"
    using c n bs by (intro recover_from_log_ok) (simp_all add: c1 o1 log_area_def)
  moreover have "\<not> 4 + 4 * LOGSIZE \<ge> BSIZE" by (simp add: param_defs)
  ultimately show ?thesis
    using st sz by (auto simp add: initlog_def kbind_def r1(1) c1 simp del: One_nat_def)
qed

lemma recovered_empty:
  "head_blocks (d start) = [] \<Longrightarrow> b \<noteq> start \<Longrightarrow> recovered start d b = d b"
  by (simp add: recovered_def)

lemma head_blocks_Nil: "length d = BSIZE \<Longrightarrow> head_blocks (put_head [] d) = []"
  using head_blocks_put_head [of "[]" d] by (simp add: BSIZE_def)

lemma apply_map_writes:
  "apply_writes (map (\<lambda>b. (b, e b)) bs) d c = (if c \<in> set bs then e c else d c)"
  by (induction bs arbitrary: d) auto

text \<open>
  The heart of crash safety: whatever prefix of a commit's writes has reached the disk, recovery
  ends with the old contents everywhere or the new contents everywhere.
\<close>

lemma take_log_writes_dom: "c \<in> fst ` set (take j (log_writes a bs d)) \<Longrightarrow> a \<le> c \<and> c < a + length bs"
  using image_mono [OF set_take_subset [of j "log_writes a bs d"], of fst] log_writes_dom [of a bs d] by auto

lemma recovered_commit:
  assumes inv: "log_inv s" and id: "idle s" and hd: "head_blocks (disk s (lg_start s)) = []"
    and b: "b \<notin> log_area s"
    and d_def: "d = apply_writes (take k (commit_writes s)) (disk s)"
  shows "recovered (lg_start s) d b = (if k \<le> length (lh s) then disk s b else view s b) \<and>
    set (head_blocks (d (lg_start s))) \<subseteq> set (lh s) \<and> length (head_blocks (d (lg_start s))) \<le> length (lh s)"
proof -
  note i = log_invD [OF inv] and nl = log_area_not_logged [OF inv]
  note g = log_geoD [OF i(1)]
  let ?bs = "lh s" and ?st = "lg_start s" and ?n = "length (lh s)"
  let ?L = "log_writes (?st + 1) ?bs (view s)" and ?M = "map (\<lambda>b. (b, view s b)) ?bs"
  let ?h = "put_head ?bs (view s ?st)"
  let ?d1 = "apply_writes (?L @ [(?st, ?h)]) (disk s)"
  have len: "length (view s ?st) = BSIZE" by (rule length_view [OF g(1,7)])
  have rm: "4 + 4 * ?n \<le> length (view s ?st)" using head_room [of ?n] i(9) len by simp
  have "\<forall>b\<in>set ?bs. b < 2 ^ 32" using i(4) g(6) by (meson less_le_trans)
  then have hh: "head_blocks ?h = ?bs" and hl: "length ?h = BSIZE"
    using i(9) LOGSIZE_small rm len by (auto intro!: head_blocks_put_head)
  have bst: "b \<noteq> ?st" using b g(3) by (auto simp: log_area_def)
  have bL: "b \<notin> fst ` set (take j ?L)" for j
  proof
    assume "b \<in> fst ` set (take j ?L)"
    from take_log_writes_dom [OF this] show False using b i(3) by (simp add: log_area_def)
  qed
  have stL: "?st \<notin> fst ` set (take j ?L)" for j
    using take_log_writes_dom [of ?st j "?st + 1" ?bs "view s"] by auto
  have old: "b \<notin> set ?bs \<Longrightarrow> disk s b = view s b"
    using idle_not_dirty [OF log_geoD(1) [OF i(1)] id, of b] i(6) by auto
  have d1: "?d1 ?st = ?h" "?d1 b = disk s b" "j < ?n \<Longrightarrow> ?d1 (?st + 1 + j) = view s (?bs ! j)" for j
    using bst bL [of ?n] apply_log_writes [of j ?bs "?st + 1" "view s" "disk s"] by (simp_all add: apply_writes_other)
  consider (old) "k \<le> ?n" | (logged) "?n < k" "k \<le> 2 * ?n + 1" | (finished) "2 * ?n + 1 < k" by linarith
  then show ?thesis
  proof cases
    case old
    then have "d = apply_writes (take k ?L) (disk s)" by (simp add: d_def commit_writes_def Let_def)
    then have "d ?st = disk s ?st" "d b = disk s b" using stL bL by (simp_all add: apply_writes_other)
    with old hd bst show ?thesis by (simp add: recovered_empty)
  next
    case logged
    then have "d = apply_writes (map (\<lambda>b. (b, view s b)) (take (k - ?n - 1) ?bs)) ?d1"
      by (simp add: d_def commit_writes_def Let_def take_map take_Cons' del: apply_writes_simps(3)) simp
    then have d: "d c = (if c \<in> set (take (k - ?n - 1) ?bs) then view s c else ?d1 c)" for c
      by (simp add: apply_map_writes)
    have sub: "set (take (k - ?n - 1) ?bs) \<subseteq> set ?bs" by (rule set_take_subset)
    have dst: "d ?st = ?h" using d nl(1) sub d1(1) by auto
    have "home_writes (?st + 1) ?bs d = ?M"
      using d nl(2) sub d1(3) by (intro home_writes_logged) auto
    moreover have "b \<notin> set ?bs \<Longrightarrow> d b = view s b" using d sub d1(2) old by auto
    ultimately show ?thesis using logged bst by (simp add: recovered_def dst hh apply_map_writes)
  next
    case finished
    then have "d = apply_writes (?M @ [(?st, put_head [] ?h)]) ?d1"
      by (simp add: d_def commit_writes_def Let_def)
    then have "d ?st = put_head [] ?h" "d b = view s b"
      using bst old d1(2) by (simp_all add: apply_map_writes)
    with finished bst hl show ?thesis by (simp add: recovered_empty head_blocks_Nil)
  qed
qed


text \<open>
  C3. Crash safety of the log. Take a consistent system at the moment \<open>end_op\<close> calls \<open>commit\<close>: nobody
  holds a buffer, the header on the disk is empty and the super block describes the log. Then
  \<open>commit\<close> returns, writing some sequence \<open>ws\<close> of blocks. If the machine stops after any
  number \<open>k\<close> of these writes and reboots with an empty cache, \<open>initlog\<close> returns, the log is
  empty again, and outside the log area the disk holds, for every block, the contents from
  before the transaction when at most the log blocks had been written, and otherwise the
  contents the transaction gave it: all of its writes or none.
\<close>

theorem commit_crash_atomic:
  assumes inv: "log_inv s" and id: "idle s" and ne: "lh s \<noteq> []"
    and hd: "head_blocks (disk s (lg_start s)) = []"
    and sb: "sb_logstart (decode_sb (disk s 1)) = lg_start s" "sb_nlog (decode_sb (disk s 1)) = lg_size s"
    and one: "1 < disksize s" "1 \<notin> log_area s" "1 \<notin> set (lh s)"
  shows "\<exists>t ws. commit s = Ret () t \<and> disk_log t = disk_log s @ ws \<and>
    (\<forall>k (r :: 'b log_state_scheme).
      cold r \<and> disksize r = disksize s \<and> disk r = apply_writes (take k ws) (disk s) \<longrightarrow>
      (\<exists>u. initlog ROOTDEV r = Ret () u \<and> log_inv u \<and> idle u \<and> lh u = [] \<and>
        (\<forall>b. b \<notin> log_area s \<longrightarrow>
          disk u b = (if k \<le> length (lh s) then disk s b else view s b) \<and> view u b = disk u b)))"
proof -
  note g = log_geoD [OF log_invD(1) [OF inv]]
  let ?ws = "commit_writes s"
  obtain t where t: "commit s = Ret () t" "disk_log t = disk_log s @ ?ws"
    using commit_ok [OF inv id ne] by (auto simp: cview_of_iff)
  have "\<exists>u. initlog ROOTDEV r = Ret () u \<and> log_inv u \<and> idle u \<and> lh u = [] \<and>
        (\<forall>b. b \<notin> log_area s \<longrightarrow>
          disk u b = (if k \<le> length (lh s) then disk s b else view s b) \<and> view u b = disk u b)"
    if r: "cold r" "disksize r = disksize s" "disk r = apply_writes (take k ?ws) (disk s)" for k and r :: "'b log_state_scheme"
  proof -
    note rc = recovered_commit [OF inv id hd _ r(3)]
    have "1 \<notin> {lg_start s + 1..<lg_start s + 1 + length (lh s)}" "1 \<noteq> lg_start s"
      using one(2) log_invD(3) [OF inv] g(3) unfolding log_area_def atLeastLessThan_iff by linarith+
    then have "1 \<notin> fst ` set ?ws"
      using one(3) by (auto simp: commit_writes_def Let_def image_Un image_image log_writes_dom simp del: One_nat_def atLeastLessThan_iff)
    then have "1 \<notin> fst ` set (take k ?ws)" using set_take_subset [of k ?ws] by blast
    then have one': "disk r 1 = disk s 1" by (simp add: r(3) apply_writes_other)
    have "set (head_blocks (disk r (lg_start s))) \<subseteq> set (lh s)"
      "length (head_blocks (disk r (lg_start s))) \<le> length (lh s)"
      using rc [OF one(2)] by blast+
    then have "\<exists>u. initlog ROOTDEV r = Ret () u \<and> log_inv u \<and> idle u \<and> lh u = [] \<and> lg_start u = lg_start s \<and>
        lg_size u = lg_size s \<and> disk u = recovered (lg_start s) (disk r) \<and> view u = disk u"
      using one(1) g log_invD(3,4,5) [OF inv] one'
      by (intro initlog_ok r(1)) (auto simp: r(2) sb log_area_def simp del: One_nat_def)
    with rc show ?thesis by metis
  qed
  with t show ?thesis by blast
qed

text \<open>A disk of 40 blocks with the log in blocks 2 to 31, and a transaction that has changed block 35.\<close>

definition log_example_disk :: "nat \<Rightarrow> byte list" where
  "log_example_disk b = (if b = 1 then store32 16 2 (store32 12 30 (replicate BSIZE 0)) else replicate BSIZE 0)"

definition log_example :: log_state where
  "log_example = bio_state.extend
     ((bio_ready 40 log_example_disk kmem_example)
        \<lparr>bufs := (replicate NBUF (zero_buf\<lparr>b_dev := NODEV_ID\<rparr>))
           [0 := \<lparr>b_busy = False, b_valid = True, b_dirty = True, b_dev = ROOTDEV, b_blockno = 35,
                  b_data = replicate BSIZE 7\<rparr>]\<rparr>)
     \<lparr>lg_start = 2, lg_size = 30, outstanding = 0, committing = True, lg_dev = ROOTDEV, lh = [35]\<rparr>"

definition log_reboot :: "(nat \<Rightarrow> byte list) \<Rightarrow> log_state" where
  "log_reboot d = bio_state.extend (bio_ready 40 d kmem_example)
     \<lparr>lg_start = 0, lg_size = 0, outstanding = 0, committing = False, lg_dev = 0, lh = []\<rparr>"

lemma extend_sel [simp]:
  "bufs (bio_state.extend s x) = bufs s" "disk (bio_state.extend s x) = disk s"
  "disksize (bio_state.extend s x) = disksize s" "lru (bio_state.extend s x) = lru s"
  "disk_log (bio_state.extend s x) = disk_log s"
  by (simp_all add: bio_state.defs)

lemma extend_inv [simp]: "live_at (bio_state.extend s x) = live_at s" "bio_inv (bio_state.extend s x) = bio_inv s"
  by (simp_all add: live_at_def bio_inv_def buf_ok_def fun_eq_iff)

lemma extend_cview [simp]: "cview_of (bio_state.extend s x) = cview_of s"
  by (simp add: cview_of_def busy_at_def dirty_at_def view_def fun_eq_iff cong: option.case_cong)

lemma bio_ready_cold: "\<forall>b<n. length (d b) = BSIZE \<Longrightarrow> cold (bio_ready n d k)"
  by (simp add: cold_def bio_ready_inv)

lemma log_reboot_cold: "\<forall>b<40. length (d b) = BSIZE \<Longrightarrow> cold (log_reboot d) \<and> disk (log_reboot d) = d \<and> disksize (log_reboot d) = 40"
  by (simp add: cold_def log_reboot_def bio_ready_inv)

lemma load32_zeros: "off + 4 \<le> n \<Longrightarrow> load32 (replicate n 0) off = 0"
  by (simp add: load32_def bslice_def dec32_def min_def numeral_eq_Suc)

lemma head_blocks_zeros: "head_blocks (replicate BSIZE 0) = []"
  by (simp add: head_blocks_def load32_zeros BSIZE_def)

lemma log_example_facts:
  "log_inv log_example" "idle log_example" "lh log_example = [35]" "lg_start log_example = 2" "lg_size log_example = 30"
  "disksize log_example = 40" "disk log_example = log_example_disk" "view log_example 35 = replicate BSIZE 7"
proof -
  have sel: "lh log_example = [35]" "lg_start log_example = 2" "lg_size log_example = 30" "lg_dev log_example = ROOTDEV"
    by (simp_all add: log_example_def bio_state.defs)
  have b: "bufs log_example = (replicate NBUF (zero_buf\<lparr>b_dev := NODEV_ID\<rparr>))
           [0 := \<lparr>b_busy = False, b_valid = True, b_dirty = True, b_dev = ROOTDEV, b_blockno = 35,
                  b_data = replicate BSIZE 7\<rparr>]"
    and ds: "disksize log_example = 40" and d: "disk log_example = log_example_disk"
    and l: "lru log_example = rev [0..<NBUF]"
    by (simp_all add: log_example_def)
  have live: "live_at log_example i c \<longleftrightarrow> i = 0 \<and> c = 35" for i c
    by (auto simp: live_at_def b nth_list_update NBUF_def MAXOPBLOCKS_def)
  have dl: "length (log_example_disk c) = BSIZE" for c
    by (simp add: log_example_disk_def BSIZE_def)
  have "buf_ok log_example (bufs log_example ! i)" if "i < NBUF" for i
    using that by (cases "i = 0") (simp_all add: b buf_ok_def zero_buf_def ds)
  then have bi: "bio_inv log_example"
    by (simp add: bio_inv_def live b l ds d dl atLeast0LessThan)
  have z: "0 < NBUF" by (simp add: NBUF_def MAXOPBLOCKS_def)
  have "dirty_at log_example = (\<lambda>c. c \<in> set (lh log_example))"
    using z by (simp add: dirty_at_def live b sel fun_eq_iff)
  then show "log_inv log_example"
    by (simp add: log_inv_def log_geo_def bi sel ds log_area_def LOGSIZE_def MAXOPBLOCKS_def)
  show "idle log_example"
    using z by (simp add: idle_def busy_at_def live b fun_eq_iff)
  have "live_at log_example 0 35" by (simp add: live)
  then show "view log_example 35 = replicate BSIZE 7"
    using z by (simp add: view_live [OF bi] b)
  show "lh log_example = [35]" "lg_start log_example = 2" "lg_size log_example = 30"
    "disksize log_example = 40" "disk log_example = log_example_disk"
    by (simp_all add: sel ds d)
qed

lemma length_apply_writes:
  "(\<And>c x. (c, x) \<in> set ws \<Longrightarrow> length x = n) \<Longrightarrow> length (d b) = n \<Longrightarrow> length (apply_writes ws d b) = n"
proof (induction ws arbitrary: d)
  case (Cons w ws)
  obtain c x where w: "w = (c, x)" by fastforce
  have "length (apply_writes ws (d(c := x)) b) = n"
    by (rule Cons.IH) (use Cons.prems w in auto)
  with w show ?case by simp
qed simp

lemma set_log_writes: "(c, x) \<in> set (log_writes a bs d) \<Longrightarrow> \<exists>b\<in>set bs. x = d b"
  by (induction bs arbitrary: a) auto

lemma commit_writes_length:
  assumes inv: "log_inv s" and w: "(c, x) \<in> set (commit_writes s)"
  shows "length x = BSIZE"
proof -
  note i = log_invD [OF inv] and g = log_geoD [OF log_invD(1) [OF inv]]
  have l: "length (view s b) = BSIZE" if "b \<in> set (lh s)" for b
    using length_view [OF g(1)] i(4) that by blast
  have "length (view s (lg_start s)) = BSIZE" by (rule length_view [OF g(1,7)])
  with w l head_room [of "length (lh s)"] head_room [of 0] i(9) show ?thesis
    by (auto simp: commit_writes_def Let_def dest!: set_log_writes)
qed

text \<open>
  The example transaction, stopped after the log block was written (the old block 35 comes back)
  and after the header was written too (the new block 35 comes back).
\<close>

theorem commit_crash_atomic_witness:
  "\<exists>t ws. commit log_example = Ret () t \<and> disk_log t = disk_log log_example @ ws \<and>
     (\<exists>u. initlog ROOTDEV (log_reboot (apply_writes (take 1 ws) log_example_disk)) = Ret () u \<and>
        disk u 35 = replicate BSIZE 0) \<and>
     (\<exists>u. initlog ROOTDEV (log_reboot (apply_writes (take 2 ws) log_example_disk)) = Ret () u \<and>
        disk u 35 = replicate BSIZE 7)"
proof -
  note e = log_example_facts
  let ?s = log_example
  have dl: "length (log_example_disk c) = BSIZE" for c
    by (simp add: log_example_disk_def BSIZE_def)
  have sb: "sb_logstart (decode_sb (log_example_disk 1)) = 2" "sb_nlog (decode_sb (log_example_disk 1)) = 30"
    by (simp_all add: decode_sb_def log_example_disk_def load32_store32_other BSIZE_def)
  have hd: "head_blocks (log_example_disk 2) = []"
    by (simp add: log_example_disk_def head_blocks_zeros)
  have "\<exists>t ws. commit ?s = Ret () t \<and> disk_log t = disk_log ?s @ ws \<and>
    (\<forall>k (r :: log_state). cold r \<and> disksize r = disksize ?s \<and> disk r = apply_writes (take k ws) (disk ?s) \<longrightarrow>
      (\<exists>u. initlog ROOTDEV r = Ret () u \<and> log_inv u \<and> idle u \<and> lh u = [] \<and>
        (\<forall>b. b \<notin> log_area ?s \<longrightarrow>
          disk u b = (if k \<le> length (lh ?s) then disk ?s b else view ?s b) \<and> view u b = disk u b)))"
    by (rule commit_crash_atomic) (simp_all add: e hd sb [simplified] log_area_def)
  then obtain t ws where t: "commit ?s = Ret () t" "disk_log t = disk_log ?s @ ws"
    and crash: "\<forall>k (r :: log_state). cold r \<and> disksize r = disksize ?s \<and> disk r = apply_writes (take k ws) (disk ?s) \<longrightarrow>
      (\<exists>u. initlog ROOTDEV r = Ret () u \<and> log_inv u \<and> idle u \<and> lh u = [] \<and>
        (\<forall>b. b \<notin> log_area ?s \<longrightarrow>
          disk u b = (if k \<le> length (lh ?s) then disk ?s b else view ?s b) \<and> view u b = disk u b))"
    by (elim exE conjE) (rule that)
  have "ws = commit_writes ?s"
    using commit_ok [OF e(1,2)] t by (auto simp: e cview_of_iff)
  then have "length (apply_writes (take k ws) log_example_disk b) = BSIZE" for k b
    using commit_writes_length [OF e(1)] dl by (intro length_apply_writes) (auto dest: in_set_takeD)
  then have boot: "\<exists>u. initlog ROOTDEV (log_reboot (apply_writes (take k ws) log_example_disk)) = Ret () u \<and>
      disk u 35 = (if k \<le> 1 then log_example_disk 35 else view ?s 35)" for k
    using crash [rule_format, of "log_reboot (apply_writes (take k ws) log_example_disk)" k]
    by (auto simp: log_reboot_cold e log_area_def)
  have "log_example_disk 35 = replicate BSIZE 0" by (simp add: log_example_disk_def)
  then have
    "\<exists>u. initlog ROOTDEV (log_reboot (apply_writes (take 1 ws) log_example_disk)) = Ret () u \<and> disk u 35 = replicate BSIZE 0"
    "\<exists>u. initlog ROOTDEV (log_reboot (apply_writes (take 2 ws) log_example_disk)) = Ret () u \<and> disk u 35 = replicate BSIZE 7"
    using boot [of 1] boot [of 2] e(8) by auto
  with t show ?thesis by blast
qed

subsection \<open>Operations inside a transaction\<close>

text \<open>
  What a system call relies on between \<open>begin_op\<close> and \<open>end_op\<close>, with \<open>room s n\<close> further blocks to log
  and \<open>nheld s\<close> buffers held.
\<close>

definition txn :: "'a log_state_scheme \<Rightarrow> bool" where
  "txn s \<longleftrightarrow> log_inv s \<and> 1 \<le> outstanding s"

definition room :: "'a log_state_scheme \<Rightarrow> nat \<Rightarrow> bool" where
  "room s n \<longleftrightarrow> length (lh s) + n < lg_size s"

definition nheld :: "'a bio_state_scheme \<Rightarrow> nat" where
  "nheld s = card {b. busy_at s b}"

lemma finite_busy: "bio_inv s \<Longrightarrow> finite {b. busy_at s b}"
proof -
  have "{b. busy_at s b} \<subseteq> (\<lambda>i. b_blockno (bufs s ! i)) ` {..<NBUF}"
    by (auto simp: busy_at_def live_at_def)
  then show ?thesis by (meson finite_imageI finite_lessThan finite_subset)
qed

lemma card_busy_upd:
  assumes "bio_inv s"
  shows "\<not> busy_at s b \<Longrightarrow> card {c. ((busy_at s)(b := True)) c} = nheld s + 1"
    "busy_at s b \<Longrightarrow> card {c. ((busy_at s)(b := False)) c} = nheld s - 1"
proof -
  assume "\<not> busy_at s b"
  moreover have "{c. ((busy_at s)(b := True)) c} = insert b {c. busy_at s c}" by auto
  ultimately show "card {c. ((busy_at s)(b := True)) c} = nheld s + 1"
    using finite_busy [OF assms] by (simp add: nheld_def)
next
  assume "busy_at s b"
  moreover have "{c. ((busy_at s)(b := False)) c} = {c. busy_at s c} - {b}" by auto
  ultimately show "card {c. ((busy_at s)(b := False)) c} = nheld s - 1"
    using finite_busy [OF assms] by (simp add: nheld_def)
qed

lemma log_inv_same:
  assumes "log_inv s" "bio_inv t" "bio_only s t" "dirty_at t = dirty_at s"
  shows "log_inv t"
  using assms by (simp add: log_inv_def log_geo_def log_area_def bio_only_log bio_only_sel)

lemma txn_bread:
  assumes t: "txn s" and b: "b < disksize s" "\<not> busy_at s b" and n: "length (lh s) + nheld s < NBUF"
  obtains i u where "bread ROOTDEV b s = Ret i u" "txn u" "held u i b" "bio_only s u"
    "cview_of u = (cview_of s)\<lparr>v_busy := (busy_at s)(b := True)\<rparr>" "keeps_held s u i" "\<And>c. \<not> held s i c"
    "b_data (bufs u ! i) = view s b" "nheld u = nheld s + 1"
proof -
  have inv: "log_inv s" using t by (simp add: txn_def)
  note i = log_invD [OF inv] and g = log_geoD [OF log_invD(1) [OF inv]]
  have "used_blocks s = {b. busy_at s b} \<union> {b. dirty_at s b}" by (auto simp: used_blocks_def)
  then have "finite (used_blocks s) \<and> card (used_blocks s) < NBUF"
    using finite_busy [OF g(1)] i(7,8) n card_Un_le [of "{b. busy_at s b}" "{b. dirty_at s b}"] by (simp add: nheld_def)
  then obtain j u where u: "bread ROOTDEV b s = Ret j u" "bio_inv u" "held u j b" "bio_only s u"
    "cview_of u = (cview_of s)\<lparr>v_busy := (busy_at s)(b := True)\<rparr>" "keeps_held s u j"
    "\<And>c. \<not> held s j c" "b_data (bufs u ! j) = view s b"
    by (rule_tac bread_ok [OF g(1) b]) auto
  note c = cview_of_eqD [OF u(5), simplified]
  have "txn u"
    using t log_inv_same [OF inv u(2,4)] c(5) by (simp add: txn_def bio_only_log [OF u(4)])
  moreover have "nheld u = nheld s + 1"
    using card_busy_upd(1) [OF g(1) b(2)] by (simp add: nheld_def c(4))
  ultimately show ?thesis using u by (intro that) auto
qed

lemma txn_bset:
  assumes t: "txn s" and h: "held s i b" and l: "length (f (view s b)) = BSIZE"
  obtains u where "bset i f s = Ret () u" "txn u" "held u = held s" "bio_only s u"
    "cview_of u = (cview_of s)\<lparr>v_data := (view s)(b := f (view s b))\<rparr>" "nheld u = nheld s"
proof -
  have inv: "log_inv s" using t by (simp add: txn_def)
  obtain u where u: "bset i f s = Ret () u" "bio_inv u" "held u = held s" "bio_only s u"
    "cview_of u = (cview_of s)\<lparr>v_data := (view s)(b := f (view s b))\<rparr>"
    using bset_ok [OF log_geoD(1) [OF log_invD(1) [OF inv]] h, of f] l by metis
  note c = cview_of_eqD [OF u(5), simplified]
  have "txn u"
    using t log_inv_same [OF inv u(2,4)] c(5) by (simp add: txn_def bio_only_log [OF u(4)])
  then show ?thesis using u c(4) by (intro that [of u]) (auto simp: nheld_def)
qed

lemma txn_brelse:
  assumes t: "txn s" and h: "held s i b" and d: "dirty_at s b \<or> view s b = disk s b"
  obtains u where "brelse i s = Ret () u" "txn u" "keeps_held s u i" "bio_only s u"
    "cview_of u = (cview_of s)\<lparr>v_busy := (busy_at s)(b := False)\<rparr>" "nheld u = nheld s - 1"
proof -
  have inv: "log_inv s" using t by (simp add: txn_def)
  have bi: "bio_inv s" by (rule log_geoD(1) [OF log_invD(1) [OF inv]])
  obtain u where u: "brelse i s = Ret () u" "bio_inv u" "keeps_held s u i" "bio_only s u"
    "cview_of u = (cview_of s)\<lparr>v_busy := (busy_at s)(b := False)\<rparr>"
    using brelse_ok [OF bi h d] by metis
  note c = cview_of_eqD [OF u(5), simplified]
  have "txn u"
    using t log_inv_same [OF inv u(2,4)] c(5) by (simp add: txn_def bio_only_log [OF u(4)])
  moreover have "nheld u = nheld s - 1"
    using card_busy_upd(2) [OF bi held_busy [OF h]] by (simp add: nheld_def c(4))
  ultimately show ?thesis using u by (intro that) auto
qed

definition log_add :: "nat \<Rightarrow> nat list \<Rightarrow> nat list" where
  "log_add b bs = (if b \<in> set bs then bs else bs @ [b])"

lemma log_add_scan:
  "(case find_idx (\<lambda>x. x = b) bs of Some k \<Rightarrow> bs[k := b] | None \<Rightarrow> bs @ [b]) = log_add b bs"
proof (cases "find_idx (\<lambda>x. x = b) bs")
  case None
  then have "b \<notin> set bs" by (auto simp: find_idx_None)
  with None show ?thesis by (simp add: log_add_def)
next
  case (Some k)
  then have "k < length bs" "bs ! k = b" by (simp_all add: find_idx_Some)
  with Some show ?thesis by (auto simp: log_add_def list_update_same_conv)
qed

lemma set_log_add [simp]: "set (log_add b bs) = insert b (set bs)"
  by (auto simp: log_add_def)

lemma distinct_log_add [simp]: "distinct (log_add b bs) = distinct bs"
  by (auto simp: log_add_def)

lemma length_log_add: "length (log_add b bs) \<le> length bs + 1"
  by (simp add: log_add_def)

lemma dirty_mark:
  assumes inv: "bio_inv s" and h: "held s i b"
  defines "t \<equiv> upd_buf i (\<lambda>u. u\<lparr>b_dirty := True\<rparr>) s"
  shows "bio_inv t" "held t = held s" "cview_of t = (cview_of s)\<lparr>v_dirty := (dirty_at s)(b := True)\<rparr>"
proof -
  let ?f = "\<lambda>u :: buf. u\<lparr>b_dirty := True\<rparr>"
  from h have live: "live_at s i b" and busy: "b_busy (bufs s ! i)" by (auto simp: held_def)
  note lo = live_at_ok [OF inv live] and vl = view_live [OF inv live]
  have nliv: "\<not> live_at s j b" if "j \<noteq> i" for j
    using bio_invD(5) [OF inv _ live] that by blast
  have liv: "live_at s i c \<longleftrightarrow> c = b" for c using live by (auto simp: live_at_def)
  show invt: "bio_inv t"
    unfolding t_def
  proof (rule bio_inv_upd_buf [OF inv lo(1)])
    show "buf_ok s (?f (bufs s ! i))" using lo busy by (simp add: buf_ok_def)
    show "\<forall>j. j \<noteq> i \<longrightarrow> \<not> live_at s j (b_blockno (?f (bufs s ! i)))" using nliv lo(4) by simp
  qed
  have nb: "live_at t = live_at s" "\<And>j. b_busy (bufs t ! j) = b_busy (bufs s ! j)"
    using lo(2) by (auto simp: t_def live_at_def fun_eq_iff nth_list_update)
  then show "held t = held s" by (simp add: held_def fun_eq_iff)
  have "view t c = view s c" for c
    unfolding t_def view_upd_buf [OF inv lo(1) invt [unfolded t_def]]
    using lo(3,4) by (cases "c = b") (simp_all add: liv vl)
  moreover have "dirty_at t c = ((dirty_at s)(b := True)) c" for c
  proof -
    have ds: "dirty_at s c \<longleftrightarrow> c = b \<and> b_dirty (bufs s ! i) \<or> (\<exists>j. j \<noteq> i \<and> live_at s j c \<and> b_dirty (bufs s ! j))"
      unfolding dirty_at_def by (subst ex_live_split [where i = i]) (simp add: liv)
    show ?thesis
      using nliv lo(3,4) by (cases "c = b") (auto simp: ds t_def dirty_at_upd_buf [OF inv lo(1)])
  qed
  moreover have "busy_at t = busy_at s" by (simp add: busy_at_def nb fun_eq_iff)
  ultimately show "cview_of t = (cview_of s)\<lparr>v_dirty := (dirty_at s)(b := True)\<rparr>"
    by (auto simp: cview_of_iff fun_eq_iff t_def)
qed

lemma txn_log_write:
  assumes t: "txn s" and h: "held s i b" and rm: "room s 1" and out: "b \<notin> log_area s"
  obtains u where "log_write i s = Ret () u" "txn u" "held u = held s"
    "bio_only (s\<lparr>lh := log_add b (lh s)\<rparr>) u"
    "cview_of u = (cview_of s)\<lparr>v_dirty := (dirty_at s)(b := True)\<rparr>" "nheld u = nheld s"
proof -
  have inv: "log_inv s" using t by (simp add: txn_def)
  note i = log_invD [OF inv] and g = log_geoD [OF log_invD(1) [OF inv]]
  let ?s1 = "s\<lparr>lh := log_add b (lh s)\<rparr>"
  let ?u = "upd_buf i (\<lambda>u. u\<lparr>b_dirty := True\<rparr>) ?s1"
  have live: "live_at s i b" using h by (simp add: held_def)
  note lo = live_at_ok [OF g(1) live]
  have "bio_inv ?s1" "held ?s1 i b" using g(1) h by simp_all
  note dm = dirty_mark [OF this]
  have "log_write i s = Ret () ?u"
    using rm i(9) t lo(4)
    by (simp add: log_write_def kbind_def getbuf_def modbuf_def log_add_scan room_def txn_def)
  moreover have "log_inv ?u"
    using inv dm(1) length_log_add [of b "lh s"] rm out lo(6) cview_of_eqD(5) [OF dm(3)] g
    by (auto simp: log_inv_def log_geo_def log_area_def room_def upd_buf_def fun_eq_iff)
  then have "txn ?u" using t by (simp add: txn_def upd_buf_def)
  moreover have "nheld ?u = nheld s"
    using cview_of_eqD(4) [OF dm(3)] by (simp add: nheld_def)
  ultimately show ?thesis using dm by (intro that [of ?u]) simp_all
qed

text \<open>The two idioms of the comment in \<open>log.c\<close>: read a block, and read, modify, log and release it.\<close>

definition block_read :: "nat \<Rightarrow> nat \<Rightarrow> ('a log_state_scheme, byte list) kern" where
  "block_read dev b =
     kbind (bread dev b) (\<lambda>bp.
     kbind (bdata bp) (\<lambda>d.
     kbind (brelse bp) (\<lambda>_.
     kret d)))"

definition block_update :: "nat \<Rightarrow> nat \<Rightarrow> (byte list \<Rightarrow> byte list) \<Rightarrow> ('a log_state_scheme, unit) kern" where
  "block_update dev b f =
     kbind (bread dev b) (\<lambda>bp.
     kbind (bset bp f) (\<lambda>_.
     kbind (log_write bp) (\<lambda>_.
     brelse bp)))"

text \<open>
  The frame of an operation of the file system on the cache and the log: besides the block
  contents it may change only buffers, wakeups and the header list, and it returns with the
  same buffers held.
\<close>

definition tx_frame :: "'a log_state_scheme \<Rightarrow> 'a log_state_scheme \<Rightarrow> bool" where
  "tx_frame s t \<longleftrightarrow> txn t \<and> bio_only (s\<lparr>lh := lh t\<rparr>) t \<and> busy_at t = busy_at s \<and> disk t = disk s \<and>
     disk_log t = disk_log s \<and> (\<forall>i c. held s i c \<longrightarrow> held t i c)"

lemma bio_only_lh_trans:
  assumes "bio_only (s\<lparr>lh := lh t\<rparr>) t" "bio_only (t\<lparr>lh := lh u\<rparr>) u"
  shows "bio_only (s\<lparr>lh := lh u\<rparr>) u"
proof -
  have "bio_only (s\<lparr>lh := lh u\<rparr>) (t\<lparr>lh := lh u\<rparr>)"
    using bio_only_lh [OF assms(1), of "lh u"] by simp
  from bio_only_trans [OF this assms(2)] show ?thesis .
qed

lemma tx_frame_trans: "tx_frame s t \<Longrightarrow> tx_frame t u \<Longrightarrow> tx_frame s u"
  unfolding tx_frame_def by (auto intro: bio_only_lh_trans)

lemma tx_frame_refl: "txn s \<Longrightarrow> tx_frame s s"
  by (simp add: tx_frame_def)

lemma tx_frame_sel:
  assumes "tx_frame s t"
  shows "txn t" "disksize t = disksize s" "log_area t = log_area s" "lg_size t = lg_size s"
    "busy_at t = busy_at s" "nheld t = nheld s" "disk t = disk s" "disk_log t = disk_log s" "pages t = pages s"
    "freelist t = freelist s" "outstanding t = outstanding s" "committing t = committing s"
  using assms bio_only_log [of "s\<lparr>lh := lh t\<rparr>" t] bio_only_sel [of "s\<lparr>lh := lh t\<rparr>" t]
  by (auto simp: tx_frame_def log_area_def nheld_def)

text \<open>A block the transaction may use: it exists, nobody holds it and it is not part of the log.\<close>

definition usable :: "'a log_state_scheme \<Rightarrow> nat \<Rightarrow> bool" where
  "usable s b \<longleftrightarrow> b < disksize s \<and> \<not> busy_at s b \<and> b \<notin> log_area s"

lemma usable_frame: "tx_frame s t \<Longrightarrow> usable t b = usable s b"
  using tx_frame_sel [of s t] by (simp add: usable_def)

lemma room_slots: "txn s \<Longrightarrow> room s (nheld s) \<Longrightarrow> length (lh s) + nheld s < NBUF"
  using LOGSIZE_NBUF by (auto simp: txn_def room_def log_inv_def log_geo_def)

lemma txn_view_disk:
  assumes "txn s" "\<not> busy_at s b"
  shows "dirty_at s b \<or> view s b = disk s b"
  using view_clean [OF log_geoD(1) [OF log_invD(1)], of s b] assms by (auto simp: txn_def)

lemma txn_length_view: "txn s \<Longrightarrow> b < disksize s \<Longrightarrow> length (view s b) = BSIZE"
  using length_view by (auto simp: txn_def log_inv_def log_geo_def)

lemma block_read_ok:
  assumes t: "txn s" and b: "b < disksize s" "\<not> busy_at s b" and rm: "room s (nheld s)"
  shows "\<exists>u. block_read ROOTDEV b s = Ret (view s b) u \<and> tx_frame s u \<and> lh u = lh s \<and> view u = view s"
proof -
  obtain i s1 where s1: "bread ROOTDEV b s = Ret i s1" "txn s1" "held s1 i b" "bio_only s s1"
    "cview_of s1 = (cview_of s)\<lparr>v_busy := (busy_at s)(b := True)\<rparr>" "keeps_held s s1 i" "\<And>c. \<not> held s i c"
    "b_data (bufs s1 ! i) = view s b" "nheld s1 = nheld s + 1"
    by (rule txn_bread [OF t b room_slots [OF t rm]]) (rule that)
  note c1 = cview_of_eqD [OF s1(5), simplified]
  obtain u where u: "brelse i s1 = Ret () u" "txn u" "keeps_held s1 u i" "bio_only s1 u"
    "cview_of u = (cview_of s1)\<lparr>v_busy := (busy_at s1)(b := False)\<rparr>"
    using txn_brelse [OF s1(2,3)] txn_view_disk [OF t b(2)] by (auto simp: c1)
  note c2 = cview_of_eqD [OF u(5), simplified, unfolded c1]
  have "(busy_at s)(b := True, b := False) = busy_at s" using b(2) by (auto simp: fun_eq_iff)
  moreover have "held u j c" if "held s j c" for j c
    using that s1(6,7) u(3) unfolding keeps_held_def by metis
  moreover have "bio_only s u" by (rule bio_only_trans [OF s1(4) u(4)])
  moreover have "lh u = lh s" by (simp add: bio_only_log [OF u(4)] bio_only_log [OF s1(4)])
  ultimately have "tx_frame s u" using u(2) c2 by (simp add: tx_frame_def)
  moreover have "block_read ROOTDEV b s = Ret (view s b) u"
    by (simp add: block_read_def kbind_def s1(1) bdata_def s1(8) u(1) kret_def)
  ultimately show ?thesis using c2(1) \<open>lh u = lh s\<close> by blast
qed

lemma block_update_ok:
  assumes t: "txn s" and b: "usable s b" and rm: "room s (nheld s)" "room s 1" and l: "length (f (view s b)) = BSIZE"
  shows "\<exists>u. block_update ROOTDEV b f s = Ret () u \<and> tx_frame s u \<and> lh u = log_add b (lh s) \<and>
    view u = (view s)(b := f (view s b))"
proof -
  have b': "b < disksize s" "\<not> busy_at s b" "b \<notin> log_area s" using b by (auto simp: usable_def)
  obtain i s1 where s1: "bread ROOTDEV b s = Ret i s1" "txn s1" "held s1 i b" "bio_only s s1"
    "cview_of s1 = (cview_of s)\<lparr>v_busy := (busy_at s)(b := True)\<rparr>" "keeps_held s s1 i" "\<And>c. \<not> held s i c"
    by (rule txn_bread [OF t b'(1,2) room_slots [OF t rm(1)]]) (rule that)
  note c1 = cview_of_eqD [OF s1(5), simplified] and o1 = bio_only_log [OF s1(4)]
  obtain s2 where s2: "bset i f s1 = Ret () s2" "txn s2" "held s2 = held s1" "bio_only s1 s2"
    "cview_of s2 = (cview_of s1)\<lparr>v_data := (view s1)(b := f (view s1 b))\<rparr>"
    using txn_bset [OF s1(2,3), of f] l c1(1) by metis
  note c2 = cview_of_eqD [OF s2(5), simplified, unfolded c1] and o2 = bio_only_log [OF s2(4)]
  have "held s2 i b" "room s2 1" "b \<notin> log_area s2"
    using s1(3) s2(3) rm(2) b'(3) by (simp_all add: room_def o2 o1 log_area_def)
  then obtain s3 where s3: "log_write i s2 = Ret () s3" "txn s3" "held s3 = held s2"
    "bio_only (s2\<lparr>lh := log_add b (lh s2)\<rparr>) s3"
    "cview_of s3 = (cview_of s2)\<lparr>v_dirty := (dirty_at s2)(b := True)\<rparr>"
    by (rule txn_log_write [OF s2(2)]) (rule that)
  note c3 = cview_of_eqD [OF s3(5), simplified, unfolded c2]
  have "held s3 i b" "dirty_at s3 b \<or> view s3 b = disk s3 b" using s1(3) s2(3) s3(3) by (simp_all add: c3)
  then obtain u where u: "brelse i s3 = Ret () u" "txn u" "keeps_held s3 u i" "bio_only s3 u"
    "cview_of u = (cview_of s3)\<lparr>v_busy := (busy_at s3)(b := False)\<rparr>"
    by (rule txn_brelse [OF s3(2)]) (rule that)
  note c4 = cview_of_eqD [OF u(5), simplified, unfolded c3]
  have lu: "lh u = log_add b (lh s)"
    by (simp add: bio_only_log [OF u(4)] bio_only_log [OF s3(4)] o2 o1)
  have "bio_only (s\<lparr>lh := lh u\<rparr>) u"
    using bio_only_trans [OF bio_only_trans [OF bio_only_lh [OF bio_only_trans [OF s1(4) s2(4)]] s3(4)] u(4)]
    by (simp add: lu o2 o1)
  moreover have "(busy_at s)(b := True, b := False) = busy_at s" using b'(2) by (auto simp: fun_eq_iff)
  moreover have "held u j c" if "held s j c" for j c
    using that s1(6,7) s2(3) s3(3) u(3) unfolding keeps_held_def by metis
  ultimately have "tx_frame s u" using u(2) c4 by (simp add: tx_frame_def)
  moreover have "block_update ROOTDEV b f s = Ret () u"
    by (simp add: block_update_def kbind_def s1(1) s2(1) s3(1) u(1))
  ultimately show ?thesis using c4(1) lu by blast
qed

subsection \<open>The block store the file system is written against\<close>

text \<open>
  The contract of the two idioms. \<open>ready s n\<close>: the state is inside a transaction that can still log
  \<open>n\<close> blocks; \<open>addr s b\<close>: block \<open>b\<close> may be used; \<open>conts s b\<close>: its contents.
\<close>

locale block_store =
  fixes rd :: "nat \<Rightarrow> ('s, byte list) kern"
    and upd :: "nat \<Rightarrow> (byte list \<Rightarrow> byte list) \<Rightarrow> ('s, unit) kern"
    and ready :: "'s \<Rightarrow> nat \<Rightarrow> bool" and addr :: "'s \<Rightarrow> nat \<Rightarrow> bool" and conts :: "'s \<Rightarrow> nat \<Rightarrow> byte list"
    and frame :: "'s \<Rightarrow> 's \<Rightarrow> bool"
  assumes rd_law: "ready s n \<Longrightarrow> addr s b \<Longrightarrow>
      \<exists>t. rd b s = Ret (conts s b) t \<and> frame s t \<and> ready t n \<and> conts t = conts s"
    and upd_law: "ready s (Suc n) \<Longrightarrow> addr s b \<Longrightarrow> length (f (conts s b)) = BSIZE \<Longrightarrow>
      \<exists>t. upd b f s = Ret () t \<and> frame s t \<and> ready t n \<and> conts t = (conts s)(b := f (conts s b))"
    and addr_frame: "frame s t \<Longrightarrow> addr t b = addr s b"
    and frame_trans: "frame s t \<Longrightarrow> frame t u \<Longrightarrow> frame s u"
    and conts_length: "ready s n \<Longrightarrow> addr s b \<Longrightarrow> length (conts s b) = BSIZE"
begin

lemma rd_kok: "ready s n \<Longrightarrow> addr s b \<Longrightarrow>
  kok (rd b) s (\<lambda>d t. d = conts s b \<and> frame s t \<and> ready t n \<and> conts t = conts s)"
  using rd_law [of s n b] by (auto simp: kok_def)

lemma upd_kok: "ready s (Suc n) \<Longrightarrow> addr s b \<Longrightarrow> length (f (conts s b)) = BSIZE \<Longrightarrow>
  kok (upd b f) s (\<lambda>_ t. frame s t \<and> ready t n \<and> conts t = (conts s)(b := f (conts s b)))"
  using upd_law [of s n b f] by (auto simp: kok_def)

text \<open>A sequence of updates is applied in order, and needs one place in the log for each.\<close>

lemma upd_seq:
  assumes "ready s (length us + n)" "\<forall>(b, f)\<in>set us. addr s b \<and> (\<forall>d. length d = BSIZE \<longrightarrow> length (f d) = BSIZE)"
  shows "us \<noteq> [] \<Longrightarrow> kok (fold (\<lambda>(b, f) m. kbind m (\<lambda>_. upd b f)) us (kret ())) s
    (\<lambda>_ t. frame s t \<and> ready t n \<and> conts t = fold (\<lambda>(b, f) c. c(b := f (c b))) us (conts s))"
  using assms
proof (induction us arbitrary: n rule: rev_induct)
  case (snoc u us)
  obtain b f where u: "u = (b, f)" by fastforce
  have b: "addr s b" "\<And>d. length d = BSIZE \<Longrightarrow> length (f d) = BSIZE" using snoc.prems(3) u by auto
  show ?case
  proof (cases "us = []")
    case True
    then show ?thesis
      using upd_kok [of s n b f] b conts_length [of s "Suc n" b] snoc.prems(2) by (simp add: u kok_rules del: fun_upd_apply)
  next
    case False
    have "kok (fold (\<lambda>(b, f) m. kbind m (\<lambda>_. upd b f)) us (kret ())) s
      (\<lambda>_ t. frame s t \<and> ready t (Suc n) \<and> conts t = fold (\<lambda>(b, f) c. c(b := f (c b))) us (conts s))"
      using snoc.prems by (intro snoc.IH False) auto
    then obtain r where r: "fold (\<lambda>(b, f) m. kbind m (\<lambda>_. upd b f)) us (kret ()) s = Ret () r" "frame s r"
      "ready r (Suc n)" "conts r = fold (\<lambda>(b, f) c. c(b := f (c b))) us (conts s)"
      by (auto simp: kok_def)
    have "addr r b" using b(1) addr_frame [OF r(2)] by simp
    moreover have "length (f (conts r b)) = BSIZE"
      using b(2) conts_length [OF r(3) \<open>addr r b\<close>] by simp
    ultimately obtain t where "upd b f r = Ret () t" "frame r t" "ready t n" "conts t = (conts r)(b := f (conts r b))"
      using upd_law [OF r(3)] by blast
    with r show ?thesis
      using frame_trans [OF r(2)] by (auto simp: u kok_def kbind_eq_Ret simp del: fun_upd_apply)
  qed
qed simp

end

definition tx_ready :: "'a log_state_scheme \<Rightarrow> nat \<Rightarrow> bool" where
  "tx_ready s n \<longleftrightarrow> txn s \<and> nheld s + length (lh s) + n < lg_size s"

lemma tx_ready_step:
  assumes "tx_ready s (Suc n)" "tx_frame s t" "lh t = log_add b (lh s)"
  shows "tx_ready t n"
proof -
  have "length (lh t) \<le> length (lh s) + 1" using assms(3) length_log_add by simp
  then show ?thesis
    using assms(1) tx_frame_sel [OF assms(2)] by (auto simp: tx_ready_def room_def)
qed

interpretation fsblocks: block_store "block_read ROOTDEV" "block_update ROOTDEV" tx_ready usable view tx_frame
proof
  fix s :: "'a log_state_scheme" and n b
  assume r: "tx_ready s n" and u: "usable s b"
  then have "txn s" "room s (nheld s)" by (auto simp: tx_ready_def room_def)
  then obtain t where t: "block_read ROOTDEV b s = Ret (view s b) t" "tx_frame s t" "lh t = lh s" "view t = view s"
    using block_read_ok [of s b] u by (auto simp: usable_def)
  moreover have "tx_ready t n"
    using r tx_frame_sel [OF t(2)] t(3) by (simp add: tx_ready_def room_def)
  ultimately show "\<exists>t. block_read ROOTDEV b s = Ret (view s b) t \<and> tx_frame s t \<and> tx_ready t n \<and> view t = view s"
    by blast
  show "length (view s b) = BSIZE"
    using txn_length_view [OF \<open>txn s\<close>, of b] u by (simp add: usable_def)
next
  fix s :: "'a log_state_scheme" and n b and f :: "byte list \<Rightarrow> byte list"
  assume r: "tx_ready s (Suc n)" and u: "usable s b" and l: "length (f (view s b)) = BSIZE"
  then have "txn s" "room s (nheld s)" "room s 1" by (auto simp: tx_ready_def room_def)
  then obtain t where t: "block_update ROOTDEV b f s = Ret () t" "tx_frame s t" "lh t = log_add b (lh s)"
    "view t = (view s)(b := f (view s b))"
    using block_update_ok u l by blast
  with tx_ready_step [OF r t(2,3)]
  show "\<exists>t. block_update ROOTDEV b f s = Ret () t \<and> tx_frame s t \<and> tx_ready t n \<and> view t = (view s)(b := f (view s b))"
    by blast
qed (erule usable_frame, erule (1) tx_frame_trans)

subsection \<open>Whole transactions\<close>







end
