(* ===== verification/Strings.thy ===== *)
theory Strings
  imports Prelude
begin

text \<open>
  The memory and string routines of the kernel, \<open>string.c\<close>, and of the user library, \<open>ulib.c\<close>.
  Memory is a function from addresses to bytes, because \<open>memmove\<close> is about overlapping
  objects; pointers do not wrap. The \<open>rep stos\<close> instructions of \<open>x86.h\<close> are the functions \<open>stosb\<close> and
  \<open>stosl\<close>. The read-only routines of \<open>ulib.c\<close> take a C string as the list of its characters; reading
  at or past the end gives the terminator.
\<close>

type_synonym mem = "nat \<Rightarrow> byte"

fun stosb :: "mem \<Rightarrow> nat \<Rightarrow> byte \<Rightarrow> nat \<Rightarrow> mem" where
  "stosb m d c 0 = m"
| "stosb m d c (Suc n) = stosb (m(d := c)) (d + 1) c n"

definition put32 :: "mem \<Rightarrow> nat \<Rightarrow> 32 word \<Rightarrow> mem" where
  "put32 m d w = m(d := ucast w, d + 1 := ucast (drop_bit 8 w), d + 2 := ucast (drop_bit 16 w),
     d + 3 := ucast (drop_bit 24 w))"

fun stosl :: "mem \<Rightarrow> nat \<Rightarrow> 32 word \<Rightarrow> nat \<Rightarrow> mem" where
  "stosl m d w 0 = m"
| "stosl m d w (Suc n) = stosl (put32 m d w) (d + 4) w n"

definition memset :: "mem \<Rightarrow> nat \<Rightarrow> 32 word \<Rightarrow> nat \<Rightarrow> mem" where
  "memset m dst c n =
     (if dst mod 4 = 0 \<and> n mod 4 = 0 then
        (let c = c AND 0xFF
         in stosl m dst (push_bit 24 c OR push_bit 16 c OR push_bit 8 c OR c) (n div 4))
      else stosb m dst (ucast c) n)"

fun memcmp :: "mem \<Rightarrow> nat \<Rightarrow> nat \<Rightarrow> nat \<Rightarrow> int" where
  "memcmp m s1 s2 0 = 0"
| "memcmp m s1 s2 (Suc n) =
     (if m s1 \<noteq> m s2 then uint (m s1) - uint (m s2) else memcmp m (s1 + 1) (s2 + 1) n)"

text \<open>The two copy loops: \<open>d\<close> and \<open>s\<close> count up, or \<open>d + n\<close> and \<open>s + n\<close> count down.\<close>

fun copy_up :: "mem \<Rightarrow> nat \<Rightarrow> nat \<Rightarrow> nat \<Rightarrow> mem" where
  "copy_up m d s 0 = m"
| "copy_up m d s (Suc n) = copy_up (m(d := m s)) (d + 1) (s + 1) n"

fun copy_down :: "mem \<Rightarrow> nat \<Rightarrow> nat \<Rightarrow> nat \<Rightarrow> mem" where
  "copy_down m d s 0 = m"
| "copy_down m d s (Suc n) = copy_down (m(d + n := m (s + n))) d s n"

definition memmove :: "mem \<Rightarrow> nat \<Rightarrow> nat \<Rightarrow> nat \<Rightarrow> mem" where
  "memmove m dst src n = (if src < dst \<and> src + n > dst then copy_down m dst src n else copy_up m dst src n)"

definition memcpy :: "mem \<Rightarrow> nat \<Rightarrow> nat \<Rightarrow> nat \<Rightarrow> mem" where
  "memcpy m dst src n = memmove m dst src n"

fun strncmp :: "mem \<Rightarrow> nat \<Rightarrow> nat \<Rightarrow> nat \<Rightarrow> int" where
  "strncmp m p q 0 = 0"
| "strncmp m p q (Suc n) =
     (if m p \<noteq> 0 \<and> m p = m q then strncmp m (p + 1) (q + 1) n else uint (m p) - uint (m q))"

text \<open>\<open>strncpy\<close>: copy up to and including the terminator, then fill the rest with zeros.\<close>

fun strncpy :: "mem \<Rightarrow> nat \<Rightarrow> nat \<Rightarrow> nat \<Rightarrow> mem" where
  "strncpy m s t 0 = m"
| "strncpy m s t (Suc n) =
     (let m' = m(s := m t)
      in if m t \<noteq> 0 then strncpy m' (s + 1) (t + 1) n else stosb m' (s + 1) 0 n)"

fun safestrcpy_loop :: "mem \<Rightarrow> nat \<Rightarrow> nat \<Rightarrow> nat \<Rightarrow> mem" where
  "safestrcpy_loop m s t 0 = m(s := 0)"
| "safestrcpy_loop m s t (Suc n) =
     (let m' = m(s := m t)
      in if m t \<noteq> 0 then safestrcpy_loop m' (s + 1) (t + 1) n else m'(s + 1 := 0))"

definition safestrcpy :: "mem \<Rightarrow> nat \<Rightarrow> nat \<Rightarrow> int \<Rightarrow> mem" where
  "safestrcpy m s t n = (if n \<le> 0 then m else safestrcpy_loop m s t (nat n - 1))"

text \<open>\<open>strlen\<close> ends only if there is a terminator.\<close>

partial_function (option) strlen_from :: "mem \<Rightarrow> nat \<Rightarrow> nat \<Rightarrow> nat option" where
  "strlen_from m s n = (if m (s + n) = 0 then Some n else strlen_from m s (n + 1))"

definition strlen :: "mem \<Rightarrow> nat \<Rightarrow> nat option" where
  "strlen m s = strlen_from m s 0"

subsection \<open>ulib.c\<close>

partial_function (option) strcpy :: "mem \<Rightarrow> nat \<Rightarrow> nat \<Rightarrow> mem option" where
  "strcpy m s t = (let m' = m(s := m t) in if m t \<noteq> 0 then strcpy m' (s + 1) (t + 1) else Some m')"

text \<open>The character a pointer into a C string points at.\<close>

definition deref :: "byte list \<Rightarrow> byte" where
  "deref s = (case s of [] \<Rightarrow> 0 | c # _ \<Rightarrow> c)"

fun strcmp :: "byte list \<Rightarrow> byte list \<Rightarrow> int" where
  "strcmp (c # p) q = (if c \<noteq> 0 \<and> c = deref q then strcmp p (tl q) else uint c - uint (deref q))"
| "strcmp [] q = - uint (deref q)"

definition umemset :: "mem \<Rightarrow> nat \<Rightarrow> 32 word \<Rightarrow> nat \<Rightarrow> mem" where
  "umemset m dst c n = stosb m dst (ucast c) n"

text \<open>\<open>strchr\<close> returns the rest of the string from the first occurrence, or the null pointer.\<close>

fun strchr :: "byte list \<Rightarrow> byte \<Rightarrow> byte list option" where
  "strchr [] c = None"
| "strchr (x # s) c = (if x = 0 then None else if x = c then Some (x # s) else strchr s c)"

text \<open>
  \<open>gets\<close>: each call \<open>read(0, &c, 1)\<close> delivers the next byte of the input, or nothing at its end. The
  result is the text in \<open>buf\<close> before the terminator, and the unread input.
\<close>

fun gets_loop :: "byte list \<Rightarrow> nat \<Rightarrow> byte list \<Rightarrow> byte list \<times> byte list" where
  "gets_loop buf 0 inp = (buf, inp)"
| "gets_loop buf (Suc k) [] = (buf, [])"
| "gets_loop buf (Suc k) (c # inp) =
     (if c = 10 \<or> c = 13 then (buf @ [c], inp) else gets_loop (buf @ [c]) k inp)"

definition gets :: "nat \<Rightarrow> byte list \<Rightarrow> byte list \<times> byte list" where
  "gets max_len inp = gets_loop [] (max_len - 1) inp"

fun atoi_from :: "int \<Rightarrow> byte list \<Rightarrow> int" where
  "atoi_from n [] = n"
| "atoi_from n (c # s) = (if 48 \<le> c \<and> c \<le> 57 then atoi_from (n * 10 + uint c - 48) s else n)"

definition atoi :: "byte list \<Rightarrow> int" where
  "atoi s = atoi_from 0 s"

definition umemmove :: "mem \<Rightarrow> nat \<Rightarrow> nat \<Rightarrow> nat \<Rightarrow> mem" where
  "umemmove m dst src n = copy_up m dst src n"

subsection \<open>Correctness\<close>

lemma copy_up_spec:
  "d \<le> s \<or> s + n \<le> d \<Longrightarrow> copy_up m d s n a = (if d \<le> a \<and> a < d + n then m (s + (a - d)) else m a)"
proof (induction n arbitrary: m d s)
  case (Suc n)
  have "copy_up (m(d := m s)) (d + 1) (s + 1) n a =
      (if d + 1 \<le> a \<and> a < d + 1 + n then (m(d := m s)) (s + 1 + (a - (d + 1))) else (m(d := m s)) a)"
    using Suc.prems by (intro Suc.IH) auto
  moreover have "s + 1 + (a - (d + 1)) = s + (a - d)" if "d + 1 \<le> a" using that by simp
  ultimately show ?case using Suc.prems by auto
qed auto

lemma copy_down_spec:
  "s \<le> d \<Longrightarrow> copy_down m d s n a = (if d \<le> a \<and> a < d + n then m (s + (a - d)) else m a)"
proof (induction n arbitrary: m)
  case (Suc n)
  have "copy_down (m(d + n := m (s + n))) d s n a =
      (if d \<le> a \<and> a < d + n then (m(d + n := m (s + n))) (s + (a - d)) else (m(d + n := m (s + n))) a)"
    using Suc.prems by (rule Suc.IH)
  then show ?case using Suc.prems by auto
qed auto

text \<open>
  C24. \<open>memmove\<close> copies correctly however the two objects overlap: the destination receives the bytes
  the source had before the call, and no other byte changes. \<open>memcpy\<close> does the same, and the user
  library's \<open>memmove\<close>, which always copies upwards, does so when the destination does not start
  inside the source.
\<close>

theorem memmove_spec:
  "memmove m dst src n = (\<lambda>a. if dst \<le> a \<and> a < dst + n then m (src + (a - dst)) else m a) \<and>
   memcpy m dst src n = memmove m dst src n \<and>
   (dst \<le> src \<or> src + n \<le> dst \<longrightarrow> umemmove m dst src n = memmove m dst src n)"
proof -
  have "memmove m dst src n = (\<lambda>a. if dst \<le> a \<and> a < dst + n then m (src + (a - dst)) else m a)"
    unfolding memmove_def by (auto simp: fun_eq_iff copy_down_spec copy_up_spec)
  then show ?thesis
    by (auto simp: memcpy_def umemmove_def copy_up_spec fun_eq_iff)
qed

theorem memmove_spec_witness:
  "memmove (\<lambda>a. of_nat a) 101 100 3 102 = 101 \<and>
   umemmove (\<lambda>a. of_nat a) 100 101 3 = memmove (\<lambda>a. of_nat a) 100 101 3"
  using memmove_spec [of "\<lambda>a. of_nat a" 101 100 3] memmove_spec [of "\<lambda>a. of_nat a" 100 101 3] by simp

lemma stosb_spec: "stosb m d c n a = (if d \<le> a \<and> a < d + n then c else m a)"
  by (induction n arbitrary: m d) auto

lemma bytes_of_fill:
  fixes c :: "32 word"
  assumes "c' = c AND 0xFF" "w = push_bit 24 c' OR push_bit 16 c' OR push_bit 8 c' OR c'"
  shows "(ucast w :: byte) = ucast c" "(ucast (drop_bit 8 w) :: byte) = ucast c"
    "(ucast (drop_bit 16 w) :: byte) = ucast c" "(ucast (drop_bit 24 w) :: byte) = ucast c"
proof -
  have ff: "bit (0xFF :: 32 word) k \<longleftrightarrow> k < 8" for k
  proof -
    have "(0xFF :: 32 word) = mask 8" by (simp add: mask_eq_exp_minus_1)
    then show ?thesis by (simp only: bit_mask_iff) auto
  qed
  have b: "bit c' k \<longleftrightarrow> k < 8 \<and> bit c k" for k
    by (simp only: assms(1) bit_and_iff ff conj_commute)
  show "(ucast w :: byte) = ucast c" "(ucast (drop_bit 8 w) :: byte) = ucast c"
    "(ucast (drop_bit 16 w) :: byte) = ucast c" "(ucast (drop_bit 24 w) :: byte) = ucast c"
    by (rule bit_word_eqI, auto simp: assms(2) bit_simps b)+
qed

lemma stosl_spec:
  assumes "c' = c AND 0xFF" "w = push_bit 24 c' OR push_bit 16 c' OR push_bit 8 c' OR c'"
  shows "stosl m d w n a = (if d \<le> a \<and> a < d + 4 * n then ucast c else m a)"
proof (induction n arbitrary: m d)
  case (Suc n)
  note f = bytes_of_fill [OF assms]
  have p: "put32 m d w x = (if d \<le> x \<and> x < d + 4 then ucast c else m x)" for x
  proof -
    have "d \<le> x \<and> x < d + 4 \<longleftrightarrow> x = d \<or> x = d + 1 \<or> x = d + 2 \<or> x = d + 3" by auto
    then show ?thesis by (auto simp: put32_def f)
  qed
  show ?case by (simp add: Suc.IH p)
qed auto

text \<open>
  C25. \<open>memset\<close> fills exactly the bytes of the range with the low byte of \<open>c\<close>, by words when the
  address and the length are multiples of four and by bytes otherwise.
\<close>

theorem memset_spec:
  "memset m dst c n = (\<lambda>a. if dst \<le> a \<and> a < dst + n then ucast c else m a)"
proof
  fix a
  show "memset m dst c n a = (if dst \<le> a \<and> a < dst + n then ucast c else m a)"
  proof (cases "dst mod 4 = 0 \<and> n mod 4 = 0")
    case True
    then have "4 * (n div 4) = n" by (metis add.right_neutral mult_div_mod_eq)
    then show ?thesis
      by (simp only: memset_def if_P [OF True] Let_def stosl_spec [OF refl refl])
  next
    case False
    then show ?thesis by (simp only: memset_def if_not_P [OF False] if_False stosb_spec)
  qed
qed

lemma memcmp_zero: "memcmp m p q n = 0 \<longleftrightarrow> (\<forall>i<n. m (p + i) = m (q + i))"
proof (induction n arbitrary: p q)
  case (Suc n)
  have "(\<forall>i<Suc n. m (p + i) = m (q + i)) \<longleftrightarrow> m p = m q \<and> (\<forall>i<n. m (p + 1 + i) = m (q + 1 + i))"
    by (simp add: All_less_Suc2)
  then show ?case using Suc.IH [of "p + 1" "q + 1"] by (auto simp: word_uint_eq_iff)
qed simp

lemma strncmp_zero:
  "strncmp m p q n = 0 \<longleftrightarrow> (\<forall>i<n. (\<forall>j<i. m (p + j) \<noteq> 0) \<longrightarrow> m (p + i) = m (q + i))"
proof (induction n arbitrary: p q)
  case (Suc n)
  have "(\<forall>i<Suc n. (\<forall>j<i. m (p + j) \<noteq> 0) \<longrightarrow> m (p + i) = m (q + i)) \<longleftrightarrow>
      m p = m q \<and> (\<forall>i<n. m p \<noteq> 0 \<and> (\<forall>j<i. m (p + 1 + j) \<noteq> 0) \<longrightarrow> m (p + 1 + i) = m (q + 1 + i))"
    by (simp add: All_less_Suc2)
  then show ?case using Suc.IH [of "p + 1" "q + 1"] by (auto simp: word_uint_eq_iff)
qed simp

lemma strncpy_frame: "a < s \<or> s + n \<le> a \<Longrightarrow> strncpy m s t n a = m a"
proof (induction n arbitrary: m s t)
  case (Suc n)
  then show ?case by (auto simp: Let_def stosb_spec)
qed simp

lemma strncpy_at:
  "s + n \<le> t \<or> t + n \<le> s \<Longrightarrow> k < n \<Longrightarrow>
   strncpy m s t n (s + k) = (if \<exists>j<k. m (t + j) = 0 then 0 else m (t + k))"
proof (induction n arbitrary: m s t k)
  case (Suc n)
  let ?m = "m(s := m t)"
  have same: "?m (t + 1 + j) = m (t + 1 + j)" if "j < n" for j
    using that Suc.prems(1) by auto
  show ?case
  proof (cases k)
    case 0
    then show ?thesis by (simp add: Let_def strncpy_frame stosb_spec)
  next
    case (Suc i)
    then have i: "i < n" using Suc.prems(2) by simp
    show ?thesis
    proof (cases "m t = 0")
      case True
      then show ?thesis using Suc i by (auto simp: stosb_spec Let_def Ex_less_Suc2)
    next
      case False
      have "strncpy ?m (s + 1) (t + 1) n (s + 1 + i) = (if \<exists>j<i. ?m (t + 1 + j) = 0 then 0 else ?m (t + 1 + i))"
        using Suc.prems(1) i by (intro Suc.IH) auto
      moreover have "(\<exists>j<i. ?m (t + 1 + j) = 0) \<longleftrightarrow> (\<exists>j<i. m (t + 1 + j) = 0)"
        using same i by (metis less_trans)
      ultimately show ?thesis
        using False Suc same [OF i] by (simp add: Let_def Ex_less_Suc2) blast
    qed
  qed
qed simp

lemma safestrcpy_loop_spec:
  "s + Suc n \<le> t \<or> t + Suc n \<le> s \<Longrightarrow>
   (\<exists>k\<le>n. safestrcpy_loop m s t n (s + k) = 0 \<and> (k = n \<or> m (t + k) = 0) \<and>
      (\<forall>i<k. m (t + i) \<noteq> 0 \<and> safestrcpy_loop m s t n (s + i) = m (t + i))) \<and>
   (\<forall>a. a < s \<or> s + Suc n \<le> a \<longrightarrow> safestrcpy_loop m s t n a = m a)"
proof (induction n arbitrary: m s t)
  case (Suc n)
  let ?m = "m(s := m t)"
  let ?r = "safestrcpy_loop m s t (Suc n)"
  show ?case
  proof (cases "m t = 0")
    case True
    then show ?thesis by (auto simp: Let_def intro!: exI [of _ 0])
  next
    case False
    then have r: "?r = safestrcpy_loop ?m (s + 1) (t + 1) n" by (simp add: Let_def)
    have ih: "(\<exists>k\<le>n. safestrcpy_loop ?m (s + 1) (t + 1) n (s + 1 + k) = 0 \<and> (k = n \<or> ?m (t + 1 + k) = 0) \<and>
        (\<forall>i<k. ?m (t + 1 + i) \<noteq> 0 \<and> safestrcpy_loop ?m (s + 1) (t + 1) n (s + 1 + i) = ?m (t + 1 + i))) \<and>
      (\<forall>a. a < s + 1 \<or> s + 1 + Suc n \<le> a \<longrightarrow> safestrcpy_loop ?m (s + 1) (t + 1) n a = ?m a)"
      using Suc.prems by (intro Suc.IH) auto
    then obtain k where k: "k \<le> n" "?r (s + 1 + k) = 0" "k = n \<or> ?m (t + 1 + k) = 0"
      "\<forall>i<k. ?m (t + 1 + i) \<noteq> 0 \<and> ?r (s + 1 + i) = ?m (t + 1 + i)" unfolding r by blast
    have fr: "\<forall>a. a < s + 1 \<or> s + 1 + Suc n \<le> a \<longrightarrow> ?r a = ?m a" using ih unfolding r by blast
    have same: "?m (t + 1 + j) = m (t + 1 + j)" if "j \<le> n" for j using that Suc.prems by auto
    have "\<forall>i<Suc k. m (t + i) \<noteq> 0 \<and> ?r (s + i) = m (t + i)"
      using k(1,4) same False fr by (simp add: All_less_Suc2)
    then have "\<exists>k\<le>Suc n. ?r (s + k) = 0 \<and> (k = Suc n \<or> m (t + k) = 0) \<and> (\<forall>i<k. m (t + i) \<noteq> 0 \<and> ?r (s + i) = m (t + i))"
      using k(1-3) same [OF k(1)] by (intro exI [of _ "Suc k"]) auto
    moreover have "\<forall>a. a < s \<or> s + Suc (Suc n) \<le> a \<longrightarrow> ?r a = m a" using fr by simp
    ultimately show ?thesis by blast
  qed
qed simp

lemma strlen_from_Some:
  "(\<forall>i. n \<le> i \<and> i < k \<longrightarrow> m (s + i) \<noteq> 0) \<Longrightarrow> m (s + k) = 0 \<Longrightarrow> n \<le> k \<Longrightarrow> strlen_from m s n = Some k"
proof (induction "k - n" arbitrary: n)
  case 0
  then show ?case by (simp add: strlen_from.simps)
next
  case (Suc x)
  then have "n < k" "m (s + n) \<noteq> 0" by auto
  moreover have "strlen_from m s (n + 1) = Some k" using Suc \<open>n < k\<close> by auto
  ultimately show ?case by (subst strlen_from.simps) simp
qed

lemma strlen_from_sound:
  "strlen_from m s n = Some k \<Longrightarrow> n \<le> k \<and> m (s + k) = 0 \<and> (\<forall>i. n \<le> i \<and> i < k \<longrightarrow> m (s + i) \<noteq> 0)"
proof (induction m s n k rule: strlen_from.raw_induct [rotated, consumes 1, case_names step])
  case (step f m s n k)
  show ?case
  proof (cases "m (s + n) = 0")
    case True
    with step(2) show ?thesis by auto
  next
    case False
    with step have "n + 1 \<le> k \<and> m (s + k) = 0 \<and> (\<forall>i. n + 1 \<le> i \<and> i < k \<longrightarrow> m (s + i) \<noteq> 0)" by auto
    moreover have "m (s + i) \<noteq> 0" if "n \<le> i" "i < k" for i
      using that False calculation by (cases "i = n") auto
    ultimately show ?thesis by auto
  qed
qed

text \<open>
  C26. The bounded string copies of the kernel. For objects that do not overlap: \<open>strncmp\<close> returns zero
  exactly when the first \<open>n\<close> characters agree up to the first terminator; \<open>strncpy\<close> writes exactly
  \<open>n\<close> bytes, the string followed by zeros; and \<open>safestrcpy\<close> writes only inside the \<open>n\<close> bytes of
  the destination and leaves there a terminated prefix of the source, cut only if the source is
  longer than \<open>n - 1\<close> characters.
\<close>

theorem bounded_copies:
  assumes apart: "s + n \<le> t \<or> t + n \<le> s"
  shows "(strncmp m s t n = 0 \<longleftrightarrow> (\<forall>i<n. (\<forall>j<i. m (s + j) \<noteq> 0) \<longrightarrow> m (s + i) = m (t + i))) \<and>
    (\<forall>k<n. strncpy m s t n (s + k) = (if \<exists>j<k. m (t + j) = 0 then 0 else m (t + k))) \<and>
    (\<forall>a. a < s \<or> s + n \<le> a \<longrightarrow> strncpy m s t n a = m a \<and> safestrcpy m s t (int n) a = m a) \<and>
    (0 < n \<longrightarrow> (\<exists>k<n. safestrcpy m s t (int n) (s + k) = 0 \<and> (k = n - 1 \<or> m (t + k) = 0) \<and>
      (\<forall>i<k. m (t + i) \<noteq> 0 \<and> safestrcpy m s t (int n) (s + i) = m (t + i))))"
proof (cases n)
  case 0
  then show ?thesis by (simp add: safestrcpy_def)
next
  case (Suc p)
  have r: "safestrcpy m s t (int n) = safestrcpy_loop m s t p" using Suc by (simp add: safestrcpy_def nat_add_distrib)
  have "s + Suc p \<le> t \<or> t + Suc p \<le> s" using apart Suc by simp
  note sc = safestrcpy_loop_spec [OF this, of m]
  have "\<exists>k<n. safestrcpy m s t (int n) (s + k) = 0 \<and> (k = n - 1 \<or> m (t + k) = 0) \<and>
      (\<forall>i<k. m (t + i) \<noteq> 0 \<and> safestrcpy m s t (int n) (s + i) = m (t + i))"
    unfolding r using conjunct1 [OF sc] by (simp only: Suc less_Suc_eq_le diff_Suc_1)
  moreover have "safestrcpy m s t (int n) a = m a" if "a < s \<or> s + n \<le> a" for a
    unfolding r using conjunct2 [OF sc] that by (simp only: Suc)
  ultimately show ?thesis
    by (intro conjI allI impI) (simp_all only: strncmp_zero strncpy_at [OF apart] strncpy_frame)
qed

theorem bounded_copies_witness:
  "let m = (\<lambda>a. if a = 20 then 97 else if a = 21 then 98 else (0 :: byte)) in
    strncpy m 0 20 3 1 = 98 \<and> strncmp m 0 20 3 \<noteq> 0 \<and>
    (\<exists>k<2. safestrcpy m 0 20 (int 2) (0 + k) = 0)"
proof -
  let ?m = "\<lambda>a :: nat. if a = 20 then 97 else if a = 21 then 98 else (0 :: byte)"
  have "\<exists>k<2. safestrcpy ?m 0 20 (int 2) (0 + k) = 0"
    using bounded_copies [of 0 2 20 ?m] by auto
  moreover have "strncpy ?m 0 20 3 (0 + 1) = 98"
    using bounded_copies [of 0 3 20 ?m] by simp
  moreover have "strncmp ?m 0 20 3 \<noteq> 0"
    using bounded_copies [of 0 3 20 ?m] by auto
  ultimately show ?thesis by (simp add: Let_def)
qed

text \<open>
  C27. \<open>strlen\<close> returns exactly when the string has a terminator, and then the position of the first
  one; otherwise its loop does not end.
\<close>

theorem strlen_spec:
  "(strlen m s = Some k \<longleftrightarrow> m (s + k) = 0 \<and> (\<forall>i<k. m (s + i) \<noteq> 0)) \<and>
   (strlen m s = None \<longleftrightarrow> (\<forall>i. m (s + i) \<noteq> 0))"
proof -
  have a: "strlen m s = Some k \<longleftrightarrow> m (s + k) = 0 \<and> (\<forall>i<k. m (s + i) \<noteq> 0)" for k
    using strlen_from_sound [of m s 0 k] strlen_from_Some [of 0 k m s] by (auto simp: strlen_def)
  have "strlen m s \<noteq> None" if "m (s + i) = 0" for i
  proof -
    have "m (s + (LEAST i. m (s + i) = 0)) = 0" using that by (rule LeastI)
    moreover have "\<forall>j<(LEAST i. m (s + i) = 0). m (s + j) \<noteq> 0" using not_less_Least by blast
    ultimately show ?thesis using a by (metis option.distinct(1))
  qed
  with a show ?thesis by (metis not_None_eq)
qed

theorem strlen_spec_witness:
  "strlen (\<lambda>a. if a < 12 then 65 else 0) 10 = Some 2"
  using strlen_spec [of "\<lambda>a. if a < 12 then 65 else 0" 10 2] by simp

end
