(* ===== verification/Printf.thy ===== *)
theory Printf
  imports Strings
begin

text \<open>
  Formatted output: \<open>printint\<close> and \<open>cprintf\<close> of \<open>console.c\<close> and their user-level counterparts in
  \<open>printf.c\<close>. Both are modelled as the characters they emit. An argument is the word on the stack
  together with the string at that address, for \<open>%s\<close>. Taking more arguments than were passed is
  undefined in C and gives None.
\<close>

definition str :: "string \<Rightarrow> byte list" where
  "str s = map of_char s"

type_synonym parg = "32 word \<times> byte list"

definition pint :: "32 word \<Rightarrow> parg" where
  "pint w = (w, [])"

text \<open>A string argument; its address is not null.\<close>

definition pstr :: "byte list \<Rightarrow> parg" where
  "pstr s = (1, s)"

text \<open>The loop of \<open>printint\<close> that fills \<open>buf\<close>, lowest digit first; the callers pass base 10 or 16.\<close>

function digits_rev :: "(nat \<Rightarrow> byte) \<Rightarrow> nat \<Rightarrow> nat \<Rightarrow> byte list" where
  "digits_rev digit base x =
     digit (x mod base) # (if base < 2 \<or> x div base = 0 then [] else digits_rev digit base (x div base))"
  by pat_completeness auto
termination
proof (relation "measure (\<lambda>(digit, base, x). x)")
  fix digit :: "nat \<Rightarrow> byte" and base x :: nat
  assume "\<not> (base < 2 \<or> x div base = 0)"
  then have "1 < base" "0 < x" by (auto intro: gr0I)
  then show "((digit, base, x div base), digit, base, x) \<in> measure (\<lambda>(digit, base, x). x)" by simp
qed simp

declare digits_rev.simps [simp del]

definition lower_digit :: "nat \<Rightarrow> byte" where
  "lower_digit d = str ''0123456789abcdef'' ! d"

definition upper_digit :: "nat \<Rightarrow> byte" where
  "upper_digit d = str ''0123456789ABCDEF'' ! d"

text \<open>The value printed: the absolute value of a negative number, in 32 bits, when \<open>sign\<close> is set.\<close>

definition printint_buf :: "(nat \<Rightarrow> byte) \<Rightarrow> 32 word \<Rightarrow> nat \<Rightarrow> bool \<Rightarrow> byte list" where
  "printint_buf digit xx base sign =
     (let neg = (sign \<and> sint xx < 0); x = (if neg then - xx else xx)
      in digits_rev digit base (unat x) @ (if neg then [45] else []))"

definition printint :: "32 word \<Rightarrow> nat \<Rightarrow> bool \<Rightarrow> byte list" where
  "printint xx base sign = rev (printint_buf lower_digit xx base sign)"

definition uprintint :: "32 word \<Rightarrow> nat \<Rightarrow> bool \<Rightarrow> byte list" where
  "uprintint xx base sign = rev (printint_buf upper_digit xx base sign)"

definition percent :: byte where "percent = 37"

text \<open>\<open>cprintf\<close> from character \<open>i\<close> of the format on.\<close>

fun cprintf_from :: "byte list \<Rightarrow> parg list \<Rightarrow> byte list option" where
  "cprintf_from [] args = Some []"
| "cprintf_from (c # fmt) args =
     (if c \<noteq> percent then map_option (Cons c) (cprintf_from fmt args)
      else case fmt of
        [] \<Rightarrow> Some []
      | d # rest \<Rightarrow>
          (if d = 100 then (case args of [] \<Rightarrow> None | a # as \<Rightarrow> map_option ((@) (printint (fst a) 10 True)) (cprintf_from rest as))
           else if d = 120 \<or> d = 112 then
             (case args of [] \<Rightarrow> None | a # as \<Rightarrow> map_option ((@) (printint (fst a) 16 False)) (cprintf_from rest as))
           else if d = 115 then
             (case args of [] \<Rightarrow> None
              | a # as \<Rightarrow> map_option ((@) (if fst a = 0 then str ''(null)'' else snd a)) (cprintf_from rest as))
           else if d = percent then map_option (Cons percent) (cprintf_from rest args)
           else map_option (\<lambda>out. percent # d # out) (cprintf_from rest args)))"

text \<open>\<open>printf\<close> of \<open>printf.c\<close>: a machine with two states, after \<open>%\<close> or not.\<close>

fun printf_from :: "bool \<Rightarrow> byte list \<Rightarrow> parg list \<Rightarrow> byte list option" where
  "printf_from st [] args = Some []"
| "printf_from st (c # fmt) args =
     (if \<not> st then
        (if c = percent then printf_from True fmt args
         else map_option (Cons c) (printf_from False fmt args))
      else if c = 100 then
        (case args of [] \<Rightarrow> None | a # as \<Rightarrow> map_option ((@) (uprintint (fst a) 10 True)) (printf_from False fmt as))
      else if c = 120 \<or> c = 112 then
        (case args of [] \<Rightarrow> None | a # as \<Rightarrow> map_option ((@) (uprintint (fst a) 16 False)) (printf_from False fmt as))
      else if c = 115 then
        (case args of [] \<Rightarrow> None
         | a # as \<Rightarrow> map_option ((@) (if fst a = 0 then str ''(null)'' else snd a)) (printf_from False fmt as))
      else if c = 99 then
        (case args of [] \<Rightarrow> None | a # as \<Rightarrow> map_option (Cons (ucast (fst a))) (printf_from False fmt as))
      else if c = percent then map_option (Cons c) (printf_from False fmt args)
      else map_option (\<lambda>out. percent # c # out) (printf_from False fmt args))"

definition cprintf_str :: "string \<Rightarrow> parg list \<Rightarrow> byte list option" where
  "cprintf_str fmt args = cprintf_from (str fmt) args"

definition printf :: "string \<Rightarrow> parg list \<Rightarrow> byte list option" where
  "printf fmt args = printf_from False (str fmt) args"

text \<open>The kernel's \<open>cprintf\<close>, which passes the characters to \<open>consputc\<close>.\<close>

definition cprintf :: "string \<Rightarrow> parg list \<Rightarrow> ('a kbase_scheme, unit) kern" where
  "cprintf fmt args =
     (case cprintf_str fmt args of
        None \<Rightarrow> kpanic ''undefined: missing argument''
      | Some out \<Rightarrow> kmod (\<lambda>s. s\<lparr>cons_out := cons_out s @ map uint out\<rparr>))"

subsection \<open>Correctness\<close>

lemma digits_rev_len: "x < 10 ^ Suc n \<Longrightarrow> length (digits_rev d 10 x) \<le> Suc n"
proof (induction n arbitrary: x)
  case 0
  then show ?case by (simp add: digits_rev.simps)
next
  case (Suc n)
  then have "x div 10 < 10 ^ Suc n" by (simp add: less_mult_imp_div_less)
  from Suc.IH [OF this] show ?case by (subst digits_rev.simps) auto
qed

lemma lower_digit_dec: "d < 10 \<Longrightarrow> lower_digit d = 48 + of_nat d"
  and upper_digit_dec: "d < 10 \<Longrightarrow> upper_digit d = 48 + of_nat d"
proof -
  have "list_all (\<lambda>d. lower_digit d = 48 + of_nat d \<and> upper_digit d = 48 + of_nat d) [0..<10]" by code_simp
  then show "d < 10 \<Longrightarrow> lower_digit d = 48 + of_nat d" "d < 10 \<Longrightarrow> upper_digit d = 48 + of_nat d"
    by (simp_all add: list_all_iff)
qed

lemma abs_word_nat: "int (unat (if sint w < 0 then - w else w)) = \<bar>sint w\<bar>" for w :: "32 word"
proof -
  have s: "sint w = (uint w + 2 ^ 31) mod 2 ^ 32 - 2 ^ 31"
    by (simp add: sint_uint signed_take_bit_eq_take_bit_shift take_bit_eq_mod)
  have u: "0 \<le> uint w" "uint w < 2 ^ 32" using uint_lt2p [of w] by simp_all
  show ?thesis
  proof (cases "uint w < 2 ^ 31")
    case True
    then show ?thesis using u s by simp
  next
    case False
    then have e: "sint w = uint w - 2 ^ 32" using u s by (simp add: mod_pos_geq)
    moreover have "uint (- w) = 2 ^ 32 - uint w"
      using False u by (simp add: uint_word_ariths zmod_zminus1_eq_if)
    ultimately show ?thesis using u by simp
  qed
qed

lemma digits_rev_hex_len: "x < 16 ^ Suc n \<Longrightarrow> length (digits_rev d 16 x) \<le> Suc n"
proof (induction n arbitrary: x)
  case 0
  then show ?case by (simp add: digits_rev.simps)
next
  case (Suc n)
  then have "x div 16 < 16 ^ Suc n" by (simp add: less_mult_imp_div_less)
  from Suc.IH [OF this] show ?case by (subst digits_rev.simps) auto
qed

lemma atoi_from_append: "list_all (\<lambda>c. 48 \<le> c \<and> c \<le> 57) xs \<Longrightarrow> atoi_from n (xs @ ys) = atoi_from (atoi_from n xs) ys"
  by (induction xs arbitrary: n) auto

lemma dec_digit:
  assumes "d < 10" "digit d = (48 + of_nat d :: byte)"
  shows "48 \<le> digit d" "digit d \<le> 57" "uint (digit d) = 48 + int d"
proof -
  have u: "uint (digit d) = 48 + int d"
  proof -
    have "unat (48 + of_nat d :: byte) = 48 + d"
      using assms(1) by (simp add: unat_word_ariths unsigned_of_nat take_bit_eq_mod)
    moreover have "uint (digit d) = int (unat (digit d))" by simp
    ultimately show ?thesis by (simp only: assms(2))
  qed
  then show "uint (digit d) = 48 + int d" .
  show "48 \<le> digit d" "digit d \<le> 57" using u assms(1) by (simp_all only: word_le_def) simp_all
qed

lemma atoi_digits:
  assumes "\<And>d. d < 10 \<Longrightarrow> digit d = (48 + of_nat d :: byte)"
  shows "list_all (\<lambda>c. 48 \<le> c \<and> c \<le> 57) (digits_rev digit 10 x) \<and> atoi_from 0 (rev (digits_rev digit 10 x)) = int x"
proof (induction x rule: less_induct)
  case (less x)
  have m: "x mod 10 < 10" by simp
  note dd = dec_digit [of _ digit, OF m assms [OF m]]
  show ?case
  proof (cases "x div 10 = 0")
    case True
    then show ?thesis using dd by (subst (1 2) digits_rev.simps) simp
  next
    case False
    then have "x div 10 < x" by simp
    note ih = less.IH [OF this]
    have e: "digits_rev digit 10 x = digit (x mod 10) # digits_rev digit 10 (x div 10)"
      using False by (subst digits_rev.simps) simp
    have "list_all (\<lambda>c. 48 \<le> c \<and> c \<le> 57) (rev (digits_rev digit 10 (x div 10)))"
      using ih by (simp add: list_all_iff)
    then have "atoi_from 0 (rev (digits_rev digit 10 x)) = int (x div 10) * 10 + int (x mod 10)"
      using ih dd by (simp add: e atoi_from_append)
    also have "\<dots> = int x" by (simp add: zdiv_int zmod_int)
    finally show ?thesis using ih dd e by simp
  qed
qed

lemma digits_rev_last_digit:
  assumes "\<And>d. d < 10 \<Longrightarrow> digit d = (48 + of_nat d :: byte)"
  shows "45 \<notin> set (digits_rev digit 10 x)"
  using atoi_digits [OF assms, of x] by (auto simp: list_all_iff)


text \<open>The directive letters of a format.\<close>

fun directives :: "byte list \<Rightarrow> byte list" where
  "directives [] = []"
| "directives [c] = []"
| "directives (c # d # fmt) = (if c = percent then d # directives fmt else directives (d # fmt))"

lemma digits_rev_cong: "(\<And>d. d < 10 \<Longrightarrow> f d = g d) \<Longrightarrow> digits_rev f 10 x = digits_rev g 10 x"
proof (induction x rule: less_induct)
  case (less x)
  then show ?case
    by (subst (1 2) digits_rev.simps) (auto simp: div_greater_zero_iff)
qed

lemma uprintint_dec: "uprintint w 10 b = printint w 10 b"
  using digits_rev_cong [of upper_digit lower_digit]
  by (simp add: uprintint_def printint_def printint_buf_def lower_digit_dec upper_digit_dec Let_def)



end
