(* ===== verification/Fs.thy ===== *)
theory Fs
  imports Log Printf
begin

text \<open>
  The file system, \<open>fs.c\<close>: block allocation, the inode cache, file contents, directories and paths.
  A pointer to an in-memory inode is its index in \<open>icache\<close>. Block numbers and sizes are natural
  numbers below \<open>2 ^ 32\<close>; where the code's unsigned sums may wrap, the wrap is written out. The
  device switch \<open>devsw\<close> is a table of function pointers filled by the drivers, and is a parameter
  of \<open>readi\<close> and \<open>writei\<close>. A user or kernel buffer that a routine fills is returned as the list of the
  bytes written to it.
\<close>

record inode =
  i_dev :: nat
  i_inum :: nat
  i_ref :: int
  i_busy :: bool
  i_valid :: bool
  i_type :: "16 word"
  i_major :: "16 word"
  i_minor :: "16 word"
  i_nlink :: "16 word"
  i_size :: nat
  i_addrs :: "nat list"

record fs_state = log_state +
  fs_sb :: superblock
  icache :: "inode list"

definition T_DIR :: "16 word" where "T_DIR = 1"
definition T_FILE :: "16 word" where "T_FILE = 2"
definition T_DEV :: "16 word" where "T_DEV = 3"

definition IBLOCK :: "nat \<Rightarrow> superblock \<Rightarrow> nat" where
  "IBLOCK i sb = i div IPB + sb_inodestart sb"

definition BBLOCK :: "nat \<Rightarrow> superblock \<Rightarrow> nat" where
  "BBLOCK b sb = b div BPB + sb_bmapstart sb"

definition getinode :: "nat \<Rightarrow> ('a fs_state_scheme, inode) kern" where
  "getinode ip = kget (\<lambda>s. icache s ! ip)"

definition modinode :: "nat \<Rightarrow> (inode \<Rightarrow> inode) \<Rightarrow> ('a fs_state_scheme, unit) kern" where
  "modinode ip f = kmod (\<lambda>s. s\<lparr>icache := (icache s)[ip := f (icache s ! ip)]\<rparr>)"

lemma inode_step [kstep]:
  "kbind (getinode k) g s = g (icache s ! k) s"
  "kbind (modinode k f) h s = h () (s\<lparr>icache := (icache s)[k := f (icache s ! k)]\<rparr>)"
  by (simp_all add: getinode_def modinode_def kstep)

subsection \<open>Blocks\<close>

definition bzero :: "nat \<Rightarrow> nat \<Rightarrow> ('a fs_state_scheme, unit) kern" where
  "bzero dev bno =
     kbind (bread dev bno) (\<lambda>bp.
     kbind (bset bp (\<lambda>_. replicate BSIZE 0)) (\<lambda>_.
     kbind (log_write bp) (\<lambda>_.
     brelse bp)))"

definition bit_used :: "byte list \<Rightarrow> nat \<Rightarrow> bool" where
  "bit_used d bi \<longleftrightarrow> d ! (bi div 8) AND push_bit (bi mod 8) 1 \<noteq> 0"

definition mark_bit :: "nat \<Rightarrow> byte list \<Rightarrow> byte list" where
  "mark_bit bi d = d[bi div 8 := d ! (bi div 8) OR push_bit (bi mod 8) 1]"

definition clear_bit :: "nat \<Rightarrow> byte list \<Rightarrow> byte list" where
  "clear_bit bi d = d[bi div 8 := d ! (bi div 8) AND NOT (push_bit (bi mod 8) 1)]"

text \<open>The outer loop of \<open>balloc\<close> from block \<open>b\<close> on; the inner loop is the search for the first clear bit.\<close>

function balloc_from :: "nat \<Rightarrow> superblock \<Rightarrow> nat \<Rightarrow> ('a fs_state_scheme, nat) kern" where
  "balloc_from dev sb b =
     (if b < sb_size sb then
        kbind (bread dev (BBLOCK b sb)) (\<lambda>bp.
        kbind (bdata bp) (\<lambda>d.
        case find (\<lambda>bi. \<not> bit_used d bi) [0..<min BPB (sb_size sb - b)] of
          Some bi \<Rightarrow>
            kbind (bset bp (mark_bit bi)) (\<lambda>_.
            kbind (log_write bp) (\<lambda>_.
            kbind (brelse bp) (\<lambda>_.
            kbind (bzero dev (b + bi)) (\<lambda>_.
            kret (b + bi)))))
        | None \<Rightarrow> kbind (brelse bp) (\<lambda>_. balloc_from dev sb (b + BPB))))
      else kpanic ''balloc: out of blocks'')"
  by pat_completeness auto
termination
  by (relation "measure (\<lambda>(dev, sb, b). sb_size sb - b)") (auto simp: BPB_def BSIZE_def)

declare balloc_from.simps [simp del]

definition balloc :: "nat \<Rightarrow> ('a fs_state_scheme, nat) kern" where
  "balloc dev = kbind (kget fs_sb) (\<lambda>sb. balloc_from dev sb 0)"

definition bfree :: "nat \<Rightarrow> nat \<Rightarrow> ('a fs_state_scheme, unit) kern" where
  "bfree dev b =
     kbind (readsb dev) (\<lambda>sb'.
     kbind (kmod (\<lambda>s. s\<lparr>fs_sb := sb'\<rparr>)) (\<lambda>_.
     kbind (bread dev (BBLOCK b sb')) (\<lambda>bp.
     kbind (bdata bp) (\<lambda>d.
     if \<not> bit_used d (b mod BPB) then kpanic ''freeing free block''
     else
       kbind (bset bp (clear_bit (b mod BPB))) (\<lambda>_.
       kbind (log_write bp) (\<lambda>_.
       brelse bp))))))"

subsection \<open>Inodes\<close>

definition iinit :: "nat \<Rightarrow> ('a fs_state_scheme, unit) kern" where
  "iinit dev =
     kbind (readsb dev) (\<lambda>sb'.
     kbind (kmod (\<lambda>s. s\<lparr>fs_sb := sb'\<rparr>)) (\<lambda>_.
     cprintf (''sb: size %d nblocks %d ninodes %d nlog %d logstart %d inodestart %d bmap start %d'' @ [CHR 0x0A])
       (map (\<lambda>n. pint (of_nat n)) [sb_size sb', sb_nblocks sb', sb_ninodes sb', sb_nlog sb', sb_logstart sb',
          sb_inodestart sb', sb_bmapstart sb'])))"

text \<open>The fields of \<open>struct dinode\<close> number \<open>k\<close> of an inode block.\<close>

record dinode =
  di_type :: "16 word"
  di_major :: "16 word"
  di_minor :: "16 word"
  di_nlink :: "16 word"
  di_size :: nat
  di_addrs :: "nat list"

definition get_dinode :: "nat \<Rightarrow> byte list \<Rightarrow> dinode" where
  "get_dinode k d = (let p = 64 * k in
     \<lparr>di_type = load16 d p, di_major = load16 d (p + 2), di_minor = load16 d (p + 4), di_nlink = load16 d (p + 6),
      di_size = unat (load32 d (p + 8)), di_addrs = map (\<lambda>i. unat (load32 d (p + 12 + 4 * i))) [0..<NDIRECT + 1]\<rparr>)"

definition enc_dinode :: "dinode \<Rightarrow> byte list" where
  "enc_dinode di = enc16 (di_type di) @ enc16 (di_major di) @ enc16 (di_minor di) @ enc16 (di_nlink di) @
     enc32 (of_nat (di_size di)) @ concat (map (\<lambda>a. enc32 (of_nat a)) (di_addrs di))"

definition put_dinode :: "nat \<Rightarrow> dinode \<Rightarrow> byte list \<Rightarrow> byte list" where
  "put_dinode k di d = splice_at (64 * k) (enc_dinode di) d"

definition iget :: "nat \<Rightarrow> nat \<Rightarrow> ('a fs_state_scheme, nat) kern" where
  "iget dev inum =
     kbind (kget icache) (\<lambda>ic.
     case find_idx (\<lambda>ip. i_ref ip > 0 \<and> i_dev ip = dev \<and> i_inum ip = inum) ic of
       Some k \<Rightarrow> kbind (modinode k (\<lambda>ip. ip\<lparr>i_ref := i_ref ip + 1\<rparr>)) (\<lambda>_. kret k)
     | None \<Rightarrow>
        (case find_idx (\<lambda>ip. i_ref ip = 0) ic of
           None \<Rightarrow> kpanic ''iget: no inodes''
         | Some k \<Rightarrow>
             kbind (modinode k (\<lambda>ip. ip\<lparr>i_dev := dev, i_inum := inum, i_ref := 1, i_busy := False, i_valid := False\<rparr>)) (\<lambda>_.
             kret k)))"

text \<open>The loop of \<open>ialloc\<close> over the inode numbers still to try.\<close>

fun ialloc_from :: "nat \<Rightarrow> 16 word \<Rightarrow> superblock \<Rightarrow> nat list \<Rightarrow> ('a fs_state_scheme, nat) kern" where
  "ialloc_from dev ty sb [] = kpanic ''ialloc: no inodes''"
| "ialloc_from dev ty sb (inum # rest) =
     kbind (bread dev (IBLOCK inum sb)) (\<lambda>bp.
     kbind (bdata bp) (\<lambda>d.
     if di_type (get_dinode (inum mod IPB) d) = 0 then
       kbind (bset bp (put_dinode (inum mod IPB)
         \<lparr>di_type = ty, di_major = 0, di_minor = 0, di_nlink = 0, di_size = 0, di_addrs = replicate (NDIRECT + 1) 0\<rparr>)) (\<lambda>_.
       kbind (log_write bp) (\<lambda>_.
       kbind (brelse bp) (\<lambda>_.
       iget dev inum)))
     else kbind (brelse bp) (\<lambda>_. ialloc_from dev ty sb rest)))"

definition ialloc :: "nat \<Rightarrow> 16 word \<Rightarrow> ('a fs_state_scheme, nat) kern" where
  "ialloc dev ty = kbind (kget fs_sb) (\<lambda>sb. ialloc_from dev ty sb [1..<sb_ninodes sb])"

definition dinode_of :: "inode \<Rightarrow> dinode" where
  "dinode_of ip = \<lparr>di_type = i_type ip, di_major = i_major ip, di_minor = i_minor ip, di_nlink = i_nlink ip,
     di_size = i_size ip, di_addrs = i_addrs ip\<rparr>"

definition iupdate :: "nat \<Rightarrow> ('a fs_state_scheme, unit) kern" where
  "iupdate k =
     kbind (getinode k) (\<lambda>ip.
     kbind (kget fs_sb) (\<lambda>sb.
     kbind (bread (i_dev ip) (IBLOCK (i_inum ip) sb)) (\<lambda>bp.
     kbind (bset bp (put_dinode (i_inum ip mod IPB) (dinode_of ip))) (\<lambda>_.
     kbind (log_write bp) (\<lambda>_.
     brelse bp)))))"

definition idup :: "nat \<Rightarrow> ('a fs_state_scheme, nat) kern" where
  "idup k = kbind (modinode k (\<lambda>ip. ip\<lparr>i_ref := i_ref ip + 1\<rparr>)) (\<lambda>_. kret k)"

definition load_dinode :: "dinode \<Rightarrow> inode \<Rightarrow> inode" where
  "load_dinode di ip = ip\<lparr>i_type := di_type di, i_major := di_major di, i_minor := di_minor di, i_nlink := di_nlink di,
     i_size := di_size di, i_addrs := di_addrs di\<rparr>"

definition ilock :: "nat \<Rightarrow> ('a fs_state_scheme, unit) kern" where
  "ilock k =
     kbind (getinode k) (\<lambda>ip.
     if i_ref ip < 1 then kpanic ''ilock''
     else if i_busy ip then ksleep (ChanInode k)
     else
       kbind (modinode k (\<lambda>ip. ip\<lparr>i_busy := True\<rparr>)) (\<lambda>_.
       if \<not> i_valid ip then
         kbind (kget fs_sb) (\<lambda>sb.
         kbind (bread (i_dev ip) (IBLOCK (i_inum ip) sb)) (\<lambda>bp.
         kbind (bdata bp) (\<lambda>d.
         kbind (modinode k (load_dinode (get_dinode (i_inum ip mod IPB) d))) (\<lambda>_.
         kbind (brelse bp) (\<lambda>_.
         kbind (modinode k (\<lambda>ip. ip\<lparr>i_valid := True\<rparr>)) (\<lambda>_.
         kbind (getinode k) (\<lambda>ip.
         if i_type ip = 0 then kpanic ''ilock: no type'' else kret ())))))))
       else kret ()))"

definition iunlock :: "nat \<Rightarrow> ('a fs_state_scheme, unit) kern" where
  "iunlock k =
     kbind (getinode k) (\<lambda>ip.
     if \<not> i_busy ip \<or> i_ref ip < 1 then kpanic ''iunlock''
     else
       kbind (modinode k (\<lambda>ip. ip\<lparr>i_busy := False\<rparr>)) (\<lambda>_.
       kwakeup (ChanInode k)))"

subsection \<open>Inode content\<close>

definition bmap :: "nat \<Rightarrow> nat \<Rightarrow> ('a fs_state_scheme, nat) kern" where
  "bmap k bn =
     kbind (getinode k) (\<lambda>ip.
     if bn < NDIRECT then
       (let addr = i_addrs ip ! bn in
        if addr = 0 then
          kbind (balloc (i_dev ip)) (\<lambda>addr.
          kbind (modinode k (\<lambda>ip. ip\<lparr>i_addrs := (i_addrs ip)[bn := addr]\<rparr>)) (\<lambda>_.
          kret addr))
        else kret addr)
     else
       (let bn = bn - NDIRECT in
        if bn < NINDIRECT then
          kbind
            (let addr = i_addrs ip ! NDIRECT in
             if addr = 0 then
               kbind (balloc (i_dev ip)) (\<lambda>addr.
               kbind (modinode k (\<lambda>ip. ip\<lparr>i_addrs := (i_addrs ip)[NDIRECT := addr]\<rparr>)) (\<lambda>_.
               kret addr))
             else kret addr) (\<lambda>addr.
          kbind (bread (i_dev ip) addr) (\<lambda>bp.
          kbind (bdata bp) (\<lambda>a.
          kbind
            (let addr = unat (load32 a (4 * bn)) in
             if addr = 0 then
               kbind (balloc (i_dev ip)) (\<lambda>addr.
               kbind (bset bp (store32 (4 * bn) (of_nat addr))) (\<lambda>_.
               kbind (log_write bp) (\<lambda>_.
               kret addr)))
             else kret addr) (\<lambda>addr.
          kbind (brelse bp) (\<lambda>_.
          kret addr)))))
        else kpanic ''bmap: out of range''))"

text \<open>The two loops of \<open>itrunc\<close>: over the direct blocks, and over the entries of the indirect block.\<close>

fun itrunc_direct :: "nat \<Rightarrow> nat list \<Rightarrow> ('a fs_state_scheme, unit) kern" where
  "itrunc_direct k [] = kret ()"
| "itrunc_direct k (i # rest) =
     kbind (getinode k) (\<lambda>ip.
     if i_addrs ip ! i \<noteq> 0 then
       kbind (bfree (i_dev ip) (i_addrs ip ! i)) (\<lambda>_.
       kbind (modinode k (\<lambda>ip. ip\<lparr>i_addrs := (i_addrs ip)[i := 0]\<rparr>)) (\<lambda>_.
       itrunc_direct k rest))
     else itrunc_direct k rest)"

fun itrunc_indirect :: "nat \<Rightarrow> byte list \<Rightarrow> nat list \<Rightarrow> ('a fs_state_scheme, unit) kern" where
  "itrunc_indirect dev a [] = kret ()"
| "itrunc_indirect dev a (j # rest) =
     (if load32 a (4 * j) \<noteq> 0 then
        kbind (bfree dev (unat (load32 a (4 * j)))) (\<lambda>_. itrunc_indirect dev a rest)
      else itrunc_indirect dev a rest)"

definition itrunc :: "nat \<Rightarrow> ('a fs_state_scheme, unit) kern" where
  "itrunc k =
     kbind (itrunc_direct k [0..<NDIRECT]) (\<lambda>_.
     kbind (getinode k) (\<lambda>ip.
     kbind
       (if i_addrs ip ! NDIRECT \<noteq> 0 then
          kbind (bread (i_dev ip) (i_addrs ip ! NDIRECT)) (\<lambda>bp.
          kbind (bdata bp) (\<lambda>a.
          kbind (itrunc_indirect (i_dev ip) a [0..<NINDIRECT]) (\<lambda>_.
          kbind (brelse bp) (\<lambda>_.
          kbind (bfree (i_dev ip) (i_addrs ip ! NDIRECT)) (\<lambda>_.
          modinode k (\<lambda>ip. ip\<lparr>i_addrs := (i_addrs ip)[NDIRECT := 0]\<rparr>))))))
        else kret ()) (\<lambda>_.
     kbind (modinode k (\<lambda>ip. ip\<lparr>i_size := 0\<rparr>)) (\<lambda>_.
     iupdate k))))"

definition iput :: "nat \<Rightarrow> ('a fs_state_scheme, unit) kern" where
  "iput k =
     kbind (getinode k) (\<lambda>ip.
     kbind
       (if i_ref ip = 1 \<and> i_valid ip \<and> i_nlink ip = 0 then
          (if i_busy ip then kpanic ''iput busy''
           else
             kbind (modinode k (\<lambda>ip. ip\<lparr>i_busy := True\<rparr>)) (\<lambda>_.
             kbind (itrunc k) (\<lambda>_.
             kbind (modinode k (\<lambda>ip. ip\<lparr>i_type := 0\<rparr>)) (\<lambda>_.
             kbind (iupdate k) (\<lambda>_.
             kbind (modinode k (\<lambda>ip. ip\<lparr>i_busy := False, i_valid := False\<rparr>)) (\<lambda>_.
             kwakeup (ChanInode k)))))))
        else kret ()) (\<lambda>_.
     modinode k (\<lambda>ip. ip\<lparr>i_ref := i_ref ip - 1\<rparr>)))"

definition iunlockput :: "nat \<Rightarrow> ('a fs_state_scheme, unit) kern" where
  "iunlockput k = kbind (iunlock k) (\<lambda>_. iput k)"

record stat =
  st_type :: "16 word"
  st_dev :: nat
  st_ino :: nat
  st_nlink :: "16 word"
  st_size :: nat

definition stati :: "nat \<Rightarrow> ('a fs_state_scheme, stat) kern" where
  "stati k = kbind (getinode k) (\<lambda>ip.
     kret \<lparr>st_type = i_type ip, st_dev = i_dev ip, st_ino = i_inum ip, st_nlink = i_nlink ip, st_size = i_size ip\<rparr>)"

text \<open>
  A device's read and write routine, as \<open>devsw\<close> holds them: the inode, the count and, for a write,
  the bytes; a read returns the count and the bytes it stored.
\<close>

type_synonym 's dev_read = "nat \<Rightarrow> nat \<Rightarrow> ('s, int \<times> byte list) kern"
type_synonym 's dev_write = "nat \<Rightarrow> byte list \<Rightarrow> nat \<Rightarrow> ('s, int) kern"

record 's devsw =
  dev_read :: "nat \<Rightarrow> 's dev_read option"
  dev_write :: "nat \<Rightarrow> 's dev_write option"

definition wrap32 :: "nat \<Rightarrow> nat" where
  "wrap32 n = n mod 2 ^ 32"

text \<open>The number of bytes one iteration of the copy loops handles.\<close>

definition chunk :: "nat \<Rightarrow> nat \<Rightarrow> nat" where
  "chunk off n = min n (BSIZE - off mod BSIZE)"

lemma chunk_pos [simp]: "0 < n \<Longrightarrow> 0 < chunk off n"
  by (simp add: chunk_def BSIZE_def)

lemma chunk_le: "chunk off n \<le> n"
  by (simp add: chunk_def)

text \<open>The loop of \<open>readi\<close>: \<open>n\<close> bytes from \<open>off\<close> on.\<close>

function readi_loop :: "nat \<Rightarrow> nat \<Rightarrow> nat \<Rightarrow> ('a fs_state_scheme, byte list) kern" where
  "readi_loop k off n =
     (if n = 0 then kret []
      else
        kbind (getinode k) (\<lambda>ip.
        kbind (bmap k (off div BSIZE)) (\<lambda>b.
        kbind (bread (i_dev ip) b) (\<lambda>bp.
        kbind (bdata bp) (\<lambda>d.
        kbind (brelse bp) (\<lambda>_.
        kbind (readi_loop k (off + chunk off n) (n - chunk off n)) (\<lambda>rest.
        kret (bslice (off mod BSIZE) (chunk off n) d @ rest))))))))"
  by pat_completeness auto
termination
  by (relation "measure (\<lambda>(k, off, n). n)") auto

declare readi_loop.simps [simp del]

definition readi :: "'a fs_state_scheme devsw \<Rightarrow> nat \<Rightarrow> nat \<Rightarrow> nat \<Rightarrow> ('a fs_state_scheme, int \<times> byte list) kern" where
  "readi dsw k off n =
     kbind (getinode k) (\<lambda>ip.
     if i_type ip = T_DEV then
       (if sint (i_major ip) < 0 \<or> sint (i_major ip) \<ge> int NDEV then kret (-1, [])
        else case dev_read dsw (unat (i_major ip)) of
          None \<Rightarrow> kret (-1, [])
        | Some rd \<Rightarrow> rd k n)
     else if off > i_size ip \<or> wrap32 (off + n) < off then kret (-1, [])
     else
       (let n = (if wrap32 (off + n) > i_size ip then i_size ip - off else n) in
        kbind (readi_loop k off n) (\<lambda>d. kret (int n, d))))"

function writei_loop :: "nat \<Rightarrow> byte list \<Rightarrow> nat \<Rightarrow> nat \<Rightarrow> ('a fs_state_scheme, unit) kern" where
  "writei_loop k src off n =
     (if n = 0 then kret ()
      else
        kbind (getinode k) (\<lambda>ip.
        kbind (bmap k (off div BSIZE)) (\<lambda>b.
        kbind (bread (i_dev ip) b) (\<lambda>bp.
        kbind (bset bp (splice_at (off mod BSIZE) (take (chunk off n) src))) (\<lambda>_.
        kbind (log_write bp) (\<lambda>_.
        kbind (brelse bp) (\<lambda>_.
        writei_loop k (drop (chunk off n) src) (off + chunk off n) (n - chunk off n))))))))"
  by pat_completeness auto
termination
  by (relation "measure (\<lambda>(k, src, off, n). n)") auto

declare writei_loop.simps [simp del]

definition writei :: "'a fs_state_scheme devsw \<Rightarrow> nat \<Rightarrow> byte list \<Rightarrow> nat \<Rightarrow> nat \<Rightarrow> ('a fs_state_scheme, int) kern" where
  "writei dsw k src off n =
     kbind (getinode k) (\<lambda>ip.
     if i_type ip = T_DEV then
       (if sint (i_major ip) < 0 \<or> sint (i_major ip) \<ge> int NDEV then kret (-1)
        else case dev_write dsw (unat (i_major ip)) of
          None \<Rightarrow> kret (-1)
        | Some wr \<Rightarrow> wr k src n)
     else if off > i_size ip \<or> wrap32 (off + n) < off then kret (-1)
     else if wrap32 (off + n) > MAXFILE * BSIZE then kret (-1)
     else
       kbind (writei_loop k src off n) (\<lambda>_.
       kbind (getinode k) (\<lambda>ip.
       kbind
         (if n > 0 \<and> off + n > i_size ip then
            kbind (modinode k (\<lambda>ip. ip\<lparr>i_size := off + n\<rparr>)) (\<lambda>_. iupdate k)
          else kret ()) (\<lambda>_.
       kret (int n)))))"

subsection \<open>Directories\<close>

text \<open>
  A C string, as the list of its characters, in memory: reading past its end gives the
  terminator. A name of a directory entry is an array of \<open>DIRSIZ\<close> bytes, terminated only when
  shorter.
\<close>

definition cstr :: "byte list \<Rightarrow> nat \<Rightarrow> byte" where
  "cstr xs i = (if i < length xs then xs ! i else 0)"

text \<open>The two strings lie next to each other in memory; \<open>strncmp\<close> reads at most \<open>DIRSIZ\<close> bytes of each.\<close>

definition namecmp :: "byte list \<Rightarrow> byte list \<Rightarrow> int" where
  "namecmp s t = strncmp (\<lambda>a. if a < DIRSIZ then cstr s a else cstr t (a - DIRSIZ)) 0 DIRSIZ DIRSIZ"

text \<open>What \<open>strncpy(de.name, name, DIRSIZ)\<close> leaves in \<open>de.name\<close>.\<close>

definition dirent_name :: "byte list \<Rightarrow> byte list" where
  "dirent_name s = map (strncpy (\<lambda>a. if a < DIRSIZ then 0 else cstr s (a - DIRSIZ)) 0 DIRSIZ DIRSIZ) [0..<DIRSIZ]"

definition DIRENT :: nat where "DIRENT = 2 + DIRSIZ"

definition de_inum :: "byte list \<Rightarrow> nat" where
  "de_inum de = unat (load16 de 0)"

definition de_name :: "byte list \<Rightarrow> byte list" where
  "de_name de = bslice 2 DIRSIZ de"

definition enc_dirent :: "nat \<Rightarrow> byte list \<Rightarrow> byte list" where
  "enc_dirent inum name = enc16 (of_nat inum) @ name"

text \<open>The loop of \<open>dirlookup\<close> over the offsets still to try: the inode and the offset of the entry.\<close>

fun dirlookup_from :: "'a fs_state_scheme devsw \<Rightarrow> nat \<Rightarrow> byte list \<Rightarrow> nat list \<Rightarrow>
    ('a fs_state_scheme, (nat \<times> nat) option) kern" where
  "dirlookup_from dsw dp name [] = kret None"
| "dirlookup_from dsw dp name (off # rest) =
     kbind (readi dsw dp off DIRENT) (\<lambda>(r, de).
     if r \<noteq> int DIRENT then kpanic ''dirlink read''
     else if de_inum de = 0 then dirlookup_from dsw dp name rest
     else if namecmp name (de_name de) = 0 then
       kbind (getinode dp) (\<lambda>ip.
       kbind (iget (i_dev ip) (de_inum de)) (\<lambda>k.
       kret (Some (k, off))))
     else dirlookup_from dsw dp name rest)"

text \<open>The offsets \<open>0, 16, ...\<close> below the size of a directory.\<close>

definition dirent_offs :: "nat \<Rightarrow> nat list" where
  "dirent_offs sz = map (\<lambda>i. i * DIRENT) [0..<(sz + DIRENT - 1) div DIRENT]"

definition dirlookup :: "'a fs_state_scheme devsw \<Rightarrow> nat \<Rightarrow> byte list \<Rightarrow>
    ('a fs_state_scheme, (nat \<times> nat) option) kern" where
  "dirlookup dsw dp name =
     kbind (getinode dp) (\<lambda>ip.
     if i_type ip \<noteq> T_DIR then kpanic ''dirlookup not DIR''
     else dirlookup_from dsw dp name (dirent_offs (i_size ip)))"

text \<open>The search of \<open>dirlink\<close> for an empty entry: its offset, or the end of the directory.\<close>

fun dirlink_slot :: "'a fs_state_scheme devsw \<Rightarrow> nat \<Rightarrow> nat list \<Rightarrow> nat \<Rightarrow> ('a fs_state_scheme, nat) kern" where
  "dirlink_slot dsw dp [] off = kret off"
| "dirlink_slot dsw dp (o1 # rest) off =
     kbind (readi dsw dp o1 DIRENT) (\<lambda>(r, de).
     if r \<noteq> int DIRENT then kpanic ''dirlink read''
     else if de_inum de = 0 then kret o1
     else dirlink_slot dsw dp rest (o1 + DIRENT))"

definition dirlink :: "'a fs_state_scheme devsw \<Rightarrow> nat \<Rightarrow> byte list \<Rightarrow> nat \<Rightarrow> ('a fs_state_scheme, int) kern" where
  "dirlink dsw dp name inum =
     kbind (dirlookup dsw dp name) (\<lambda>found.
     case found of
       Some (k, _) \<Rightarrow> kbind (iput k) (\<lambda>_. kret (-1))
     | None \<Rightarrow>
         kbind (getinode dp) (\<lambda>ip.
         kbind (dirlink_slot dsw dp (dirent_offs (i_size ip)) 0) (\<lambda>off.
         kbind (writei dsw dp (enc_dirent inum (dirent_name name)) off DIRENT) (\<lambda>r.
         if r \<noteq> int DIRENT then kpanic ''dirlink'' else kret 0))))"

subsection \<open>Paths\<close>

definition slash :: byte where "slash = 47"

text \<open>
  \<open>skipelem\<close>: the first element of the path, cut to \<open>DIRSIZ\<close> characters, and the path behind it; None
  is the null pointer.
\<close>

definition skip_slashes :: "byte list \<Rightarrow> byte list" where
  "skip_slashes p = dropWhile (\<lambda>c. c = slash) p"

definition skipelem :: "byte list \<Rightarrow> (byte list \<times> byte list) option" where
  "skipelem path =
     (let path = skip_slashes path in
      if path = [] then None
      else
        (let s = takeWhile (\<lambda>c. c \<noteq> slash) path;
             rest = dropWhile (\<lambda>c. c \<noteq> slash) path;
             len = length s;
             name = (if len \<ge> DIRSIZ then take DIRSIZ s else s)
         in Some (skip_slashes rest, name)))"

lemma skipelem_shorter: "skipelem path = Some (rest, name) \<Longrightarrow> length rest < length path"
proof -
  assume a: "skipelem path = Some (rest, name)"
  let ?p = "skip_slashes path"
  have p: "?p \<noteq> []" "rest = skip_slashes (dropWhile (\<lambda>c. c \<noteq> slash) ?p)"
    using a by (auto simp: skipelem_def Let_def split: if_splits)
  then obtain c cs where c: "?p = c # cs" by (cases ?p) auto
  then have "c \<noteq> slash" using hd_dropWhile [of "\<lambda>c. c = slash" path] by (simp add: skip_slashes_def)
  then have "length (dropWhile (\<lambda>c. c \<noteq> slash) ?p) \<le> length cs" using c by (simp add: length_dropWhile_le)
  moreover have "length rest \<le> length (dropWhile (\<lambda>c. c \<noteq> slash) ?p)"
    unfolding p skip_slashes_def by (rule length_dropWhile_le)
  moreover have "length ?p \<le> length path" unfolding skip_slashes_def by (rule length_dropWhile_le)
  ultimately show ?thesis using c by simp
qed

text \<open>The loop of \<open>namex\<close>: the inode reached so far and the rest of the path; \<open>nm\<close> is the last element copied to \<open>name\<close>.\<close>

function namex_loop :: "'a fs_state_scheme devsw \<Rightarrow> bool \<Rightarrow> nat \<Rightarrow> byte list \<Rightarrow> byte list \<Rightarrow>
    ('a fs_state_scheme, (nat \<times> byte list) option) kern" where
  "namex_loop dsw parent k path nm =
     (case skipelem path of
        None \<Rightarrow> if parent then kbind (iput k) (\<lambda>_. kret None) else kret (Some (k, nm))
      | Some (rest, name) \<Rightarrow>
          kbind (ilock k) (\<lambda>_.
          kbind (getinode k) (\<lambda>ip.
          if i_type ip \<noteq> T_DIR then kbind (iunlockput k) (\<lambda>_. kret None)
          else if parent \<and> rest = [] then kbind (iunlock k) (\<lambda>_. kret (Some (k, name)))
          else
            kbind (dirlookup dsw k name) (\<lambda>found.
            case found of
              None \<Rightarrow> kbind (iunlockput k) (\<lambda>_. kret None)
            | Some (next, _) \<Rightarrow>
                kbind (iunlockput k) (\<lambda>_. namex_loop dsw parent next rest name)))))"
  by pat_completeness auto
termination
  by (relation "measure (\<lambda>(dsw, parent, k, path, nm). length path)") (auto dest: skipelem_shorter)

declare namex_loop.simps [simp del]

definition namex :: "'a fs_state_scheme devsw \<Rightarrow> nat \<Rightarrow> byte list \<Rightarrow> bool \<Rightarrow>
    ('a fs_state_scheme, (nat \<times> byte list) option) kern" where
  "namex dsw cwd path parent =
     kbind (if path \<noteq> [] \<and> hd path = slash then iget ROOTDEV ROOTINO else idup cwd) (\<lambda>k.
     namex_loop dsw parent k path [])"

definition namei :: "'a fs_state_scheme devsw \<Rightarrow> nat \<Rightarrow> byte list \<Rightarrow> ('a fs_state_scheme, nat option) kern" where
  "namei dsw cwd path = kbind (namex dsw cwd path False) (\<lambda>r. kret (map_option fst r))"

definition nameiparent :: "'a fs_state_scheme devsw \<Rightarrow> nat \<Rightarrow> byte list \<Rightarrow>
    ('a fs_state_scheme, (nat \<times> byte list) option) kern" where
  "nameiparent dsw cwd path = namex dsw cwd path True"

end
