(* ===== verification/Balloc.thy ===== *)
theory Balloc
  imports Fs
begin

text \<open>
  The block allocator of \<open>fs.c\<close>: \<open>balloc\<close> finds the first clear bit of the bitmap, sets it and zeroes
  the block; \<open>bfree\<close> clears the bit again.
\<close>

lemma block_read_split:
  assumes "block_read dev b s = Ret d u" "\<And>bp. F bp d = kbind (brelse bp) (\<lambda>_. K)"
  shows "kbind (bread dev b) (\<lambda>bp. kbind (bdata bp) (F bp)) s = K u"
  using assms unfolding block_read_def kbind_def kret_def by (auto split: kres.splits)

lemma block_update_split:
  assumes "block_read dev b s = Ret d v" "block_update dev b f s = Ret () u"
    "\<And>bp. F bp d = kbind (bset bp f) (\<lambda>_. kbind (log_write bp) (\<lambda>_. kbind (brelse bp) (\<lambda>_. K)))"
  shows "kbind (bread dev b) (\<lambda>bp. kbind (bdata bp) (F bp)) s = K u"
  using assms unfolding block_read_def block_update_def kbind_def kret_def bdata_def
  by (auto split: kres.splits)

lemma bzero_update: "bzero dev b = block_update dev b (\<lambda>_. replicate BSIZE 0)"
  by (simp add: bzero_def block_update_def)

subsection \<open>The bitmap\<close>

lemma bit_used_bit: "bit_used d bi \<longleftrightarrow> bit (d ! (bi div 8)) (bi mod 8)"
  by (simp add: bit_used_def bit_iff_and_push_bit_not_eq_0 and.commute)

lemma mod8_less [simp]: "n mod 8 < (8 :: nat)" by simp

lemma bit_used_mark:
  assumes "bi div 8 < length d"
  shows "bit_used (mark_bit bi d) bj \<longleftrightarrow> bj = bi \<or> bit_used d bj"
proof -
  have "bj = bi \<longleftrightarrow> bj div 8 = bi div 8 \<and> bj mod 8 = bi mod 8" by (metis div_mult_mod_eq)
  then show ?thesis
    using assms by (auto simp: bit_used_bit mark_bit_def nth_list_update bit_simps)
qed

lemma bit_used_clear:
  assumes "bi div 8 < length d"
  shows "bit_used (clear_bit bi d) bj \<longleftrightarrow> bj \<noteq> bi \<and> bit_used d bj"
proof -
  have "bj = bi \<longleftrightarrow> bj div 8 = bi div 8 \<and> bj mod 8 = bi mod 8" by (metis div_mult_mod_eq)
  then show ?thesis
    using assms by (auto simp: bit_used_bit clear_bit_def nth_list_update bit_simps)
qed

lemma length_mark [simp]: "length (mark_bit bi d) = length d" "length (clear_bit bi d) = length d"
  by (simp_all add: mark_bit_def clear_bit_def)

text \<open>The bit of block \<open>b\<close> in the bitmap as the cache presents it.\<close>

definition block_used :: "'a fs_state_scheme \<Rightarrow> nat \<Rightarrow> bool" where
  "block_used s b \<longleftrightarrow> bit_used (view s (BBLOCK b (fs_sb s))) (b mod BPB)"

text \<open>
  The layout \<open>mkfs\<close> establishes: the bitmap blocks can be used, and a block that is marked free is
  not a block of the bitmap and can be used.
\<close>

definition bitmap_ok :: "'a fs_state_scheme \<Rightarrow> bool" where
  "bitmap_ok s \<longleftrightarrow> (\<forall>b < sb_size (fs_sb s). usable s (BBLOCK b (fs_sb s)) \<and>
     (\<not> block_used s b \<longrightarrow> usable s b \<and> (\<forall>c < sb_size (fs_sb s). b \<noteq> BBLOCK c (fs_sb s))))"

lemma tx_frame_fs:
  assumes "tx_frame s t"
  shows "fs_sb t = fs_sb s" "icache t = icache s"
proof -
  have e: "t = s\<lparr>lh := lh t, wakeups := wakeups t, disk := disk t, disk_log := disk_log t, bufs := bufs t, lru := lru t\<rparr>"
    using assms unfolding tx_frame_def bio_only_def by blast
  show "fs_sb t = fs_sb s" "icache t = icache s"
    using arg_cong [OF e, of fs_sb] arg_cong [OF e, of icache] by simp_all
qed

lemma BBLOCK_group:
  assumes "b mod BPB = 0" "b \<le> c" "c < b + BPB"
  shows "BBLOCK c sb = BBLOCK b sb \<and> c mod BPB = c - b"
proof -
  obtain j where b: "b = j * BPB" using assms(1) by (metis mod_eq_0_iff_dvd dvdE mult.commute)
  have p: "0 < BPB" by (simp add: BPB_def BSIZE_def)
  have c: "c = (c - b) + j * BPB" and r: "c - b < BPB" using assms b by auto
  have "c div BPB = j" using p r by (subst c) (simp add: div_mult_self1)
  moreover have "b div BPB = j" using p by (simp add: b)
  moreover have "c mod BPB = c - b" using r by (subst c) simp
  ultimately show ?thesis by (simp add: BBLOCK_def)
qed

lemma BPB_bytes: "bi < BPB \<Longrightarrow> bi div 8 < BSIZE"
  by (simp add: BPB_def less_mult_imp_div_less)

lemma find_first:
  "n < m \<Longrightarrow> P n \<Longrightarrow> (\<And>i. i < n \<Longrightarrow> \<not> P i) \<Longrightarrow> find P [0..<m] = Some n"
  by (auto simp: find_Some_iff intro!: exI [of _ n])

lemma balloc_from_ok:
  fixes s :: "'a fs_state_scheme"
  assumes "tx_ready s 2" "\<forall>c<b0 + 1. usable s (BBLOCK c sb)" "b0 < sb_size sb"
    "\<not> bit_used (view s (BBLOCK b0 sb)) (b0 mod BPB)"
    "\<forall>c. b \<le> c \<and> c < b0 \<longrightarrow> bit_used (view s (BBLOCK c sb)) (c mod BPB)"
    "b \<le> b0" "b mod BPB = 0" "usable s b0" "b0 \<noteq> BBLOCK b0 sb"
  shows "\<exists>t. balloc_from ROOTDEV sb b s = Ret b0 t \<and> tx_frame s t \<and> tx_ready t 0 \<and>
    view t = (view s)(BBLOCK b0 sb := mark_bit (b0 mod BPB) (view s (BBLOCK b0 sb)), b0 := replicate BSIZE 0)"
  using assms
proof (induction "sb_size sb - b" arbitrary: b s rule: less_induct)
  case less
  note p = less.prems
  let ?B = "BBLOCK b sb" and ?n = "min BPB (sb_size sb - b)"
  have uB: "usable s ?B" using p(2,6) by simp
  obtain v where v: "block_read ROOTDEV ?B s = Ret (view s ?B) v" "tx_frame s v" "tx_ready v 2" "view v = view s"
    using fsblocks.rd_law [OF p(1) uB] by blast
  have len: "length (view s ?B) = BSIZE" by (rule fsblocks.conts_length [OF p(1) uB])
  have bs: "b < sb_size sb" using p(3,6) by simp
  show ?case
  proof (cases "b0 < b + BPB")
    case True
    note g = BBLOCK_group [OF p(7,6) True, of sb]
    have "find (\<lambda>bi. \<not> bit_used (view s ?B) bi) [0..<?n] = Some (b0 - b)"
    proof (rule find_first)
      show "b0 - b < ?n" using True p(3,6) by auto
      show "\<not> bit_used (view s ?B) (b0 - b)" using p(4) g by simp
      fix i assume i: "i < b0 - b"
      then have "b \<le> b + i" "b + i < b + BPB" "b + i < b0" using True by auto
      then show "\<not> \<not> bit_used (view s ?B) i"
        using p(5) [rule_format, of "b + i"] BBLOCK_group [OF p(7), of "b + i" sb] by auto
    qed
    moreover obtain u where u: "block_update ROOTDEV ?B (mark_bit (b0 - b)) s = Ret () u" "tx_frame s u"
      "tx_ready u 1" "view u = (view s)(?B := mark_bit (b0 - b) (view s ?B))"
      using fsblocks.upd_law [of s 1 ?B "mark_bit (b0 - b)"] p(1) uB len by (auto simp: numeral_2_eq_2)
    moreover obtain w where w: "bzero ROOTDEV b0 u = Ret () w" "tx_frame u w" "tx_ready w 0"
      "view w = (view u)(b0 := replicate BSIZE 0)"
      using fsblocks.upd_law [of u 0 b0 "\<lambda>_. replicate BSIZE 0"] u(2,3) p(8) usable_frame [OF u(2)]
      by (auto simp: bzero_update)
    ultimately have "balloc_from ROOTDEV sb b s = kbind (bzero ROOTDEV b0) (\<lambda>_. kret b0) u"
      unfolding balloc_from.simps [of ROOTDEV sb b] using bs p(6)
      by (simp add: block_update_split [OF v(1) u(1), where K = "kbind (bzero ROOTDEV b0) (\<lambda>_. kret b0)"])
    then have "balloc_from ROOTDEV sb b s = Ret b0 w" by (simp add: kbind_def w(1) kret_def)
    moreover have "view w = (view s)(BBLOCK b0 sb := mark_bit (b0 mod BPB) (view s (BBLOCK b0 sb)), b0 := replicate BSIZE 0)"
      using w(4) u(4) g by simp
    ultimately show ?thesis using tx_frame_trans [OF u(2) w(2)] w(3) by blast
  next
    case False
    have all: "bit_used (view s ?B) i" if "i < ?n" for i
    proof -
      have "b \<le> b + i" "b + i < b + BPB" "b + i < b0" using that False by auto
      then show ?thesis using p(5) [rule_format, of "b + i"] BBLOCK_group [OF p(7), of "b + i" sb] by auto
    qed
    then have none: "find (\<lambda>bi. \<not> bit_used (view s ?B) bi) [0..<?n] = None"
      by (simp add: find_None_iff)
    have "balloc_from ROOTDEV sb b s = balloc_from ROOTDEV sb (b + BPB) v"
      unfolding balloc_from.simps [of ROOTDEV sb b] using bs
      by (simp add: block_read_split [OF v(1), where K = "balloc_from ROOTDEV sb (b + BPB)"] none)
    moreover have "\<exists>t. balloc_from ROOTDEV sb (b + BPB) v = Ret b0 t \<and> tx_frame v t \<and> tx_ready t 0 \<and>
      view t = (view v)(BBLOCK b0 sb := mark_bit (b0 mod BPB) (view v (BBLOCK b0 sb)), b0 := replicate BSIZE 0)"
    proof (rule less.hyps)
      show "sb_size sb - (b + BPB) < sb_size sb - b" using bs by (simp add: BPB_def BSIZE_def)
      show "b + BPB \<le> b0" using False by simp
    qed (use p v usable_frame [OF v(2)] in auto)
    ultimately show ?thesis
      using tx_frame_trans [OF v(2)] v(4) by auto
  qed
qed

lemma block_eq_iff: "c = b \<longleftrightarrow> BBLOCK c sb = BBLOCK b sb \<and> c mod BPB = b mod BPB"
  unfolding BBLOCK_def by (metis add_right_cancel div_mult_mod_eq)

lemma mod_BPB: "b mod BPB div 8 < BSIZE"
  by (rule BPB_bytes) (simp add: BPB_def BSIZE_def)

lemma balloc_from_full:
  fixes s :: "'a fs_state_scheme"
  assumes "tx_ready s n" "\<forall>c < sb_size sb. usable s (BBLOCK c sb) \<and> bit_used (view s (BBLOCK c sb)) (c mod BPB)"
    "b mod BPB = 0"
  shows "balloc_from ROOTDEV sb b s = Panic ''balloc: out of blocks''"
  using assms
proof (induction "sb_size sb - b" arbitrary: b s rule: less_induct)
  case less
  note p = less.prems
  show ?case
  proof (cases "b < sb_size sb")
    case True
    let ?B = "BBLOCK b sb" and ?n = "min BPB (sb_size sb - b)"
    have uB: "usable s ?B" using p(2) True by simp
    obtain v where v: "block_read ROOTDEV ?B s = Ret (view s ?B) v" "tx_frame s v" "tx_ready v n" "view v = view s"
      using fsblocks.rd_law [OF p(1) uB] by blast
    have "bit_used (view s ?B) i" if "i < ?n" for i
    proof -
      have "b \<le> b + i" "b + i < b + BPB" "b + i < sb_size sb" using that by auto
      then show ?thesis using p(2) [rule_format, of "b + i"] BBLOCK_group [OF p(3), of "b + i" sb] by auto
    qed
    then have none: "find (\<lambda>bi. \<not> bit_used (view s ?B) bi) [0..<?n] = None"
      by (simp add: find_None_iff)
    have "balloc_from ROOTDEV sb b s = balloc_from ROOTDEV sb (b + BPB) v"
      unfolding balloc_from.simps [of ROOTDEV sb b] using True
      by (simp add: block_read_split [OF v(1), where K = "balloc_from ROOTDEV sb (b + BPB)"] none)
    also have "\<dots> = Panic ''balloc: out of blocks''"
    proof (rule less.hyps)
      show "sb_size sb - (b + BPB) < sb_size sb - b" using True by (simp add: BPB_def BSIZE_def)
    qed (use p v usable_frame [OF v(2)] in auto)
    finally show ?thesis .
  next
    case False
    then show ?thesis by (simp add: balloc_from.simps)
  qed
qed

text \<open>
  C12. Block allocation: with two places left in the log, \<open>balloc\<close> returns the lowest block whose bit in the
  bitmap is clear; afterwards exactly that bit is set in addition, the block is zero, and no other block but
  its bitmap block has changed; when every bit is set it panics.
\<close>

theorem balloc_spec:
  assumes ready: "tx_ready s 2" and ok: "bitmap_ok s"
  shows "(\<forall>b. b < sb_size (fs_sb s) \<and> \<not> block_used s b \<and> (\<forall>c<b. block_used s c) \<longrightarrow>
      kok (balloc ROOTDEV) s (\<lambda>r t. r = b \<and> view t b = replicate BSIZE 0 \<and>
        (\<forall>c < sb_size (fs_sb s). block_used t c \<longleftrightarrow> c = b \<or> block_used s c) \<and>
        (\<forall>c. c \<noteq> b \<and> c \<noteq> BBLOCK b (fs_sb s) \<longrightarrow> view t c = view s c) \<and> tx_frame s t \<and> bitmap_ok t)) \<and>
    ((\<forall>c < sb_size (fs_sb s). block_used s c) \<longrightarrow> balloc ROOTDEV s = Panic ''balloc: out of blocks'')"
proof (intro conjI allI impI)
  let ?sb = "fs_sb s"
  fix b assume b: "b < sb_size ?sb \<and> \<not> block_used s b \<and> (\<forall>c<b. block_used s c)"
  have u: "\<forall>c<b + 1. usable s (BBLOCK c ?sb)" "usable s b" and nb: "\<And>c. c < sb_size ?sb \<Longrightarrow> b \<noteq> BBLOCK c ?sb"
    using ok b by (auto simp: bitmap_ok_def)
  then have "\<exists>t. balloc_from ROOTDEV ?sb 0 s = Ret b t \<and> tx_frame s t \<and> tx_ready t 0 \<and>
    view t = (view s)(BBLOCK b ?sb := mark_bit (b mod BPB) (view s (BBLOCK b ?sb)), b := replicate BSIZE 0)"
    using b ready by (intro balloc_from_ok) (auto simp: block_used_def)
  then obtain t where t: "balloc ROOTDEV s = Ret b t" "tx_frame s t"
    "view t = (view s)(BBLOCK b ?sb := mark_bit (b mod BPB) (view s (BBLOCK b ?sb)), b := replicate BSIZE 0)"
    by (auto simp: balloc_def kbind_def)
  note fs = tx_frame_fs [OF t(2)]
  have len: "length (view s (BBLOCK b ?sb)) = BSIZE"
    using fsblocks.conts_length [OF ready] u(1) by simp
  have used: "block_used t c \<longleftrightarrow> c = b \<or> block_used s c" if c: "c < sb_size ?sb" for c
    using nb [OF c] mod_BPB [of b] block_eq_iff [of c b ?sb]
    by (auto simp: block_used_def fs t(3) bit_used_mark len)
  have "bitmap_ok t"
    using ok used usable_frame [OF t(2)] unfolding bitmap_ok_def fs by auto
  with t used show "kok (balloc ROOTDEV) s (\<lambda>r t. r = b \<and> view t b = replicate BSIZE 0 \<and>
        (\<forall>c < sb_size (fs_sb s). block_used t c \<longleftrightarrow> c = b \<or> block_used s c) \<and>
        (\<forall>c. c \<noteq> b \<and> c \<noteq> BBLOCK b (fs_sb s) \<longrightarrow> view t c = view s c) \<and> tx_frame s t \<and> bitmap_ok t)"
    by (simp add: kok_def)
next
  assume "\<forall>c < sb_size (fs_sb s). block_used s c"
  then show "balloc ROOTDEV s = Panic ''balloc: out of blocks''"
    using ok balloc_from_full [OF ready, of "fs_sb s" 0]
    by (simp add: balloc_def kbind_def bitmap_ok_def block_used_def)
qed

lemma readsb_read: "readsb dev = kbind (block_read dev 1) (\<lambda>d. kret (decode_sb d))"
  by (simp add: readsb_def block_read_def kbind_assoc)

text \<open>
  C13. Freeing a block: when the super block in the cache is the one in memory, \<open>bfree\<close> of a block whose bit
  is set clears exactly that bit and changes no block but its bitmap block; of a block whose bit is clear
  it panics.
\<close>

theorem bfree_spec:
  assumes ready: "tx_ready s 1" and ok: "bitmap_ok s" and sbk: "usable s 1" "decode_sb (view s 1) = fs_sb s"
    and b: "b < sb_size (fs_sb s)"
  shows "(block_used s b \<longrightarrow>
      kok (bfree ROOTDEV b) s (\<lambda>_ t.
        (\<forall>c < sb_size (fs_sb s). block_used t c \<longleftrightarrow> c \<noteq> b \<and> block_used s c) \<and>
        (\<forall>c. c \<noteq> BBLOCK b (fs_sb s) \<longrightarrow> view t c = view s c) \<and> tx_frame s t)) \<and>
    (\<not> block_used s b \<longrightarrow> bfree ROOTDEV b s = Panic ''freeing free block'')"
proof -
  let ?sb = "fs_sb s" and ?B = "BBLOCK b (fs_sb s)"
  obtain v where v: "block_read ROOTDEV 1 s = Ret (view s 1) v" "tx_frame s v" "tx_ready v 1" "view v = view s"
    using fsblocks.rd_law [OF ready sbk(1)] by blast
  have vs: "v\<lparr>fs_sb := ?sb\<rparr> = v" by (simp add: tx_frame_fs(1) [OF v(2), symmetric])
  have uB: "usable v ?B" using ok b usable_frame [OF v(2)] by (simp add: bitmap_ok_def)
  obtain w where w: "block_read ROOTDEV ?B v = Ret (view s ?B) w"
    using fsblocks.rd_law [OF v(3) uB] v(4) by auto
  have len: "length (view s ?B) = BSIZE" using fsblocks.conts_length [OF v(3) uB] v(4) by simp
  let ?F = "\<lambda>bp d. if \<not> bit_used d (b mod BPB) then kpanic ''freeing free block''
     else kbind (bset bp (clear_bit (b mod BPB))) (\<lambda>_. kbind (log_write bp) (\<lambda>_. brelse bp))"
  have e: "bfree ROOTDEV b s = kbind (bread ROOTDEV ?B) (\<lambda>bp. kbind (bdata bp) (?F bp)) v"
    by (simp add: bfree_def readsb_read kbind_def v(1) [unfolded One_nat_def] kret_def sbk(2) [unfolded One_nat_def] vs)
  show ?thesis
  proof (intro conjI impI)
    assume used: "block_used s b"
    obtain u where u: "block_update ROOTDEV ?B (clear_bit (b mod BPB)) v = Ret () u" "tx_frame v u"
      "view u = (view s)(?B := clear_bit (b mod BPB) (view s ?B))"
      using fsblocks.upd_law [of v 0 ?B "clear_bit (b mod BPB)"] v(3,4) uB len by auto
    have "bfree ROOTDEV b s = kret () u"
      unfolding e using used
      by (intro block_update_split [OF w u(1)]) (simp add: block_used_def)
    moreover have "tx_frame s u" by (rule tx_frame_trans [OF v(2) u(2)])
    moreover have "block_used u c \<longleftrightarrow> c \<noteq> b \<and> block_used s c" for c
      using mod_BPB [of b] block_eq_iff [of c b ?sb] tx_frame_fs(1) [OF \<open>tx_frame s u\<close>]
      by (auto simp: block_used_def u(3) bit_used_clear len)
    ultimately show "kok (bfree ROOTDEV b) s (\<lambda>_ t.
        (\<forall>c < sb_size (fs_sb s). block_used t c \<longleftrightarrow> c \<noteq> b \<and> block_used s c) \<and>
        (\<forall>c. c \<noteq> BBLOCK b (fs_sb s) \<longrightarrow> view t c = view s c) \<and> tx_frame s t)"
      using u(3) by (simp add: kok_def kret_def)
  next
    assume "\<not> block_used s b"
    then show "bfree ROOTDEV b s = Panic ''freeing free block''"
      using w unfolding e block_used_def block_read_def kbind_def kret_def
      by (auto split: kres.splits)
  qed
qed

subsection \<open>A small file system\<close>

text \<open>
  Forty blocks: super block 1, log in blocks 2 to 31, one inode block 32, one bitmap block 33, and
  data blocks from 34 on, all of them free. The kernel has just entered a transaction.
\<close>

definition small_sb :: superblock where
  "small_sb = \<lparr>sb_size = 40, sb_nblocks = 6, sb_ninodes = 8, sb_nlog = 30, sb_logstart = 2, sb_inodestart = 32,
     sb_bmapstart = 33\<rparr>"

definition small_disk :: "nat \<Rightarrow> byte list" where
  "small_disk b =
     (if b = 1 then
        store32 0 40 (store32 4 6 (store32 8 8 (store32 12 30 (store32 16 2 (store32 20 32 (store32 24 33
          (replicate BSIZE 0)))))))
      else if b = 33 then [255, 255, 255, 255, 3] @ replicate 507 0
      else replicate BSIZE 0)"

definition free_inode :: inode where
  "free_inode = \<lparr>i_dev = 0, i_inum = 0, i_ref = 0, i_busy = False, i_valid = False, i_type = 0, i_major = 0,
     i_minor = 0, i_nlink = 0, i_size = 0, i_addrs = replicate (NDIRECT + 1) 0\<rparr>"

definition small_fs :: fs_state where
  "small_fs = bio_state.extend (bio_ready 40 small_disk kmem_example)
     \<lparr>lg_start = 2, lg_size = 30, outstanding = 1, committing = False, lg_dev = ROOTDEV, lh = [],
      fs_sb = small_sb, icache = replicate NINODE free_inode\<rparr>"

lemma length_small_disk: "length (small_disk b) = BSIZE"
  by (simp add: small_disk_def BSIZE_def)

lemma small_fs_sel [simp]:
  "lg_start small_fs = 2" "lg_size small_fs = 30" "outstanding small_fs = 1" "lg_dev small_fs = ROOTDEV"
  "lh small_fs = []" "fs_sb small_fs = small_sb" "icache small_fs = replicate NINODE free_inode"
  "disksize small_fs = 40" "disk small_fs = small_disk" "committing small_fs = False"
  by (simp_all add: small_fs_def bio_state.defs bio_ready_def bio_boot_def kmem_state.defs)

lemma small_fs_cache:
  "bio_inv small_fs" "busy_at small_fs = (\<lambda>_. False)" "dirty_at small_fs = (\<lambda>_. False)" "view small_fs = small_disk"
  using cview_of_cong [OF extend_cview, of "bio_ready 40 small_disk kmem_example"] bio_ready_inv [of 40 small_disk kmem_example]
    bio_ready_view [of 40 small_disk kmem_example]
  by (simp_all add: small_fs_def length_small_disk)

lemma small_fs_ready: "n < 30 \<Longrightarrow> tx_ready small_fs n"
  by (simp add: tx_ready_def txn_def log_inv_def log_geo_def small_fs_cache nheld_def LOGSIZE_def MAXOPBLOCKS_def)

lemma small_fs_usable: "usable small_fs b \<longleftrightarrow> b < 40 \<and> \<not> (2 \<le> b \<and> b < 32)"
  by (auto simp: usable_def small_fs_cache log_area_def)

lemma small_decode: "decode_sb (small_disk 1) = small_sb"
  by (simp add: decode_sb_def small_disk_def small_sb_def load32_store32_other BSIZE_def)

lemma bits255: "bit (255 :: byte) k \<longleftrightarrow> k < 8" and bits3: "bit (3 :: byte) k \<longleftrightarrow> k < 2"
proof -
  have "(255 :: byte) = mask 8" "(3 :: byte) = mask 2" by (simp_all add: mask_eq_exp_minus_1)
  then show "bit (255 :: byte) k \<longleftrightarrow> k < 8" "bit (3 :: byte) k \<longleftrightarrow> k < 2"
    by (simp_all only: bit_mask_iff) auto
qed

lemma small_used: "b < 40 \<Longrightarrow> block_used small_fs b \<longleftrightarrow> b < 34"
proof -
  assume b: "b < 40"
  have m: "b mod BPB = b" "BBLOCK b small_sb = 33" using b by (simp_all add: BPB_def BSIZE_def BBLOCK_def small_sb_def)
  have q: "b div 8 = 0 \<or> b div 8 = 1 \<or> b div 8 = 2 \<or> b div 8 = 3 \<or> b div 8 = 4" using b by auto
  have d: "small_disk 33 ! 0 = 255" "small_disk 33 ! 1 = 255" "small_disk 33 ! 2 = 255" "small_disk 33 ! 3 = 255"
      "small_disk 33 ! 4 = 3"
    by (simp_all add: small_disk_def)
  have u: "block_used small_fs b \<longleftrightarrow> bit (small_disk 33 ! (b div 8)) (b mod 8)"
    by (simp add: block_used_def small_fs_cache m bit_used_bit)
  have lt: "b div 8 < 4 \<Longrightarrow> b < 34" and eq: "b div 8 = 4 \<Longrightarrow> b mod 8 < 2 \<longleftrightarrow> b < 34"
    using mult_div_mod_eq [of 8 b] b by linarith+
  from q show ?thesis
  proof (elim disjE)
    assume "b div 8 = 4"
    then show ?thesis using eq by (simp only: u d bits3)
  qed (use lt in \<open>simp_all only: u d bits255\<close>, simp_all)
qed

lemma small_bitmap_ok: "bitmap_ok small_fs"
proof -
  have "BBLOCK b small_sb = 33" if "b < 40" for b
    using that by (simp add: BPB_def BSIZE_def BBLOCK_def small_sb_def)
  moreover have "sb_size small_sb = 40" by (simp add: small_sb_def)
  ultimately show ?thesis
    using small_used by (auto simp: bitmap_ok_def small_fs_usable)
qed

theorem balloc_spec_witness:
  "kok (balloc ROOTDEV) small_fs (\<lambda>r t. r = 34 \<and> view t 34 = replicate BSIZE 0 \<and> block_used t 34 \<and> \<not> block_used t 35)"
proof -
  have s: "sb_size small_sb = 40" by (simp add: small_sb_def)
  have pre: "tx_ready small_fs 2" by (simp add: small_fs_ready)
  have "kok (balloc ROOTDEV) small_fs (\<lambda>r t. r = 34 \<and> view t 34 = replicate BSIZE 0 \<and>
        (\<forall>c < sb_size (fs_sb small_fs). block_used t c \<longleftrightarrow> c = 34 \<or> block_used small_fs c) \<and>
        (\<forall>c. c \<noteq> 34 \<and> c \<noteq> BBLOCK 34 (fs_sb small_fs) \<longrightarrow> view t c = view small_fs c) \<and> tx_frame small_fs t \<and> bitmap_ok t)"
    using balloc_spec [OF pre small_bitmap_ok] small_used by (simp add: s)
  then show ?thesis
    by (rule kok_mono) (simp add: s small_used)
qed

theorem bfree_spec_witness:
  "kok (bfree ROOTDEV 33) small_fs (\<lambda>_ t. \<not> block_used t 33 \<and> block_used t 32) \<and>
   bfree ROOTDEV 34 small_fs = Panic ''freeing free block''"
proof -
  have s: "sb_size small_sb = 40" by (simp add: small_sb_def)
  have pre: "tx_ready small_fs 1" "usable small_fs 1" "decode_sb (view small_fs 1) = fs_sb small_fs"
    by (simp_all add: small_fs_ready small_fs_usable small_fs_cache small_decode [simplified])
  show ?thesis
    using bfree_spec [OF pre(1) small_bitmap_ok pre(2,3), of 33] bfree_spec [OF pre(1) small_bitmap_ok pre(2,3), of 34]
    by (simp add: s small_used kok_def) auto
qed

end
