(* ===== verification/Inode.thy ===== *)
theory Inode
  imports Balloc
begin

text \<open>
  Inodes of \<open>fs.c\<close>: the on-disk format, the inode cache with its reference counts, and the routines that
  move an inode between the two.
\<close>

subsection \<open>The on-disk format\<close>

lemma bslice_append1: "off + n \<le> length xs \<Longrightarrow> bslice off n (xs @ ys) = bslice off n xs"
  by (simp add: bslice_def)

lemma bslice_append2: "length xs \<le> off \<Longrightarrow> bslice off n (xs @ ys) = bslice (off - length xs) n ys"
  by (simp add: bslice_def)

lemma bslice_splice_at_in:
  assumes "off + length ys \<le> length xs" "j + n \<le> length ys"
  shows "bslice (off + j) n (splice_at off ys xs) = bslice j n ys"
proof -
  have "bslice (off + j) n (splice_at off ys xs) = bslice j n (ys @ drop (off + length ys) xs)"
    using assms unfolding splice_at_def by (subst bslice_append2) auto
  then show ?thesis using assms by (simp add: bslice_append1)
qed

lemma bslice_enc32: "i < length as \<Longrightarrow> bslice (4 * i) 4 (concat (map (\<lambda>a. enc32 (of_nat a)) as)) = enc32 (of_nat (as ! i))"
proof (induction as arbitrary: i)
  case (Cons a as)
  show ?case
  proof (cases i)
    case 0
    then show ?thesis by (simp add: bslice_def)
  next
    case (Suc j)
    then show ?thesis using Cons by (simp add: bslice_append2)
  qed
qed simp

lemma length_enc_dinode [simp]: "length (di_addrs di) = NDIRECT + 1 \<Longrightarrow> length (enc_dinode di) = 64"
  by (simp add: enc_dinode_def length_concat NDIRECT_def comp_def sum_list_triv)

definition dinode_ok :: "dinode \<Rightarrow> bool" where
  "dinode_ok di \<longleftrightarrow> length (di_addrs di) = NDIRECT + 1 \<and> (\<forall>a\<in>set (di_addrs di). a < 2 ^ 32) \<and> di_size di < 2 ^ 32"

lemma bslice_all: "length xs = n \<Longrightarrow> bslice 0 n xs = xs"
  by (simp add: bslice_def)

lemma enc_dinode_fields:
  assumes "length (di_addrs di) = 13"
  shows "bslice 0 2 (enc_dinode di) = enc16 (di_type di)" "bslice 2 2 (enc_dinode di) = enc16 (di_major di)"
    "bslice 4 2 (enc_dinode di) = enc16 (di_minor di)" "bslice 6 2 (enc_dinode di) = enc16 (di_nlink di)"
    "bslice 8 4 (enc_dinode di) = enc32 (of_nat (di_size di))"
    "i < 13 \<Longrightarrow> bslice (12 + 4 * i) 4 (enc_dinode di) = enc32 (of_nat (di_addrs di ! i))"
  using assms bslice_enc32 [of i "di_addrs di"]
  by (simp_all add: enc_dinode_def bslice_append2 bslice_append1 bslice_all)

lemma get_put_dinode:
  assumes k: "k < IPB" "j < IPB" and len: "length d = BSIZE" and ok: "dinode_ok di"
  shows "get_dinode j (put_dinode k di d) = (if j = k then di else get_dinode j d) \<and>
    length (put_dinode k di d) = BSIZE"
proof -
  have la: "length (di_addrs di) = 13" and l: "length (enc_dinode di) = 64"
    using ok length_enc_dinode [of di] by (simp_all add: dinode_ok_def NDIRECT_def)
  have fit: "64 * k + length (enc_dinode di) \<le> length d" using k(1) len l by (simp add: IPB_def BSIZE_def)
  have in16: "load16 (put_dinode k di d) (64 * k + p) = dec16 (bslice p 2 (enc_dinode di))" if "p + 2 \<le> 64" for p
    using that l fit by (simp add: load16_def put_dinode_def bslice_splice_at_in)
  have in32: "load32 (put_dinode k di d) (64 * k + p) = dec32 (bslice p 4 (enc_dinode di))" if "p + 4 \<le> 64" for p
    using that l fit by (simp add: load32_def put_dinode_def bslice_splice_at_in)
  have out: "bslice (64 * j + p) n (put_dinode k di d) = bslice (64 * j + p) n d" if "j \<noteq> k" "p + n \<le> 64" for p n
    unfolding put_dinode_def using that k len l fit
    by (intro bslice_splice_at_other) (auto simp: IPB_def BSIZE_def)
  show ?thesis
  proof (cases "j = k")
    case True
    have a: "a < 2 ^ 32" if "a \<in> set (di_addrs di)" for a using ok that by (simp add: dinode_ok_def)
    have "map (\<lambda>i. unat (load32 (put_dinode k di d) (64 * k + 12 + 4 * i))) [0..<NDIRECT + 1] = di_addrs di"
    proof (rule nth_equalityI)
      fix i assume "i < length (map (\<lambda>i. unat (load32 (put_dinode k di d) (64 * k + 12 + 4 * i))) [0..<NDIRECT + 1])"
      then have i: "i < 13" by (simp add: NDIRECT_def)
      then have "i < 12 + 1" "di_addrs di ! i < 2 ^ 32" using a la by simp_all
      then show "map (\<lambda>i. unat (load32 (put_dinode k di d) (64 * k + 12 + 4 * i))) [0..<NDIRECT + 1] ! i = di_addrs di ! i"
        using in32 [of "12 + 4 * i"] i enc_dinode_fields(6) [OF la i]
        by (simp add: NDIRECT_def unat_of_nat add.assoc del: upt_Suc)
    qed (simp add: la NDIRECT_def)
    moreover have "unat (load32 (put_dinode k di d) (64 * k + 8)) = di_size di"
      using in32 [of 8] enc_dinode_fields(5) [OF la] ok by (simp add: unat_of_nat dinode_ok_def)
    ultimately have "get_dinode k (put_dinode k di d) = di"
      using in16 [of 0] in16 [of 2] in16 [of 4] in16 [of 6]
      by (simp add: get_dinode_def Let_def enc_dinode_fields [OF la] del: upt_Suc)
    with True show ?thesis using fit len by (simp add: put_dinode_def)
  next
    case False
    have o16: "load16 (put_dinode k di d) (64 * j + p) = load16 d (64 * j + p)" if "p + 2 \<le> 64" for p
      using out [OF False that] by (simp add: load16_def)
    have o32: "load32 (put_dinode k di d) (64 * j + p) = load32 d (64 * j + p)" if "p + 4 \<le> 64" for p
      using out [OF False that] by (simp add: load32_def)
    have "map (\<lambda>i. unat (load32 (put_dinode k di d) (64 * j + 12 + 4 * i))) [0..<NDIRECT + 1] =
        map (\<lambda>i. unat (load32 d (64 * j + 12 + 4 * i))) [0..<NDIRECT + 1]"
    proof (rule map_cong [OF refl])
      fix i assume "i \<in> set [0..<NDIRECT + 1]"
      then show "unat (load32 (put_dinode k di d) (64 * j + 12 + 4 * i)) = unat (load32 d (64 * j + 12 + 4 * i))"
        using o32 [of "12 + 4 * i"] by (simp add: NDIRECT_def add.assoc)
    qed
    then have "get_dinode j (put_dinode k di d) = get_dinode j d"
      using o16 [of 0] o16 [of 2] o16 [of 4] o16 [of 6] o32 [of 8]
      by (simp add: get_dinode_def Let_def del: upt_Suc)
    then show ?thesis using False fit len by (simp add: put_dinode_def)
  qed
qed



subsection \<open>The inode cache\<close>

definition ic_inv :: "'a fs_state_scheme \<Rightarrow> bool" where
  "ic_inv s \<longleftrightarrow> length (icache s) = NINODE \<and> (\<forall>i<NINODE. 0 \<le> i_ref (icache s ! i)) \<and>
     (\<forall>i<NINODE. \<forall>j<NINODE. 0 < i_ref (icache s ! i) \<and> 0 < i_ref (icache s ! j) \<and>
        i_dev (icache s ! i) = i_dev (icache s ! j) \<and> i_inum (icache s ! i) = i_inum (icache s ! j) \<longrightarrow> i = j)"

text \<open>The references to inode \<open>inum\<close>: the count of the one slot that caches it.\<close>

definition refs :: "'a fs_state_scheme \<Rightarrow> nat \<Rightarrow> nat \<Rightarrow> int" where
  "refs s dev inum = (\<Sum>ip\<leftarrow>icache s. if i_dev ip = dev \<and> i_inum ip = inum then i_ref ip else 0)"

lemma sum_list_update:
  fixes f :: "'a \<Rightarrow> int"
  shows "k < length xs \<Longrightarrow> sum_list (map f (xs[k := x])) = sum_list (map f xs) - f (xs ! k) + f x"
proof (induction xs arbitrary: k)
  case (Cons a xs)
  then show ?case by (cases k) auto
qed simp

lemma iget_eq:
  "iget dev inum s =
    (case find_idx (\<lambda>ip. i_ref ip > 0 \<and> i_dev ip = dev \<and> i_inum ip = inum) (icache s) of
       Some k \<Rightarrow> Ret k (s\<lparr>icache := (icache s)[k := (icache s ! k)\<lparr>i_ref := i_ref (icache s ! k) + 1\<rparr>]\<rparr>)
     | None \<Rightarrow>
        (case find_idx (\<lambda>ip. i_ref ip = 0) (icache s) of
           None \<Rightarrow> Panic ''iget: no inodes''
         | Some k \<Rightarrow> Ret k (s\<lparr>icache := (icache s)[k := (icache s ! k)\<lparr>i_dev := dev, i_inum := inum, i_ref := 1,
             i_busy := False, i_valid := False\<rparr>]\<rparr>)))"
  by (simp add: iget_def kbind_def modinode_def kret_def split: option.splits)

lemma ic_inv_update:
  assumes inv: "ic_inv s" and k: "k < NINODE" and r: "0 \<le> i_ref x"
    and u: "0 < i_ref x \<Longrightarrow> \<forall>j<NINODE. j \<noteq> k \<and> 0 < i_ref (icache s ! j) \<longrightarrow>
      \<not> (i_dev (icache s ! j) = i_dev x \<and> i_inum (icache s ! j) = i_inum x)"
  shows "ic_inv (s\<lparr>icache := (icache s)[k := x]\<rparr>)"
  using inv k r u unfolding ic_inv_def by (auto simp: nth_list_update)

lemma refs_update:
  "k < length (icache s) \<Longrightarrow>
   refs (s\<lparr>icache := (icache s)[k := x]\<rparr>) d n = refs s d n
     - (if i_dev (icache s ! k) = d \<and> i_inum (icache s ! k) = n then i_ref (icache s ! k) else 0)
     + (if i_dev x = d \<and> i_inum x = n then i_ref x else 0)"
  unfolding refs_def by (simp add: sum_list_update)

lemma refs_uncached:
  assumes "ic_inv s" "\<forall>ip\<in>set (icache s). \<not> (0 < i_ref ip \<and> i_dev ip = dev \<and> i_inum ip = inum)"
  shows "refs s dev inum = 0"
proof -
  have "0 \<le> i_ref ip" if "ip \<in> set (icache s)" for ip
    using assms(1) that by (auto simp: ic_inv_def in_set_conv_nth)
  then have "(if i_dev ip = dev \<and> i_inum ip = inum then i_ref ip else 0) = 0" if "ip \<in> set (icache s)" for ip
    using assms(2) that by fastforce
  then have "map (\<lambda>ip. if i_dev ip = dev \<and> i_inum ip = inum then i_ref ip else 0) (icache s) = map (\<lambda>_. 0) (icache s)"
    by (intro map_cong refl) auto
  then show ?thesis unfolding refs_def by (simp only: sum_list_0)
qed

text \<open>
  C20. The inode cache: no inode occupies two referenced slots, and \<open>iget\<close> keeps it so. It returns a slot of
  the inode asked for, after which that inode has one reference more and every other inode as many as
  before; it never sleeps, and panics only when the inode is not cached and every slot is referenced.
\<close>

theorem iget_spec:
  assumes inv: "ic_inv s"
  shows "case iget dev inum s of
      Ret k t \<Rightarrow> k < NINODE \<and> ic_inv t \<and> i_dev (icache t ! k) = dev \<and> i_inum (icache t ! k) = inum \<and>
        0 < i_ref (icache t ! k) \<and>
        (\<forall>d n. refs t d n = (if d = dev \<and> n = inum then refs s d n + 1 else refs s d n)) \<and>
        (\<forall>j<NINODE. j \<noteq> k \<longrightarrow> icache t ! j = icache s ! j)
    | Panic m \<Rightarrow> m = ''iget: no inodes'' \<and> refs s dev inum = 0 \<and> (\<forall>k<NINODE. 0 < i_ref (icache s ! k))
    | Block c t \<Rightarrow> False"
proof -
  let ?P = "\<lambda>ip. i_ref ip > 0 \<and> i_dev ip = dev \<and> i_inum ip = inum"
  have len: "length (icache s) = NINODE" using inv by (simp add: ic_inv_def)
  show ?thesis
  proof (cases "find_idx ?P (icache s)")
    case (Some k)
    note k = find_idx_SomeD [OF Some, unfolded len]
    let ?x = "(icache s ! k)\<lparr>i_ref := i_ref (icache s ! k) + 1\<rparr>"
    have "ic_inv (s\<lparr>icache := (icache s)[k := ?x]\<rparr>)"
      using inv k by (intro ic_inv_update) (auto simp: ic_inv_def)
    then show ?thesis
      using Some k len by (auto simp: iget_eq refs_update)
  next
    case None
    then have free: "\<forall>ip\<in>set (icache s). \<not> ?P ip" by (simp add: find_idx_None)
    show ?thesis
    proof (cases "find_idx (\<lambda>ip. i_ref ip = 0) (icache s)")
      case (Some k)
      note k = find_idx_SomeD [OF Some, unfolded len]
      let ?x = "(icache s ! k)\<lparr>i_dev := dev, i_inum := inum, i_ref := 1, i_busy := False, i_valid := False\<rparr>"
      have "ic_inv (s\<lparr>icache := (icache s)[k := ?x]\<rparr>)"
        using inv k free len by (intro ic_inv_update) auto
      then show ?thesis
        using None Some k len by (auto simp: iget_eq refs_update)
    next
      case no: None
      then have "\<forall>k<NINODE. 0 < i_ref (icache s ! k)"
        using inv len by (force simp: find_idx_None ic_inv_def in_set_conv_nth order_le_less)
      with None no refs_uncached [OF inv free] show ?thesis by (simp add: iget_eq)
    qed
  qed
qed

theorem iget_spec_witness:
  "\<exists>k t. iget 1 5 small_fs = Ret k t \<and> refs t 1 5 = 1 \<and> ic_inv t"
proof -
  have inv: "ic_inv small_fs" by (simp add: ic_inv_def free_inode_def)
  have "refs small_fs 1 5 = 0" by (rule refs_uncached [OF inv]) (simp add: free_inode_def)
  moreover have "\<not> (\<forall>k<NINODE. 0 < i_ref (icache small_fs ! k))"
    by (auto simp: free_inode_def NINODE_def intro!: exI [of _ 0])
  ultimately show ?thesis
    using iget_spec [OF inv, of 1 5] by (cases "iget 1 5 small_fs") auto
qed

subsection \<open>Between the cache and the disk\<close>

text \<open>
  C22. \<open>iupdate\<close> writes the in-memory inode to its place on the disk: the inode read back from the block is the
  in-memory one, every other inode of the file system and every other block is as before.
\<close>

theorem iupdate_spec:
  assumes ready: "tx_ready s 1" and ip: "ip = icache s ! k" "i_dev ip = ROOTDEV" "dinode_ok (dinode_of ip)"
    and u: "usable s (IBLOCK (i_inum ip) (fs_sb s))"
  shows "kok (iupdate k) s (\<lambda>_ t.
    (\<forall>inum. get_dinode (inum mod IPB) (view t (IBLOCK inum (fs_sb s))) =
       (if inum = i_inum ip then dinode_of ip else get_dinode (inum mod IPB) (view s (IBLOCK inum (fs_sb s))))) \<and>
    (\<forall>b. b \<noteq> IBLOCK (i_inum ip) (fs_sb s) \<longrightarrow> view t b = view s b) \<and> tx_frame s t)"
proof -
  let ?B = "IBLOCK (i_inum ip) (fs_sb s)" and ?k = "i_inum ip mod IPB"
  have len: "length (view s ?B) = BSIZE" by (rule fsblocks.conts_length [OF ready u])
  have m: "n mod IPB < IPB" for n by (simp add: IPB_def)
  note gp = get_put_dinode [OF m m len ip(3)]
  obtain t where t: "block_update ROOTDEV ?B (put_dinode ?k (dinode_of ip)) s = Ret () t" "tx_frame s t"
    "view t = (view s)(?B := put_dinode ?k (dinode_of ip) (view s ?B))"
    using fsblocks.upd_law [of s 0 ?B "put_dinode ?k (dinode_of ip)"] ready u gp by auto
  have "iupdate k s = Ret () t"
    using t(1) ip(1,2) by (simp add: iupdate_def block_update_def kbind_def getinode_def)
  moreover have "get_dinode (inum mod IPB) (view t (IBLOCK inum (fs_sb s))) =
       (if inum = i_inum ip then dinode_of ip else get_dinode (inum mod IPB) (view s (IBLOCK inum (fs_sb s))))" for inum
  proof (cases "IBLOCK inum (fs_sb s) = ?B")
    case True
    then have "inum = i_inum ip \<longleftrightarrow> inum mod IPB = ?k"
      by (metis IBLOCK_def add_right_cancel div_mult_mod_eq)
    with True gp show ?thesis by (simp add: t(3))
  next
    case False
    then show ?thesis by (auto simp: t(3))
  qed
  ultimately show ?thesis using t(2,3) by (simp add: kok_def)
qed

lemma icache_upd [simp]:
  "live_at (s\<lparr>icache := x\<rparr>) = live_at s" "buf_ok (s\<lparr>icache := x\<rparr>) = buf_ok s"
  by (simp_all add: live_at_def buf_ok_def fun_eq_iff)

lemma icache_upd_inv [simp]: "bio_inv (s\<lparr>icache := x\<rparr>) = bio_inv s" "held (s\<lparr>icache := x\<rparr>) = held s"
  by (simp_all add: bio_inv_def held_def fun_eq_iff)

lemma icache_upd_cview [simp]: "cview_of (s\<lparr>icache := x\<rparr>) = cview_of s"
  by (simp add: cview_of_def busy_at_def dirty_at_def view_def fun_eq_iff cong: option.case_cong)

lemmas icache_upd_view [simp] =
  icache_upd_cview [THEN cview_of_cong(1)] icache_upd_cview [THEN cview_of_cong(4)]
  icache_upd_cview [THEN cview_of_cong(5)]

lemma icache_upd_log [simp]:
  "log_inv (s\<lparr>icache := x\<rparr>) = log_inv s" "txn (s\<lparr>icache := x\<rparr>) = txn s" "tx_ready (s\<lparr>icache := x\<rparr>) n = tx_ready s n"
  "usable (s\<lparr>icache := x\<rparr>) b = usable s b" "nheld (s\<lparr>icache := x\<rparr>) = nheld s"
  by (simp_all add: log_inv_def log_geo_def log_area_def txn_def tx_ready_def usable_def nheld_def)

theorem iupdate_spec_witness:
  "let ip = free_inode\<lparr>i_dev := ROOTDEV, i_inum := 3, i_ref := 1, i_valid := True, i_type := T_FILE, i_nlink := 1, i_size := 5\<rparr>;
       s = small_fs\<lparr>icache := [ip]\<rparr>
   in kok (iupdate 0) s (\<lambda>_ t. di_size (get_dinode 3 (view t 32)) = 5 \<and> view t 33 = small_disk 33)"
proof -
  let ?ip = "free_inode\<lparr>i_dev := ROOTDEV, i_inum := 3, i_ref := 1, i_valid := True, i_type := T_FILE, i_nlink := 1, i_size := 5\<rparr>"
  let ?s = "small_fs\<lparr>icache := [?ip]\<rparr>"
  have b: "IBLOCK 3 small_sb = 32" "(3 :: nat) mod IPB = 3" by (simp_all add: IBLOCK_def IPB_def small_sb_def)
  have "kok (iupdate 0) ?s (\<lambda>_ t.
    (\<forall>inum. get_dinode (inum mod IPB) (view t (IBLOCK inum (fs_sb ?s))) =
       (if inum = i_inum ?ip then dinode_of ?ip else get_dinode (inum mod IPB) (view ?s (IBLOCK inum (fs_sb ?s))))) \<and>
    (\<forall>b. b \<noteq> IBLOCK (i_inum ?ip) (fs_sb ?s) \<longrightarrow> view t b = view ?s b) \<and> tx_frame ?s t)"
    by (rule iupdate_spec) (simp_all add: small_fs_ready dinode_ok_def dinode_of_def free_inode_def small_fs_usable b NDIRECT_def)
  then show ?thesis
    unfolding Let_def
  proof (rule kok_mono)
    fix x t assume "(\<forall>inum. get_dinode (inum mod IPB) (view t (IBLOCK inum (fs_sb ?s))) =
       (if inum = i_inum ?ip then dinode_of ?ip else get_dinode (inum mod IPB) (view ?s (IBLOCK inum (fs_sb ?s))))) \<and>
      (\<forall>b. b \<noteq> IBLOCK (i_inum ?ip) (fs_sb ?s) \<longrightarrow> view t b = view ?s b) \<and> tx_frame ?s t"
    then have "get_dinode (3 mod IPB) (view t (IBLOCK 3 (fs_sb ?s))) =
        (if 3 = i_inum ?ip then dinode_of ?ip else get_dinode (3 mod IPB) (view ?s (IBLOCK 3 (fs_sb ?s))))" "view t 33 = view ?s 33"
      by (simp_all only: b(1) simp_thms, simp_all add: b)
    then show "di_size (get_dinode 3 (view t 32)) = 5 \<and> view t 33 = small_disk 33"
      by (simp add: b dinode_of_def small_fs_cache)
  qed
qed

lemma brelse_icache:
  "brelse i (s\<lparr>icache := x\<rparr>) = (case brelse i s of Ret r t \<Rightarrow> Ret r (t\<lparr>icache := x\<rparr>) | Panic e \<Rightarrow> Panic e | Block c t \<Rightarrow> Block c (t\<lparr>icache := x\<rparr>))"
  by (simp add: brelse_def kbind_def getbuf_def modbuf_def kwakeup_def upd_buf_def)

lemma brelse_icache_same: "brelse i s = Ret r t \<Longrightarrow> icache t = icache s"
  by (auto simp: brelse_def kbind_def getbuf_def modbuf_def kwakeup_def upd_buf_def split: if_splits)

lemma block_read_icache:
  assumes "block_read dev b s = Ret d u"
  shows "kbind (bread dev b) (\<lambda>bp. kbind (bdata bp) (\<lambda>d. kbind (modinode k (f d)) (\<lambda>_. kbind (brelse bp) K))) s =
    K () (u\<lparr>icache := (icache u)[k := f d (icache u ! k)]\<rparr>)"
proof -
  obtain i r where r: "bread dev b s = Ret i r" "b_data (bufs r ! i) = d" "brelse i r = Ret () u"
    using assms by (auto simp: block_read_def kbind_eq_Ret bdata_def kret_apply)
  then show ?thesis
    by (simp add: kbind_def bdata_def modinode_def brelse_icache brelse_icache_same [OF r(3)])
qed

text \<open>
  C21. \<open>ilock\<close> of a referenced inode that nobody has locked locks it; if the slot has not been read yet, it
  loads exactly the inode on the disk and marks the slot valid, or panics if that inode is free. It sleeps
  exactly when the inode is locked, and panics when there is no reference.
\<close>

theorem ilock_spec:
  assumes ready: "tx_ready s n" and ip: "ip = icache s ! k" "k < length (icache s)" "i_dev ip = ROOTDEV"
    and u: "usable s (IBLOCK (i_inum ip) (fs_sb s))"
  defines "di \<equiv> get_dinode (i_inum ip mod IPB) (view s (IBLOCK (i_inum ip) (fs_sb s)))"
  shows "(i_ref ip < 1 \<longrightarrow> ilock k s = Panic ''ilock'') \<and>
    (1 \<le> i_ref ip \<and> i_busy ip \<longrightarrow> ilock k s = Block (ChanInode k) s) \<and>
    (1 \<le> i_ref ip \<and> \<not> i_busy ip \<and> i_valid ip \<longrightarrow> ilock k s = Ret () (s\<lparr>icache := (icache s)[k := ip\<lparr>i_busy := True\<rparr>]\<rparr>)) \<and>
    (1 \<le> i_ref ip \<and> \<not> i_busy ip \<and> \<not> i_valid ip \<and> di_type di = 0 \<longrightarrow> ilock k s = Panic ''ilock: no type'') \<and>
    (1 \<le> i_ref ip \<and> \<not> i_busy ip \<and> \<not> i_valid ip \<and> di_type di \<noteq> 0 \<longrightarrow>
      kok (ilock k) s (\<lambda>_ t. icache t = (icache s)[k := load_dinode di ip\<lparr>i_busy := True, i_valid := True\<rparr>] \<and>
        view t = view s \<and> tx_ready t n))"
proof -
  let ?B = "IBLOCK (i_inum ip) (fs_sb s)"
  let ?s1 = "s\<lparr>icache := (icache s)[k := ip\<lparr>i_busy := True\<rparr>]\<rparr>"
  have r1: "tx_ready ?s1 n" "usable ?s1 ?B" using ready u by simp_all
  obtain v where v: "block_read ROOTDEV ?B ?s1 = Ret (view s ?B) v" "tx_frame ?s1 v" "tx_ready v n" "view v = view s"
    using fsblocks.rd_law [OF r1] by auto
  note fs = tx_frame_fs [OF v(2)]
  let ?x = "load_dinode di ip\<lparr>i_busy := True, i_valid := True\<rparr>"
  have ld: "load_dinode di (ip\<lparr>i_busy := True\<rparr>) = load_dinode di ip\<lparr>i_busy := True\<rparr>" for di
    by (simp add: load_dinode_def)
  have "ilock k s = (if di_type di = 0 then Panic ''ilock: no type'' else Ret () (v\<lparr>icache := (icache s)[k := ?x]\<rparr>))"
    if "1 \<le> i_ref ip \<and> \<not> i_busy ip \<and> \<not> i_valid ip"
    using that ip(2,3)
    by (simp add: ilock_def kstep ip(1) [symmetric] block_read_icache [OF v(1)] fs di_def kret_apply ld)
      (simp add: load_dinode_def)
  then show ?thesis
    using ip(2,3) v(3,4) by (auto simp: ilock_def kstep ip(1) [symmetric] kret_apply kok_def modinode_def)
qed

theorem ilock_spec_witness:
  "let ip = free_inode\<lparr>i_dev := ROOTDEV, i_inum := 3, i_ref := 1\<rparr> in
    ilock 0 (small_fs\<lparr>icache := [ip]\<rparr>) = Panic ''ilock: no type'' \<and>
    ilock 0 (small_fs\<lparr>icache := [ip\<lparr>i_busy := True\<rparr>]\<rparr>) = Block (ChanInode 0) (small_fs\<lparr>icache := [ip\<lparr>i_busy := True\<rparr>]\<rparr>) \<and>
    ilock 0 (small_fs\<lparr>icache := [ip\<lparr>i_valid := True\<rparr>]\<rparr>) =
      Ret () (small_fs\<lparr>icache := [ip\<lparr>i_busy := True, i_valid := True\<rparr>]\<rparr>)"
proof -
  let ?ip = "free_inode\<lparr>i_dev := ROOTDEV, i_inum := 3, i_ref := 1\<rparr>"
  have b: "IBLOCK 3 small_sb = 32" "(3 :: nat) mod IPB = 3" by (simp_all add: IBLOCK_def IPB_def small_sb_def)
  have z: "di_type (get_dinode 3 (small_disk 32)) = 0"
    by (simp add: get_dinode_def Let_def load16_def bslice_def dec16_def BSIZE_def numeral_eq_Suc small_disk_def)
  have r: "tx_ready (small_fs\<lparr>icache := [ip]\<rparr>) 0" "usable (small_fs\<lparr>icache := [ip]\<rparr>) 32" for ip
    by (simp_all add: small_fs_ready small_fs_usable)
  have "ilock 0 (small_fs\<lparr>icache := [?ip]\<rparr>) = Panic ''ilock: no type''"
    using ilock_spec [OF r(1) refl, of 0 ?ip] r(2) by (simp add: b z small_fs_cache free_inode_def)
  moreover have "ilock 0 (small_fs\<lparr>icache := [?ip\<lparr>i_busy := True\<rparr>]\<rparr>) =
      Block (ChanInode 0) (small_fs\<lparr>icache := [?ip\<lparr>i_busy := True\<rparr>]\<rparr>)"
    using ilock_spec [OF r(1) refl, of 0 "?ip\<lparr>i_busy := True\<rparr>"] r(2) by (simp add: b free_inode_def)
  moreover have "ilock 0 (small_fs\<lparr>icache := [?ip\<lparr>i_valid := True\<rparr>]\<rparr>) =
      Ret () (small_fs\<lparr>icache := [?ip\<lparr>i_busy := True, i_valid := True\<rparr>]\<rparr>)"
    using ilock_spec [OF r(1) refl, of 0 "?ip\<lparr>i_valid := True\<rparr>"] r(2) by (simp add: b free_inode_def)
  ultimately show ?thesis by (simp add: Let_def)
qed

end
