(* ===== verification/Content.thy ===== *)
theory Content
  imports Inode
begin

text \<open>
  File contents in \<open>fs.c\<close>: what \<open>bmap\<close>, \<open>readi\<close> and \<open>writei\<close> do to the bytes of a file whose blocks are
  allocated.
\<close>

text \<open>The block that holds block \<open>bn\<close> of a file, or 0, and byte \<open>i\<close> of the file.\<close>

definition block_of :: "'a fs_state_scheme \<Rightarrow> inode \<Rightarrow> nat \<Rightarrow> nat" where
  "block_of s ip bn = (if bn < NDIRECT then i_addrs ip ! bn
     else unat (load32 (view s (i_addrs ip ! NDIRECT)) (4 * (bn - NDIRECT))))"

definition file_byte :: "'a fs_state_scheme \<Rightarrow> inode \<Rightarrow> nat \<Rightarrow> byte" where
  "file_byte s ip i = view s (block_of s ip (i div BSIZE)) ! (i mod BSIZE)"

text \<open>
  The blocks of a file up to byte \<open>n\<close> are allocated, can be used, differ from each other and from the
  indirect block.
\<close>

definition file_ok :: "'a fs_state_scheme \<Rightarrow> inode \<Rightarrow> nat \<Rightarrow> bool" where
  "file_ok s ip n \<longleftrightarrow> i_dev ip = ROOTDEV \<and> n \<le> MAXFILE * BSIZE \<and>
     (\<forall>bn. bn * BSIZE < n \<longrightarrow> block_of s ip bn \<noteq> 0 \<and> usable s (block_of s ip bn) \<and>
        (NDIRECT \<le> bn \<longrightarrow> i_addrs ip ! NDIRECT \<noteq> 0 \<and> usable s (i_addrs ip ! NDIRECT)) \<and>
        (NDIRECT * BSIZE < n \<longrightarrow> block_of s ip bn \<noteq> i_addrs ip ! NDIRECT) \<and>
        (\<forall>bm. bm * BSIZE < n \<and> block_of s ip bm = block_of s ip bn \<longrightarrow> bm = bn))"

lemma MAXFILE_bound: "bn * BSIZE < n \<Longrightarrow> n \<le> MAXFILE * BSIZE \<Longrightarrow> bn < NDIRECT + NINDIRECT"
proof -
  assume "bn * BSIZE < n" "n \<le> MAXFILE * BSIZE"
  then have "bn * BSIZE < MAXFILE * BSIZE" by linarith
  then show ?thesis by (simp add: MAXFILE_def)
qed

lemma bmap_hit:
  fixes s :: "'a fs_state_scheme"
  assumes ready: "tx_ready s m" and ip: "icache s ! k = ip" and ok: "file_ok s ip n" and bn: "bn * BSIZE < n"
  shows "\<exists>t. bmap k bn s = Ret (block_of s ip bn) t \<and> tx_frame s t \<and> tx_ready t m \<and> view t = view s"
proof -
  have o: "i_dev ip = ROOTDEV" "block_of s ip bn \<noteq> 0"
    "NDIRECT \<le> bn \<Longrightarrow> i_addrs ip ! NDIRECT \<noteq> 0 \<and> usable s (i_addrs ip ! NDIRECT)"
    using ok bn by (auto simp: file_ok_def)
  have lim: "bn < NDIRECT + NINDIRECT" using ok bn MAXFILE_bound by (auto simp: file_ok_def)
  show ?thesis
  proof (cases "bn < NDIRECT")
    case True
    then have "bmap k bn s = Ret (block_of s ip bn) s"
      using o(2) by (simp add: bmap_def kstep ip block_of_def Let_def kret_apply)
    then show ?thesis using ready tx_frame_refl by (auto simp: tx_ready_def)
  next
    case False
    let ?a = "i_addrs ip ! NDIRECT"
    have a: "?a \<noteq> 0" "usable s ?a" using o(3) False by simp_all
    obtain v where v: "block_read ROOTDEV ?a s = Ret (view s ?a) v" "tx_frame s v" "tx_ready v m" "view v = view s"
      using fsblocks.rd_law [OF ready a(2)] by blast
    let ?b = "unat (load32 (view s ?a) (4 * (bn - NDIRECT)))"
    have b: "?b = block_of s ip bn" using False by (simp add: block_of_def)
    have "bmap k bn s = kbind (bread ROOTDEV ?a) (\<lambda>bp. kbind (bdata bp) (\<lambda>a.
          kbind (let addr = unat (load32 a (4 * (bn - NDIRECT))) in
             if addr = 0 then
               kbind (balloc ROOTDEV) (\<lambda>addr.
               kbind (bset bp (store32 (4 * (bn - NDIRECT)) (of_nat addr))) (\<lambda>_.
               kbind (log_write bp) (\<lambda>_.
               kret addr)))
             else kret addr) (\<lambda>addr. kbind (brelse bp) (\<lambda>_. kret addr)))) s"
      using False lim a(1) by (simp add: bmap_def kstep ip Let_def o(1) less_diff_conv2 cong: if_cong)
    also have "\<dots> = kret ?b v"
      using o(2) b by (intro block_read_split [OF v(1)]) (simp add: Let_def)
    finally show ?thesis using v b by (auto simp: kret_apply)
  qed
qed

text \<open>The block map and the bytes of a file depend only on the block contents.\<close>

lemma block_of_view: "view t = view s \<Longrightarrow> block_of t ip bn = block_of s ip bn"
  by (simp add: block_of_def)

lemma file_byte_view: "view t = view s \<Longrightarrow> file_byte t ip i = file_byte s ip i"
  by (simp add: file_byte_def block_of_def)

lemma file_ok_frame:
  assumes "tx_frame s t" "view t = view s"
  shows "file_ok t ip n = file_ok s ip n"
  unfolding file_ok_def block_of_view [OF assms(2)] usable_frame [OF assms(1)] ..

lemma file_ok_less: "file_ok s ip N \<Longrightarrow> n \<le> N \<Longrightarrow> file_ok s ip n"
  unfolding file_ok_def by (meson le_trans less_le_trans)

lemma div_chunk:
  assumes "i < chunk off n"
  shows "(off + i) div BSIZE = off div BSIZE" "(off + i) mod BSIZE = off mod BSIZE + i"
proof -
  have "off mod BSIZE < BSIZE" by (simp add: BSIZE_def)
  then have i: "off mod BSIZE + i < BSIZE" using assms unfolding chunk_def by linarith
  have "(off + i) mod BSIZE = (off mod BSIZE + i) mod BSIZE" by (simp add: mod_add_left_eq)
  also have "\<dots> = off mod BSIZE + i" using i by (rule mod_less)
  finally show m: "(off + i) mod BSIZE = off mod BSIZE + i" .
  have "BSIZE * ((off + i) div BSIZE) = BSIZE * (off div BSIZE)"
    using mult_div_mod_eq [of BSIZE "off + i"] mult_div_mod_eq [of BSIZE off] m by linarith
  then show "(off + i) div BSIZE = off div BSIZE" by (simp add: BSIZE_def)
qed

lemma off_in_block: "off mod BSIZE \<le> BSIZE"
  by (simp add: BSIZE_def)

lemma chunk_block: "0 < n \<Longrightarrow> off div BSIZE * BSIZE < off + n"
  using div_times_less_eq_dividend [of off BSIZE] by linarith

lemma map_upt_split: "c \<le> n \<Longrightarrow> map f [0..<n] = map f [0..<c] @ map (\<lambda>i. f (c + i)) [0..<n - c]"
  by (rule nth_equalityI) (auto simp: nth_append)

lemma readi_loop_ok:
  fixes s :: "'a fs_state_scheme"
  assumes "tx_ready s m" "icache s ! k = ip" "file_ok s ip (off + n)"
  shows "\<exists>t. readi_loop k off n s = Ret (map (\<lambda>i. file_byte s ip (off + i)) [0..<n]) t \<and> tx_frame s t \<and>
    tx_ready t m \<and> view t = view s"
  using assms
proof (induction n arbitrary: off s rule: less_induct)
  case (less n)
  note p = less.prems
  show ?case
  proof (cases "n = 0")
    case True
    then show ?thesis using p(1) tx_frame_refl by (auto simp: readi_loop.simps kret_apply tx_ready_def)
  next
    case False
    let ?c = "chunk off n" and ?bn = "off div BSIZE"
    have bn: "?bn * BSIZE < off + n" using False by (simp add: chunk_block)
    obtain s1 where s1: "bmap k ?bn s = Ret (block_of s ip ?bn) s1" "tx_frame s s1" "tx_ready s1 m" "view s1 = view s"
      using bmap_hit [OF p bn] by blast
    let ?b = "block_of s ip ?bn"
    have d: "i_dev ip = ROOTDEV" "usable s ?b" using p(3) bn by (auto simp: file_ok_def)
    have u1: "usable s1 ?b" using d(2) usable_frame [OF s1(2)] by simp
    obtain s2 where s2: "block_read ROOTDEV ?b s1 = Ret (view s ?b) s2" "tx_frame s1 s2" "tx_ready s2 m" "view s2 = view s"
      using fsblocks.rd_law [OF s1(3) u1] s1(4) by auto
    have fr: "tx_frame s s2" by (rule tx_frame_trans [OF s1(2) s2(2)])
    have len: "length (view s ?b) = BSIZE" by (rule fsblocks.conts_length [OF p(1) d(2)])
    have "\<exists>t. readi_loop k (off + ?c) (n - ?c) s2 =
        Ret (map (\<lambda>i. file_byte s2 ip (off + ?c + i)) [0..<n - ?c]) t \<and> tx_frame s2 t \<and> tx_ready t m \<and> view t = view s2"
    proof (rule less.IH)
      show "n - ?c < n" using False chunk_pos [of n off] by simp
      show "icache s2 ! k = ip" using p(2) tx_frame_fs(2) [OF fr] by simp
      show "file_ok s2 ip (off + ?c + (n - ?c))" using p(3) file_ok_frame [OF fr s2(4)] chunk_le [of off n] by simp
    qed (rule s2(3))
    then obtain t where t: "readi_loop k (off + ?c) (n - ?c) s2 =
        Ret (map (\<lambda>i. file_byte s ip (off + ?c + i)) [0..<n - ?c]) t" "tx_frame s2 t" "tx_ready t m" "view t = view s"
      using s2(4) by (auto simp: file_byte_view [OF s2(4)])
    have sl: "bslice (off mod BSIZE) ?c (view s ?b) = map (\<lambda>i. file_byte s ip (off + i)) [0..<?c]"
    proof (rule nth_equalityI)
      show "length (bslice (off mod BSIZE) ?c (view s ?b)) = length (map (\<lambda>i. file_byte s ip (off + i)) [0..<?c])"
        by (simp add: len chunk_def)
      fix i assume "i < length (bslice (off mod BSIZE) ?c (view s ?b))"
      then have "i < ?c" by simp
      then show "bslice (off mod BSIZE) ?c (view s ?b) ! i = map (\<lambda>i. file_byte s ip (off + i)) [0..<?c] ! i"
        using len off_in_block [of off] by (simp add: bslice_def file_byte_def div_chunk)
    qed
    have "readi_loop k off n s = Ret (bslice (off mod BSIZE) ?c (view s ?b) @ map (\<lambda>i. file_byte s ip (off + ?c + i)) [0..<n - ?c]) t"
    proof -
      let ?K = "kbind (readi_loop k (off + ?c) (n - ?c)) (\<lambda>rest. kret (bslice (off mod BSIZE) ?c (view s ?b) @ rest))"
      have "readi_loop k off n s = kbind (bread ROOTDEV ?b) (\<lambda>bp. kbind (bdata bp) (\<lambda>d. kbind (brelse bp) (\<lambda>_.
          kbind (readi_loop k (off + ?c) (n - ?c)) (\<lambda>rest. kret (bslice (off mod BSIZE) ?c d @ rest))))) s1"
        by (subst readi_loop.simps) (simp add: False kstep p(2) d(1) kbind_def [of "bmap _ _"] s1(1))
      also have "\<dots> = ?K s2" by (rule block_read_split [OF s2(1)]) simp
      finally show ?thesis by (simp add: kbind_def t(1) kret_apply)
    qed
    moreover have "map (\<lambda>i. file_byte s ip (off + i)) [0..<n] =
        map (\<lambda>i. file_byte s ip (off + i)) [0..<?c] @ map (\<lambda>i. file_byte s ip (off + ?c + i)) [0..<n - ?c]"
      using map_upt_split [OF chunk_le [of off n], of "\<lambda>i. file_byte s ip (off + i)"] by (simp add: add.assoc)
    ultimately show ?thesis
      using sl tx_frame_trans [OF fr t(2)] t(3,4) by metis
  qed
qed

text \<open>The number of blocks that a copy of \<open>n\<close> bytes at \<open>off\<close> touches.\<close>

definition touched :: "nat \<Rightarrow> nat \<Rightarrow> nat" where
  "touched off n = (if n = 0 then 0 else (off + n - 1) div BSIZE - off div BSIZE + 1)"

lemma touched_step:
  assumes "0 < n"
  shows "touched off n = Suc (touched (off + chunk off n) (n - chunk off n))"
proof (cases "n \<le> BSIZE - off mod BSIZE")
  case True
  then have c: "chunk off n = n" by (simp add: chunk_def)
  have "(off + (n - 1)) div BSIZE = off div BSIZE"
    using assms c by (intro div_chunk(1) [of _ _ n]) simp
  then show ?thesis using assms c by (simp add: touched_def)
next
  case False
  then have c: "chunk off n = BSIZE - off mod BSIZE" by (simp add: chunk_def)
  have p: "0 < BSIZE" "off mod BSIZE < BSIZE" by (simp_all add: BSIZE_def)
  have e: "off + chunk off n = BSIZE * (off div BSIZE + 1)"
  proof -
    have "off + (BSIZE - off mod BSIZE) = BSIZE * (off div BSIZE) + BSIZE"
      using p(2) mult_div_mod_eq [of BSIZE off] by linarith
    then show ?thesis by (simp add: c)
  qed
  have d: "(off + chunk off n) div BSIZE = off div BSIZE + 1" using p by (simp add: e)
  have n: "chunk off n < n" using False c p by simp
  have "off + chunk off n \<le> off + n - 1" using n by simp
  then have "off div BSIZE + 1 \<le> (off + n - 1) div BSIZE" using d div_le_mono by metis
  then show ?thesis using n d assms by (simp add: touched_def)
qed

text \<open>Overwriting one block of the file.\<close>

lemma block_of_upd:
  assumes ok: "file_ok s ip N" and bn: "bn * BSIZE < N" and v: "view t = (view s)(block_of s ip bn := d)"
    and bm: "bm * BSIZE < N"
  shows "block_of t ip bm = block_of s ip bm"
proof (cases "bm < NDIRECT")
  case False
  then have "NDIRECT * BSIZE \<le> bm * BSIZE" by (intro mult_le_mono1) simp
  then have "NDIRECT * BSIZE < N" using bm by linarith
  then have "block_of s ip bn \<noteq> i_addrs ip ! NDIRECT" using ok bn by (auto simp: file_ok_def)
  then show ?thesis by (simp add: block_of_def v)
qed (simp add: block_of_def)

lemma file_ok_upd:
  assumes ok: "file_ok s ip N" and bn: "bn * BSIZE < N" and v: "view t = (view s)(block_of s ip bn := d)"
    and fr: "tx_frame s t"
  shows "file_ok t ip N"
proof -
  note b = block_of_upd [OF ok bn v] and u = usable_frame [OF fr]
  show ?thesis
    unfolding file_ok_def u
  proof (intro conjI allI impI)
    fix bn assume n: "bn * BSIZE < N"
    show "block_of t ip bn \<noteq> 0" "usable s (block_of t ip bn)"
      using ok n b [OF n] by (auto simp: file_ok_def)
    show "i_addrs ip ! NDIRECT \<noteq> 0" "usable s (i_addrs ip ! NDIRECT)" if "NDIRECT \<le> bn"
      using ok n that by (auto simp: file_ok_def)
    show "block_of t ip bn \<noteq> i_addrs ip ! NDIRECT" if "NDIRECT * BSIZE < N"
      using ok n b [OF n] that by (auto simp: file_ok_def)
    fix bm assume m: "bm * BSIZE < N \<and> block_of t ip bm = block_of t ip bn"
    then have "block_of s ip bm = block_of s ip bn" using b [OF n] b [of bm] by simp
    then show "bm = bn" using ok n m by (auto simp: file_ok_def)
  qed (use ok in \<open>auto simp: file_ok_def\<close>)
qed

lemma file_byte_upd:
  assumes ok: "file_ok s ip N" and bn: "bn * BSIZE < N" and v: "view t = (view s)(block_of s ip bn := d)"
    and i: "i < N"
  shows "file_byte t ip i = (if i div BSIZE = bn then d ! (i mod BSIZE) else file_byte s ip i)"
proof -
  have m: "i div BSIZE * BSIZE < N" using i div_times_less_eq_dividend [of i BSIZE] by linarith
  have "block_of s ip (i div BSIZE) = block_of s ip bn \<longleftrightarrow> i div BSIZE = bn"
    using ok m bn by (auto simp: file_ok_def)
  then show ?thesis
    using block_of_upd [OF ok bn v m] by (auto simp: file_byte_def v)
qed

lemma in_chunk:
  assumes "i div BSIZE = off div BSIZE"
  shows "off \<le> i \<and> i < off + chunk off n \<longleftrightarrow> off mod BSIZE \<le> i mod BSIZE \<and> i mod BSIZE < off mod BSIZE + chunk off n"
    "off \<le> i \<Longrightarrow> i mod BSIZE - off mod BSIZE = i - off"
proof -
  have e: "BSIZE * (off div BSIZE) + i mod BSIZE = i" "BSIZE * (off div BSIZE) + off mod BSIZE = off"
    using mult_div_mod_eq [of BSIZE i] mult_div_mod_eq [of BSIZE off] by (simp_all add: assms)
  show "off \<le> i \<and> i < off + chunk off n \<longleftrightarrow> off mod BSIZE \<le> i mod BSIZE \<and> i mod BSIZE < off mod BSIZE + chunk off n"
    using e by linarith
  show "off \<le> i \<Longrightarrow> i mod BSIZE - off mod BSIZE = i - off" using e by linarith
qed

lemma writei_loop_ok:
  fixes s :: "'a fs_state_scheme"
  assumes "tx_ready s (touched off n + m)" "icache s ! k = ip" "file_ok s ip N" "off + n \<le> N" "length src = n"
  shows "\<exists>t. writei_loop k src off n s = Ret () t \<and> tx_frame s t \<and> tx_ready t m \<and> file_ok t ip N \<and>
    (\<forall>i<N. file_byte t ip i = (if off \<le> i \<and> i < off + n then src ! (i - off) else file_byte s ip i))"
  using assms
proof (induction n arbitrary: off src s rule: less_induct)
  case (less n)
  note p = less.prems
  show ?case
  proof (cases "n = 0")
    case True
    then show ?thesis using p tx_frame_refl [of s] by (auto simp: writei_loop.simps kret_apply tx_ready_def touched_def)
  next
    case False
    let ?c = "chunk off n" and ?bn = "off div BSIZE"
    have bn: "?bn * BSIZE < N" using chunk_block [of n off] False p(4) by simp
    let ?b = "block_of s ip ?bn"
    have r: "tx_ready s (Suc (touched (off + ?c) (n - ?c) + m))"
      using p(1) touched_step [of n off] False by simp
    obtain s1 where s1: "bmap k ?bn s = Ret ?b s1" "tx_frame s s1"
      "tx_ready s1 (Suc (touched (off + ?c) (n - ?c) + m))" "view s1 = view s"
      using bmap_hit [OF r p(2,3) bn] by blast
    have d: "i_dev ip = ROOTDEV" "usable s ?b" using p(3) bn by (auto simp: file_ok_def)
    have u1: "usable s1 ?b" using d(2) usable_frame [OF s1(2)] by simp
    let ?f = "splice_at (off mod BSIZE) (take ?c src)"
    have len: "length (view s ?b) = BSIZE" by (rule fsblocks.conts_length [OF p(1) d(2)])
    have fit: "off mod BSIZE + length (take ?c src) \<le> length (view s ?b)"
      using len p(5) off_in_block [of off] by (auto simp: chunk_def)
    have "length (?f (view s1 ?b)) = BSIZE" using fit len s1(4) by simp
    from fsblocks.upd_law [where f = ?f, OF s1(3) u1 this]
    obtain s2 where s2: "block_update ROOTDEV ?b ?f s1 = Ret () s2" "tx_frame s1 s2"
      "tx_ready s2 (touched (off + ?c) (n - ?c) + m)" "view s2 = (view s)(?b := ?f (view s ?b))"
      using s1(4) by auto
    have fr: "tx_frame s s2" by (rule tx_frame_trans [OF s1(2) s2(2)])
    have ok2: "file_ok s2 ip N" by (rule file_ok_upd [OF p(3) bn s2(4) fr])
    have cn: "?c \<le> n" "0 < ?c" using False by (simp_all add: chunk_le)
    have "\<exists>t. writei_loop k (drop ?c src) (off + ?c) (n - ?c) s2 = Ret () t \<and> tx_frame s2 t \<and> tx_ready t m \<and> file_ok t ip N \<and>
      (\<forall>i<N. file_byte t ip i = (if off + ?c \<le> i \<and> i < off + ?c + (n - ?c) then drop ?c src ! (i - (off + ?c)) else file_byte s2 ip i))"
      using p cn False ok2 s2(3) tx_frame_fs(2) [OF fr] by (intro less.IH) auto
    then obtain t where t: "writei_loop k (drop ?c src) (off + ?c) (n - ?c) s2 = Ret () t" "tx_frame s2 t" "tx_ready t m" "file_ok t ip N"
      "\<And>i. i < N \<Longrightarrow> file_byte t ip i = (if off + ?c \<le> i \<and> i < off + n then drop ?c src ! (i - (off + ?c)) else file_byte s2 ip i)"
      using cn by auto
    have "writei_loop k src off n s = kbind (block_update ROOTDEV ?b ?f) (\<lambda>_. writei_loop k (drop ?c src) (off + ?c) (n - ?c)) s1"
      by (subst writei_loop.simps)
        (simp add: False kstep p(2) d(1) kbind_def [of "bmap _ _"] s1(1) block_update_def kbind_assoc)
    then have "writei_loop k src off n s = Ret () t" by (simp add: kbind_def s2(1) t(1))
    moreover have "file_byte t ip i = (if off \<le> i \<and> i < off + n then src ! (i - off) else file_byte s ip i)" if i: "i < N" for i
    proof (cases "i div BSIZE = ?bn")
      case True
      have "i mod BSIZE < BSIZE" by (simp add: BSIZE_def)
      then have "file_byte s2 ip i = (if off \<le> i \<and> i < off + ?c then src ! (i - off) else file_byte s ip i)"
        using file_byte_upd [OF p(3) bn s2(4) i] True in_chunk(1) [OF True, of n] in_chunk(2) [OF True] fit len p(5) cn(1)
        by (auto simp: nth_splice_at file_byte_def)
      then show ?thesis using t(5) [OF i] cn p(5) by auto
    next
      case False
      have "\<not> (off \<le> i \<and> i < off + ?c)"
      proof
        assume a: "off \<le> i \<and> i < off + ?c"
        then have "i - off < ?c" by linarith
        from div_chunk(1) [OF this] a False show False by simp
      qed
      then show ?thesis
        using t(5) [OF i] file_byte_upd [OF p(3) bn s2(4) i] False cn p(5) by auto
    qed
    ultimately show ?thesis using tx_frame_trans [OF fr t(2)] t(3,4) by blast
  qed
qed


text \<open>
  C31. Reading a file whose blocks are allocated: \<open>readi\<close> rejects an offset beyond the end and a sum that wraps
  around 32 bits; otherwise it returns the bytes of the file from the offset on, as many as were asked for or
  as there are, and changes no block.
\<close>

theorem readi_spec:
  assumes "tx_ready s m" "icache s ! k = ip" "i_type ip \<noteq> T_DEV" "file_ok s ip (i_size ip)" "off < 2 ^ 32" "n < 2 ^ 32"
  shows "(off > i_size ip \<or> off + n \<ge> 2 ^ 32 \<longrightarrow> readi dsw k off n s = Ret (-1, []) s) \<and>
    (off \<le> i_size ip \<and> off + n < 2 ^ 32 \<longrightarrow>
      kok (readi dsw k off n) s (\<lambda>(r, d) t. r = int (min n (i_size ip - off)) \<and>
        d = map (file_byte s ip) [off..<off + min n (i_size ip - off)] \<and> view t = view s \<and> tx_ready t m \<and> tx_frame s t))"
proof (intro conjI impI)
  assume "off > i_size ip \<or> off + n \<ge> 2 ^ 32"
  then have "off > i_size ip \<or> wrap32 (off + n) < off"
    using assms(5,6) by (auto simp: wrap32_def mod_if)
  then show "readi dsw k off n s = Ret (-1, []) s"
    using assms(3) by (auto simp: readi_def kstep assms(2) kret_apply)
next
  let ?n = "min n (i_size ip - off)"
  assume a: "off \<le> i_size ip \<and> off + n < 2 ^ 32"
  have c: "(if off + n > i_size ip then i_size ip - off else n) = ?n" using a by auto
  have "file_ok s ip (off + ?n)" using a assms(4) by (auto intro: file_ok_less)
  then obtain t where t: "readi_loop k off ?n s = Ret (map (\<lambda>i. file_byte s ip (off + i)) [0..<?n]) t" "tx_frame s t"
    "tx_ready t m" "view t = view s"
    using readi_loop_ok [OF assms(1,2)] by blast
  have "readi dsw k off n s = kbind (readi_loop k off ?n) (\<lambda>d. kret (int ?n, d)) s"
    using a assms(3) unfolding c [symmetric] by (simp add: readi_def kstep assms(2) wrap32_def Let_def)
  also have "\<dots> = Ret (int ?n, map (file_byte s ip) [off..<off + ?n]) t"
  proof -
    have "map (\<lambda>i. file_byte s ip (off + i)) [0..<?n] = map (file_byte s ip) [off..<off + ?n]"
      by (rule nth_equalityI) simp_all
    then show ?thesis by (simp add: kbind_def t(1) kret_apply)
  qed
  finally show "kok (readi dsw k off n) s (\<lambda>(r, d) t. r = int ?n \<and> d = map (file_byte s ip) [off..<off + ?n] \<and>
      view t = view s \<and> tx_ready t m \<and> tx_frame s t)"
    using t by (simp add: kok_def)
qed


text \<open>A file of 600 bytes in blocks 34 and 35 of the small file system.\<close>

definition small_file :: inode where
  "small_file = free_inode\<lparr>i_dev := ROOTDEV, i_inum := 2, i_ref := 1, i_busy := True, i_valid := True, i_type := T_FILE,
     i_nlink := 1, i_size := 600, i_addrs := [34, 35] @ replicate 11 0\<rparr>"

definition small_fs_file :: fs_state where
  "small_fs_file = small_fs\<lparr>icache := small_file # replicate 49 free_inode\<rparr>"

lemma small_file_sel [simp]: "i_dev small_file = ROOTDEV" "i_size small_file = 600" "i_type small_file = T_FILE"
  by (simp_all add: small_file_def)

lemma small_file_block: "bn < 2 \<Longrightarrow> block_of s small_file bn = 34 + bn"
  by (auto simp: block_of_def small_file_def NDIRECT_def less_Suc_eq numeral_2_eq_2)

lemma small_file_ok: "file_ok small_fs_file small_file 600"
proof -
  have b: "bn * BSIZE < 600 \<longleftrightarrow> bn < 2" for bn by (auto simp: BSIZE_def)
  have c: "(600::nat) \<le> MAXFILE * BSIZE" "\<not> NDIRECT < 2" "\<And>bn. bn < 2 \<Longrightarrow> \<not> NDIRECT \<le> bn" by (simp_all add: param_defs)
  have u: "usable small_fs_file (34 + bn)" if "bn < 2" for bn
    using that by (simp add: small_fs_file_def small_fs_usable)
  show ?thesis
    unfolding file_ok_def b using c u by (auto simp: small_file_block)
qed

lemma small_file_byte: "i < 600 \<Longrightarrow> file_byte small_fs_file small_file i = 0"
proof -
  assume "i < 600"
  then have "block_of small_fs_file small_file (i div BSIZE) = 34 + i div BSIZE"
    by (intro small_file_block) (auto simp: BSIZE_def)
  then show ?thesis by (simp add: file_byte_def small_fs_file_def small_fs_cache small_disk_def BSIZE_def)
qed

lemma small_fs_file_ready: "n < 30 \<Longrightarrow> tx_ready small_fs_file n" and small_fs_file_slot: "icache small_fs_file ! 0 = small_file"
  by (simp_all add: small_fs_file_def small_fs_ready)

theorem readi_spec_witness:
  "kok (readi (\<lparr>dev_read = (\<lambda>_. None), dev_write = (\<lambda>_. None)\<rparr>) 0 590 20) small_fs_file (\<lambda>(r, d) t. r = 10 \<and> d = replicate 10 0) \<and>
   readi (\<lparr>dev_read = (\<lambda>_. None), dev_write = (\<lambda>_. None)\<rparr>) 0 601 20 small_fs_file = Ret (-1, []) small_fs_file"
proof -
  have p: "tx_ready small_fs_file 1" "icache small_fs_file ! 0 = small_file" "i_type small_file \<noteq> T_DEV"
    "file_ok small_fs_file small_file (i_size small_file)"
    using small_file_ok by (simp_all add: small_fs_file_ready small_fs_file_slot T_FILE_def T_DEV_def)
  have "map (file_byte small_fs_file small_file) [590..<600] = replicate 10 0"
    by (simp add: small_file_byte upt_rec) (simp add: numeral_eq_Suc)
  then show ?thesis
    using readi_spec [OF p, of 590 20] readi_spec [OF p, of 601 20] by (auto simp: kok_def)
qed


end
