(* ===== verification/Vm.thy ===== *)
theory Vm
  imports Kalloc Printf
begin

text \<open>
  Virtual memory: the page-table macros of \<open>mmu.h\<close> and the page-table routines of \<open>vm.c\<close>. A page directory is
  the kernel address of its page; an entry is read and written in the page it lies in. Dereferencing a null pointer,
  undefined in C, stops the model with the message \<open>undefined: null pointer\<close>. User addresses that loops step
  through stay below \<open>KERNBASE\<close> and are natural numbers; kernel mappings reach the top of the address space
  and are counted in pages.
\<close>

definition NPDENTRIES :: nat where "NPDENTRIES = 1024"
definition NPTENTRIES :: nat where "NPTENTRIES = 1024"
definition PTXSHIFT :: nat where "PTXSHIFT = 12"
definition PDXSHIFT :: nat where "PDXSHIFT = 22"

definition PDX :: "32 word \<Rightarrow> 32 word" where "PDX va = drop_bit PDXSHIFT va AND 0x3FF"
definition PTX :: "32 word \<Rightarrow> 32 word" where "PTX va = drop_bit PTXSHIFT va AND 0x3FF"

definition PGADDR :: "32 word \<Rightarrow> 32 word \<Rightarrow> 32 word \<Rightarrow> 32 word" where
  "PGADDR d t off = push_bit PDXSHIFT d OR push_bit PTXSHIFT t OR off"

definition PTE_P :: "32 word" where "PTE_P = 0x001"
definition PTE_W :: "32 word" where "PTE_W = 0x002"
definition PTE_U :: "32 word" where "PTE_U = 0x004"
definition PTE_ADDR :: "32 word \<Rightarrow> 32 word" where "PTE_ADDR pte = pte AND NOT 0xFFF"
definition PTE_FLAGS :: "32 word \<Rightarrow> 32 word" where "PTE_FLAGS pte = pte AND 0xFFF"

lemmas pte_defs = PTE_P_def PTE_W_def PTE_U_def PTE_ADDR_def PTE_FLAGS_def

text \<open>Reading and writing a word of kernel memory.\<close>

definition ldl :: "32 word \<Rightarrow> ('a kmem_state_scheme, 32 word) kern" where
  "ldl a = kget (\<lambda>s. load32 (pages s (frame a)) (unat a mod PGSIZE))"

definition stl :: "32 word \<Rightarrow> 32 word \<Rightarrow> ('a kmem_state_scheme, unit) kern" where
  "stl a w = kmod (\<lambda>s. set_page (frame a) (store32 (unat a mod PGSIZE) w (pages s (frame a))) s)"

text \<open>\<open>memset(v, 0, PGSIZE)\<close> and \<open>memmove(v, src, n)\<close> within one page.\<close>

definition zero_page :: "32 word \<Rightarrow> ('a kmem_state_scheme, unit) kern" where
  "zero_page v = (if v = 0 then kpanic ''undefined: null pointer'' else kmod (set_page (frame v) (replicate PGSIZE 0)))"

definition put_bytes :: "32 word \<Rightarrow> byte list \<Rightarrow> ('a kmem_state_scheme, unit) kern" where
  "put_bytes v bs = (if v = 0 then kpanic ''undefined: null pointer''
     else kmod (\<lambda>s. set_page (frame v) (splice_at (unat v mod PGSIZE) bs (pages s (frame v))) s))"

definition walkpgdir :: "32 word \<Rightarrow> 32 word \<Rightarrow> bool \<Rightarrow> ('a kmem_state_scheme, 32 word) kern" where
  "walkpgdir pgdir va alloc =
     (let pde = pgdir + 4 * PDX va in
      kbind (ldl pde) (\<lambda>e.
      if e AND PTE_P \<noteq> 0 then kret (p2v (PTE_ADDR e) + 4 * PTX va)
      else if \<not> alloc then kret 0
      else
        kbind kalloc (\<lambda>pgtab.
        if pgtab = 0 then kret 0
        else
          kbind (zero_page pgtab) (\<lambda>_.
          kbind (stl pde (v2p pgtab OR PTE_P OR PTE_W OR PTE_U)) (\<lambda>_.
          kret (pgtab + 4 * PTX va))))))"

text \<open>The word at a kernel address; where the entry for \<open>va\<close> lies, or 0; and the entry, or 0.\<close>

definition word_at :: "'a kmem_state_scheme \<Rightarrow> 32 word \<Rightarrow> 32 word" where
  "word_at s a = load32 (pages s (frame a)) (unat a mod PGSIZE)"

definition pte_addr :: "'a kmem_state_scheme \<Rightarrow> 32 word \<Rightarrow> 32 word \<Rightarrow> 32 word" where
  "pte_addr s pgdir va = (let e = word_at s (pgdir + 4 * PDX va) in
     if e AND PTE_P \<noteq> 0 then p2v (PTE_ADDR e) + 4 * PTX va else 0)"

definition pte_of :: "'a kmem_state_scheme \<Rightarrow> 32 word \<Rightarrow> 32 word \<Rightarrow> 32 word" where
  "pte_of s pgdir va = (let a = pte_addr s pgdir va in if a = 0 then 0 else word_at s a)"

lemma mem_step [kstep]:
  "kbind (ldl a) g s = g (word_at s a) s"
  "kbind (stl a w) h s = h () (set_page (frame a) (store32 (unat a mod PGSIZE) w (pages s (frame a))) s)"
  by (simp_all add: ldl_def stl_def word_at_def kstep)

lemma walk_lookup: "walkpgdir pgdir va False s = Ret (pte_addr s pgdir va) s"
  by (simp add: walkpgdir_def pte_addr_def Let_def kstep kret_apply)

lemma walk_step [kstep]: "kbind (walkpgdir pgdir va False) g s = g (pte_addr s pgdir va) s"
  by (simp add: kbind_def walk_lookup)

text \<open>The frames a page table occupies; writing any other frame leaves the translation alone.\<close>

definition pt_frames :: "'a kmem_state_scheme \<Rightarrow> 32 word \<Rightarrow> nat set" where
  "pt_frames s pgdir = (\<lambda>va. frame (pgdir + 4 * PDX va)) ` UNIV \<union> (\<lambda>va. frame (pte_addr s pgdir va)) ` {va. pte_addr s pgdir va \<noteq> 0}"

lemma vm_cong:
  assumes "pages t = pages s"
  shows "word_at t = word_at s" "pte_addr t = pte_addr s" "pte_of t = pte_of s" "pt_frames t = pt_frames s"
proof -
  show w: "word_at t = word_at s" by (simp add: fun_eq_iff word_at_def assms)
  show a: "pte_addr t = pte_addr s" unfolding fun_eq_iff pte_addr_def w by simp
  show "pte_of t = pte_of s" unfolding fun_eq_iff pte_of_def w a by simp
  show "pt_frames t = pt_frames s" unfolding fun_eq_iff pt_frames_def a by simp
qed

lemma word_at_set_page: "frame a \<noteq> f \<Longrightarrow> word_at (set_page f bs s) a = word_at s a"
  by (simp add: word_at_def set_page_def)

lemma pte_addr_set_page: "f \<notin> pt_frames s pgdir \<Longrightarrow> pte_addr (set_page f bs s) pgdir va = pte_addr s pgdir va"
  unfolding pte_addr_def by (subst word_at_set_page) (auto simp: pt_frames_def)

lemma pte_of_set_page: "f \<notin> pt_frames s pgdir \<Longrightarrow> pte_of (set_page f bs s) pgdir va = pte_of s pgdir va"
proof -
  assume f: "f \<notin> pt_frames s pgdir"
  then have "pte_addr s pgdir va \<noteq> 0 \<Longrightarrow> frame (pte_addr s pgdir va) \<noteq> f" by (auto simp: pt_frames_def)
  then show ?thesis by (simp add: pte_of_def Let_def pte_addr_set_page [OF f] word_at_set_page)
qed

lemma pt_frames_set_page: "f \<notin> pt_frames s pgdir \<Longrightarrow> pt_frames (set_page f bs s) pgdir = pt_frames s pgdir"
  using pte_addr_set_page [of f s pgdir bs] by (simp add: pt_frames_def)

text \<open>
  The loop of \<open>mappages\<close>: \<open>n\<close> is the number of pages between \<open>a\<close> and \<open>last\<close>, so \<open>a == last\<close> is \<open>n = 0\<close>; both
  are page aligned.
\<close>

fun mappages_loop :: "32 word \<Rightarrow> nat \<Rightarrow> 32 word \<Rightarrow> 32 word \<Rightarrow> 32 word \<Rightarrow> ('a kmem_state_scheme, int) kern" where
  "mappages_loop pgdir n a pa perm =
     kbind (walkpgdir pgdir a True) (\<lambda>pte.
     if pte = 0 then kret (-1)
     else
       kbind (ldl pte) (\<lambda>e.
       if e AND PTE_P \<noteq> 0 then kpanic ''remap''
       else
         kbind (stl pte (pa OR perm OR PTE_P)) (\<lambda>_.
         case n of 0 \<Rightarrow> kret 0 | Suc m \<Rightarrow> mappages_loop pgdir m (a + 4096) (pa + 4096) perm)))"

declare mappages_loop.simps [simp del]

definition mappages :: "32 word \<Rightarrow> 32 word \<Rightarrow> 32 word \<Rightarrow> 32 word \<Rightarrow> 32 word \<Rightarrow> ('a kmem_state_scheme, int) kern" where
  "mappages pgdir va sz pa perm =
     (let a = PGROUNDDOWN va; lst = PGROUNDDOWN (va + sz - 1)
      in mappages_loop pgdir (unat (lst - a) div PGSIZE) a pa perm)"

record kmap =
  km_virt :: "32 word"
  km_phys_start :: "32 word"
  km_phys_end :: "32 word"
  km_perm :: "32 word"

definition kmap_table :: "32 word \<Rightarrow> kmap list" where
  "kmap_table data =
     [\<lparr>km_virt = KERNBASE, km_phys_start = 0, km_phys_end = EXTMEM, km_perm = PTE_W\<rparr>,
      \<lparr>km_virt = KERNLINK, km_phys_start = v2p KERNLINK, km_phys_end = v2p data, km_perm = 0\<rparr>,
      \<lparr>km_virt = data, km_phys_start = v2p data, km_phys_end = PHYSTOP, km_perm = PTE_W\<rparr>,
      \<lparr>km_virt = DEVSPACE, km_phys_start = DEVSPACE, km_phys_end = 0, km_perm = PTE_W\<rparr>]"

fun setupkvm_loop :: "32 word \<Rightarrow> kmap list \<Rightarrow> ('a kmem_state_scheme, 32 word) kern" where
  "setupkvm_loop pgdir [] = kret pgdir"
| "setupkvm_loop pgdir (k # ks) =
     kbind (mappages pgdir (km_virt k) (km_phys_end k - km_phys_start k) (km_phys_start k) (km_perm k)) (\<lambda>r.
     if r < 0 then kret 0 else setupkvm_loop pgdir ks)"

definition setupkvm :: "('a kmem_state_scheme, 32 word) kern" where
  "setupkvm =
     kbind kalloc (\<lambda>pgdir.
     if pgdir = 0 then kret 0
     else
       kbind (zero_page pgdir) (\<lambda>_.
       if p2v PHYSTOP > DEVSPACE then kpanic ''PHYSTOP too high''
       else kbind (kget kernel_data) (\<lambda>data. setupkvm_loop pgdir (kmap_table data))))"

definition inituvm :: "32 word \<Rightarrow> byte list \<Rightarrow> ('a kmem_state_scheme, unit) kern" where
  "inituvm pgdir init =
     (if length init \<ge> PGSIZE then kpanic ''inituvm: more than a page''
      else
        kbind kalloc (\<lambda>mem.
        kbind (zero_page mem) (\<lambda>_.
        kbind (mappages pgdir 0 4096 (v2p mem) (PTE_W OR PTE_U)) (\<lambda>_.
        put_bytes mem init))))"

text \<open>The loop of \<open>deallocuvm\<close>, from \<open>a\<close> up to \<open>oldsz\<close>; a missing page table skips its 1024 pages.\<close>

function deallocuvm_loop :: "32 word \<Rightarrow> nat \<Rightarrow> nat \<Rightarrow> ('a kmem_state_scheme, unit) kern" where
  "deallocuvm_loop pgdir a oldsz =
     (if a < oldsz then
        kbind (walkpgdir pgdir (of_nat a) False) (\<lambda>pte.
        if pte = 0 then deallocuvm_loop pgdir (a + (NPTENTRIES - 1) * PGSIZE + PGSIZE) oldsz
        else
          kbind (ldl pte) (\<lambda>e.
          if e AND PTE_P \<noteq> 0 then
            (if PTE_ADDR e = 0 then kpanic ''kfree''
             else
               kbind (kfree (p2v (PTE_ADDR e))) (\<lambda>_.
               kbind (stl pte 0) (\<lambda>_.
               deallocuvm_loop pgdir (a + PGSIZE) oldsz)))
          else deallocuvm_loop pgdir (a + PGSIZE) oldsz))
      else kret ())"
  by pat_completeness auto
termination
  by (relation "measure (\<lambda>(pgdir, a, oldsz). oldsz - a)") (auto simp: PGSIZE_def)

declare deallocuvm_loop.simps [simp del]

definition deallocuvm :: "32 word \<Rightarrow> 32 word \<Rightarrow> 32 word \<Rightarrow> ('a kmem_state_scheme, 32 word) kern" where
  "deallocuvm pgdir oldsz newsz =
     (if newsz \<ge> oldsz then kret oldsz
      else kbind (deallocuvm_loop pgdir (unat (PGROUNDUP newsz)) (unat oldsz)) (\<lambda>_. kret newsz))"

text \<open>The loop of \<open>allocuvm\<close>; the result of \<open>mappages\<close> is not looked at.\<close>

function allocuvm_loop :: "32 word \<Rightarrow> nat \<Rightarrow> 32 word \<Rightarrow> 32 word \<Rightarrow> ('a kmem_state_scheme, 32 word) kern" where
  "allocuvm_loop pgdir a oldsz newsz =
     (if a < unat newsz then
        kbind kalloc (\<lambda>mem.
        if mem = 0 then
          kbind (cprintf (''allocuvm out of memory'' @ [CHR 0x0A]) []) (\<lambda>_.
          kbind (deallocuvm pgdir newsz oldsz) (\<lambda>_.
          kret 0))
        else
          kbind (zero_page mem) (\<lambda>_.
          kbind (mappages pgdir (of_nat a) 4096 (v2p mem) (PTE_W OR PTE_U)) (\<lambda>_.
          allocuvm_loop pgdir (a + PGSIZE) oldsz newsz)))
      else kret newsz)"
  by pat_completeness auto
termination
  by (relation "measure (\<lambda>(pgdir, a, oldsz, newsz). unat newsz - a)") (auto simp: PGSIZE_def)

declare allocuvm_loop.simps [simp del]

definition allocuvm :: "32 word \<Rightarrow> 32 word \<Rightarrow> 32 word \<Rightarrow> ('a kmem_state_scheme, 32 word) kern" where
  "allocuvm pgdir oldsz newsz =
     (if newsz \<ge> KERNBASE then kret 0
      else if newsz < oldsz then kret oldsz
      else allocuvm_loop pgdir (unat (PGROUNDUP oldsz)) oldsz newsz)"

fun freevm_loop :: "32 word \<Rightarrow> nat list \<Rightarrow> ('a kmem_state_scheme, unit) kern" where
  "freevm_loop pgdir [] = kret ()"
| "freevm_loop pgdir (i # rest) =
     kbind (ldl (pgdir + 4 * of_nat i)) (\<lambda>e.
     if e AND PTE_P \<noteq> 0 then kbind (kfree (p2v (PTE_ADDR e))) (\<lambda>_. freevm_loop pgdir rest)
     else freevm_loop pgdir rest)"

definition freevm :: "32 word \<Rightarrow> ('a kmem_state_scheme, unit) kern" where
  "freevm pgdir =
     (if pgdir = 0 then kpanic ''freevm: no pgdir''
      else
        kbind (deallocuvm pgdir KERNBASE 0) (\<lambda>_.
        kbind (freevm_loop pgdir [0..<NPDENTRIES]) (\<lambda>_.
        kfree pgdir)))"

definition clearpteu :: "32 word \<Rightarrow> 32 word \<Rightarrow> ('a kmem_state_scheme, unit) kern" where
  "clearpteu pgdir uva =
     kbind (walkpgdir pgdir uva False) (\<lambda>pte.
     if pte = 0 then kpanic ''clearpteu''
     else kbind (ldl pte) (\<lambda>e. stl pte (e AND NOT PTE_U)))"

text \<open>The loop of \<open>copyuvm\<close>; a failure frees the new page table.\<close>

function copyuvm_loop :: "32 word \<Rightarrow> 32 word \<Rightarrow> nat \<Rightarrow> nat \<Rightarrow> ('a kmem_state_scheme, 32 word) kern" where
  "copyuvm_loop pgdir d i sz =
     (if i < sz then
        kbind (walkpgdir pgdir (of_nat i) False) (\<lambda>pte.
        if pte = 0 then kpanic ''copyuvm: pte should exist''
        else
          kbind (ldl pte) (\<lambda>e.
          if e AND PTE_P = 0 then kpanic ''copyuvm: page not present''
          else
            kbind kalloc (\<lambda>mem.
            if mem = 0 then kbind (freevm d) (\<lambda>_. kret 0)
            else
              kbind (kget (\<lambda>s. pages s (frame (p2v (PTE_ADDR e))))) (\<lambda>src.
              kbind (kmod (set_page (frame mem) src)) (\<lambda>_.
              kbind (mappages d (of_nat i) 4096 (v2p mem) (PTE_FLAGS e)) (\<lambda>r.
              if r < 0 then kbind (freevm d) (\<lambda>_. kret 0)
              else copyuvm_loop pgdir d (i + PGSIZE) sz))))))
      else kret d)"
  by pat_completeness auto
termination
  by (relation "measure (\<lambda>(pgdir, d, i, sz). sz - i)") (auto simp: PGSIZE_def)

declare copyuvm_loop.simps [simp del]

definition copyuvm :: "32 word \<Rightarrow> 32 word \<Rightarrow> ('a kmem_state_scheme, 32 word) kern" where
  "copyuvm pgdir sz =
     kbind setupkvm (\<lambda>d.
     if d = 0 then kret 0 else copyuvm_loop pgdir d 0 (unat sz))"

definition uva2ka :: "32 word \<Rightarrow> 32 word \<Rightarrow> ('a kmem_state_scheme, 32 word) kern" where
  "uva2ka pgdir uva =
     kbind (walkpgdir pgdir uva False) (\<lambda>pte.
     if pte = 0 then kpanic ''undefined: null pointer''
     else
       kbind (ldl pte) (\<lambda>e.
       if e AND PTE_P = 0 then kret 0
       else if e AND PTE_U = 0 then kret 0
       else kret (p2v (PTE_ADDR e))))"

text \<open>The bytes of one round of \<open>copyout\<close>: to the end of the page or of the buffer.\<close>

definition page_room :: "32 word \<Rightarrow> nat" where
  "page_room va = PGSIZE - unat (va - PGROUNDDOWN va)"

lemma page_offset: "va - PGROUNDDOWN va = take_bit 12 va" "unat (va - PGROUNDDOWN va) = unat va mod PGSIZE"
proof -
  have "va - (va AND NOT 4095) = va AND NOT (va AND NOT 4095)"
    by (rule disjunctive_diff) (simp add: bit_simps)
  also have "\<dots> = va AND 4095" by (rule bit_word_eqI) (auto simp: bit_simps)
  finally have "va - (va AND NOT 4095) = va AND 4095" .
  moreover have "va AND 4095 = take_bit 12 va"
    by (simp add: take_bit_eq_mask mask_eq_exp_minus_1)
  ultimately show t: "va - PGROUNDDOWN va = take_bit 12 va" by (simp add: PGROUNDDOWN_def)
  show "unat (va - PGROUNDDOWN va) = unat va mod PGSIZE"
    unfolding t unsigned_take_bit_eq by (simp add: take_bit_eq_mod PGSIZE_def)
qed

lemma page_room_pos: "0 < page_room va"
  by (simp add: page_room_def page_offset(2) PGSIZE_def)

function copyout :: "32 word \<Rightarrow> 32 word \<Rightarrow> byte list \<Rightarrow> ('a kmem_state_scheme, int) kern" where
  "copyout pgdir va buf =
     (if length buf > 0 then
        (let va0 = PGROUNDDOWN va; n = min (page_room va) (length buf) in
         kbind (uva2ka pgdir va0) (\<lambda>pa0.
         if pa0 = 0 then kret (-1)
         else
           kbind (put_bytes (pa0 + (va - va0)) (take n buf)) (\<lambda>_.
           copyout pgdir (va0 + 4096) (drop n buf))))
      else kret 0)"
  by pat_completeness auto
termination
  by (relation "measure (\<lambda>(pgdir, va, buf). length buf)") (auto simp: page_room_pos)

declare copyout.simps [simp del]

end
