(* ===== verification/Pagetable.thy ===== *)
theory Pagetable
  imports Vm
begin

text \<open>
  What the page-table routines of \<open>vm.c\<close> do to the translation: the geometry of indices and frames, well-formed page
  tables, and the correctness of \<open>walkpgdir\<close> and of \<open>mappages\<close> for one page, on which \<open>allocuvm\<close>, \<open>copyuvm\<close> and the
  page-fault handler are built.
\<close>

subsection \<open>Geometry of page tables\<close>

definition aligned :: "32 word \<Rightarrow> bool" where
  "aligned v \<longleftrightarrow> unat v mod PGSIZE = 0"

lemma index_bound: "unat (PDX va) < 1024" "unat (PTX va) < 1024"
proof -
  have "x AND 0x3FF = take_bit 10 x" for x :: "32 word"
    by (simp add: take_bit_eq_mask mask_eq_exp_minus_1)
  moreover have "unat (take_bit 10 x) < 1024" for x :: "32 word"
    unfolding unsigned_take_bit_eq by (simp add: take_bit_eq_mod)
  ultimately show "unat (PDX va) < 1024" "unat (PTX va) < 1024" by (simp_all add: PDX_def PTX_def)
qed

lemma aligned_plus: "aligned v \<Longrightarrow> unat x < PGSIZE \<Longrightarrow> unat (v + x) = unat v + unat x"
proof -
  assume a: "aligned v" "unat x < PGSIZE"
  obtain q where q: "unat v = PGSIZE * q" using a(1) by (auto simp: aligned_def mod_eq_0_iff_dvd elim: dvdE)
  have "unat v < 2 ^ 32" using unsigned_less [of v] by (simp del: unsigned_less)
  then have "q < 2 ^ 20" using q by (simp add: PGSIZE_def)
  then have "unat v + unat x < 2 ^ 32" using q a(2) by (simp add: PGSIZE_def)
  then show ?thesis by (simp add: unat_word_ariths)
qed

lemma aligned_v2p: "aligned (v2p v) \<longleftrightarrow> aligned v"
proof -
  have "unat v = (unat (v2p v) + 2 ^ 31) mod 2 ^ 32"
    using unat_word_ariths(1) [of "v2p v" KERNBASE] by (simp add: v2p_def KERNBASE_def)
  moreover have "(unat (v2p v) + 2 ^ 31) mod 2 ^ 32 mod PGSIZE = (unat (v2p v) + 2 ^ 31) mod PGSIZE"
    by (rule mod_mod_cancel) (simp add: PGSIZE_def)
  moreover have "(a + 2 ^ 31) mod PGSIZE = a mod PGSIZE" for a :: nat
    using mod_mult_self1 [of a "2 ^ 19" PGSIZE] by (simp add: PGSIZE_def)
  ultimately show ?thesis by (simp add: aligned_def)
qed

lemma frame_plus:
  assumes "aligned v" "unat x < PGSIZE"
  shows "frame (v + x) = frame v" "unat (v + x) mod PGSIZE = unat x"
proof -
  have "v2p (v + x) = v2p v + x" by (simp add: v2p_def)
  then have "unat (v2p (v + x)) = unat (v2p v) + unat x" using assms aligned_v2p by (simp add: aligned_plus)
  then show "frame (v + x) = frame v"
    using assms aligned_v2p [of v] by (auto simp: frame_def aligned_def div_add1_eq [of "unat (v2p v)"])
  show "unat (v + x) mod PGSIZE = unat x"
    using assms by (simp add: aligned_plus) (simp add: aligned_def mod_add_eq [symmetric])
qed

lemma frame_entry:
  assumes "aligned v" "unat i < 1024"
  shows "frame (v + 4 * i) = frame v" "unat (v + 4 * i) mod PGSIZE = 4 * unat i"
proof -
  have "unat (4 * i) = 4 * unat i" using assms(2) by (simp add: unat_word_ariths)
  then show "frame (v + 4 * i) = frame v" "unat (v + 4 * i) mod PGSIZE = 4 * unat i"
    using frame_plus [OF assms(1), of "4 * i"] assms(2) by (simp_all add: PGSIZE_def)
qed

lemma aligned_PTE_ADDR: "aligned (PTE_ADDR e)" "aligned (p2v (PTE_ADDR e))"
proof -
  have "take_bit 12 (PTE_ADDR e) = 0"
    unfolding PTE_ADDR_def by (rule bit_word_eqI) (auto simp: bit_simps)
  then have "unat (take_bit 12 (PTE_ADDR e)) = 0" by simp
  then show a: "aligned (PTE_ADDR e)" unfolding unsigned_take_bit_eq by (simp add: aligned_def PGSIZE_def take_bit_eq_mod)
  show "aligned (p2v (PTE_ADDR e))" using aligned_v2p [of "p2v (PTE_ADDR e)"] a by simp
qed

text \<open>An address is determined by its two indices and its offset.\<close>

lemma PGADDR_parts: "PGADDR (PDX va) (PTX va) (take_bit 12 va) = va"
proof (rule bit_word_eqI)
  fix n assume n: "n < LENGTH(32)"
  have m: "x AND 0x3FF = take_bit 10 x" for x :: "32 word"
    by (simp add: take_bit_eq_mask mask_eq_exp_minus_1)
  consider "n < 12" | "12 \<le> n" "n < 22" | "22 \<le> n" by linarith
  then show "bit (PGADDR (PDX va) (PTX va) (take_bit 12 va)) n = bit va n"
    using n by cases (auto simp: PGADDR_def PDX_def PTX_def m PDXSHIFT_def PTXSHIFT_def bit_simps)
qed

lemma same_page: "PDX va = PDX vb \<Longrightarrow> PTX va = PTX vb \<Longrightarrow> PGROUNDDOWN va = PGROUNDDOWN vb"
proof -
  assume h: "PDX va = PDX vb" "PTX va = PTX vb"
  have "PGROUNDDOWN v = PGADDR (PDX v) (PTX v) 0" for v
  proof -
    have "PGROUNDDOWN v = PGADDR (PDX v) (PTX v) (take_bit 12 v) AND NOT (mask 12)"
      unfolding PGADDR_parts by (simp add: PGROUNDDOWN_def mask_eq_exp_minus_1)
    also have "\<dots> = PGADDR (PDX v) (PTX v) 0"
      by (rule bit_word_eqI) (auto simp: PGADDR_def PDXSHIFT_def PTXSHIFT_def bit_simps)
    finally show ?thesis .
  qed
  then show ?thesis using h by simp
qed

subsection \<open>Well-formed page tables\<close>

definition pde :: "'a kmem_state_scheme \<Rightarrow> 32 word \<Rightarrow> 32 word \<Rightarrow> 32 word" where
  "pde s pgdir i = load32 (pages s (frame pgdir)) (4 * unat i)"

definition present :: "32 word \<Rightarrow> bool" where
  "present e \<longleftrightarrow> e AND PTE_P \<noteq> 0"

definition ptab :: "32 word \<Rightarrow> 32 word" where
  "ptab e = p2v (PTE_ADDR e)"

text \<open>
  The directory and the tables are whole pages, no table is the directory, and no two entries share a table. \<open>apart\<close>
  says that a list of pages and the page table have no frame in common.
\<close>

definition pt_wf :: "'a kmem_state_scheme \<Rightarrow> 32 word \<Rightarrow> bool" where
  "pt_wf s pgdir \<longleftrightarrow> aligned pgdir \<and> length (pages s (frame pgdir)) = PGSIZE \<and>
     (\<forall>i. unat i < 1024 \<and> present (pde s pgdir i) \<longrightarrow>
        ptab (pde s pgdir i) \<noteq> 0 \<and> length (pages s (frame (ptab (pde s pgdir i)))) = PGSIZE \<and>
        frame (ptab (pde s pgdir i)) \<noteq> frame pgdir) \<and>
     (\<forall>i j. unat i < 1024 \<and> unat j < 1024 \<and> present (pde s pgdir i) \<and> present (pde s pgdir j) \<and>
        frame (ptab (pde s pgdir i)) = frame (ptab (pde s pgdir j)) \<longrightarrow> i = j)"

definition apart :: "'a kmem_state_scheme \<Rightarrow> 32 word \<Rightarrow> 32 word list \<Rightarrow> bool" where
  "apart s pgdir vs \<longleftrightarrow> (\<forall>v\<in>set vs. frame v \<noteq> frame pgdir \<and>
     (\<forall>i. unat i < 1024 \<and> present (pde s pgdir i) \<longrightarrow> frame v \<noteq> frame (ptab (pde s pgdir i))))"

lemma aligned_ptab: "aligned (ptab e)"
  by (simp add: ptab_def aligned_PTE_ADDR)

lemma word_at_pde: "aligned pgdir \<Longrightarrow> word_at s (pgdir + 4 * PDX va) = pde s pgdir (PDX va)"
  by (simp add: word_at_def pde_def frame_entry index_bound)

lemma table_entry_nonzero: "ptab e \<noteq> 0 \<Longrightarrow> ptab e + 4 * PTX va \<noteq> 0"
proof
  assume a: "ptab e \<noteq> 0" "ptab e + 4 * PTX va = 0"
  have x: "unat (4 * PTX va) = 4 * unat (PTX va)" using index_bound(2) [of va] by (simp add: unat_word_ariths)
  then have "unat (ptab e + 4 * PTX va) = unat (ptab e) + 4 * unat (PTX va)"
    using index_bound(2) [of va] by (simp add: aligned_plus aligned_ptab PGSIZE_def)
  then have "unat (ptab e) = 0" using a(2) by simp
  then show False using a(1) by (simp add: unat_eq_zero)
qed

lemma pte_addr_wf:
  assumes "pt_wf s pgdir"
  shows "pte_addr s pgdir va = (if present (pde s pgdir (PDX va)) then ptab (pde s pgdir (PDX va)) + 4 * PTX va else 0)"
    "pte_addr s pgdir va = 0 \<longleftrightarrow> \<not> present (pde s pgdir (PDX va))"
proof -
  have al: "aligned pgdir" using assms by (simp add: pt_wf_def)
  show e: "pte_addr s pgdir va = (if present (pde s pgdir (PDX va)) then ptab (pde s pgdir (PDX va)) + 4 * PTX va else 0)"
    by (simp add: pte_addr_def Let_def word_at_pde [OF al] present_def ptab_def)
  show "pte_addr s pgdir va = 0 \<longleftrightarrow> \<not> present (pde s pgdir (PDX va))"
    using assms index_bound(1) [of va] table_entry_nonzero by (auto simp: e pt_wf_def)
qed

lemma pte_of_wf:
  assumes "pt_wf s pgdir"
  shows "pte_of s pgdir va = (if present (pde s pgdir (PDX va))
    then load32 (pages s (frame (ptab (pde s pgdir (PDX va))))) (4 * unat (PTX va)) else 0)"
  unfolding pte_of_def Let_def pte_addr_wf(2) [OF assms]
  by (simp add: pte_addr_wf(1) [OF assms] word_at_def frame_entry aligned_ptab index_bound)

text \<open>Writing an entry of a table.\<close>

lemma set_pte:
  fixes s :: "'a kmem_state_scheme" and w :: "32 word"
  assumes wf: "pt_wf s pgdir" and i: "unat i < 1024" and p: "present (pde s pgdir i)" and j: "unat j < 1024"
  defines "f \<equiv> frame (ptab (pde s pgdir i))"
  defines "t \<equiv> set_page f (store32 (4 * unat j) w (pages s f)) s"
  shows "pde t pgdir = pde s pgdir" "pt_wf t pgdir"
    "pte_of t pgdir va = (if PDX va = i \<and> PTX va = j then w else pte_of s pgdir va)"
proof -
  have h: "f \<noteq> frame pgdir" "length (pages s f) = PGSIZE"
    using wf i p by (simp_all add: pt_wf_def f_def)
  show d: "pde t pgdir = pde s pgdir"
    using h(1) by (simp add: fun_eq_iff pde_def t_def set_page_def)
  have l: "length (pages t g) = length (pages s g)" for g
    using h(2) j by (simp add: t_def set_page_def PGSIZE_def)
  show wt: "pt_wf t pgdir" using wf unfolding pt_wf_def d l by blast
  have "load32 (pages t (frame (ptab (pde s pgdir (PDX va))))) (4 * unat (PTX va)) =
      (if PDX va = i \<and> PTX va = j then w
       else load32 (pages s (frame (ptab (pde s pgdir (PDX va))))) (4 * unat (PTX va)))" if pr: "present (pde s pgdir (PDX va))"
  proof (cases "PDX va = i")
    case True
    have b: "4 * unat j + 4 \<le> PGSIZE" "4 * unat (PTX va) + 4 \<le> PGSIZE" using j index_bound(2) [of va] by (simp_all add: PGSIZE_def)
    show ?thesis
    proof (cases "PTX va = j")
      case pj: True
      then show ?thesis using True b h(2) by (simp add: t_def set_page_def f_def [symmetric])
    next
      case False
      then have "unat (PTX va) \<noteq> unat j" by (simp add: word_unat_eq_iff)
      then have "4 * unat (PTX va) + 4 \<le> 4 * unat j \<or> 4 * unat j + 4 \<le> 4 * unat (PTX va)" by linarith
      then show ?thesis using True False b h(2) by (simp add: t_def set_page_def f_def [symmetric] load32_store32_other)
    qed
  next
    case False
    then have "frame (ptab (pde s pgdir (PDX va))) \<noteq> f"
      using wf i p pr index_bound(1) [of va] unfolding pt_wf_def f_def by blast
    then show ?thesis using False by (simp add: t_def set_page_def)
  qed
  then show "pte_of t pgdir va = (if PDX va = i \<and> PTX va = j then w else pte_of s pgdir va)"
    using p unfolding pte_of_wf [OF wt] pte_of_wf [OF wf] d by auto
qed

text \<open>Installing a fresh table, all of whose entries are zero.\<close>

lemma new_entry:
  assumes "aligned v"
  shows "present (v2p v OR PTE_P OR PTE_W OR PTE_U)" "ptab (v2p v OR PTE_P OR PTE_W OR PTE_U) = v"
proof -
  have lo: "take_bit 12 (v2p v) = 0"
  proof -
    have "unat (v2p v) mod 2 ^ 12 = 0" using assms aligned_v2p [of v] by (simp add: aligned_def PGSIZE_def)
    then have "unat (take_bit 12 (v2p v)) = 0" unfolding unsigned_take_bit_eq by (simp add: take_bit_eq_mod)
    then show ?thesis by (simp only: unat_eq_zero)
  qed
  have e: "PTE_P OR PTE_W OR PTE_U = 7" by (simp add: pte_defs)
  have b: "\<not> bit (v2p v) n" if "n < 12" for n
    using lo that bit_take_bit_iff [of 12 "v2p v" n] by simp
  have "bit ((v2p v OR 7) AND PTE_P) 0" by (simp add: bit_simps PTE_P_def)
  then show "present (v2p v OR PTE_P OR PTE_W OR PTE_U)" unfolding present_def e by (metis bit_0_eq bot_apply bot_bool_def)
  have "(v2p v OR 7) AND NOT 0xFFF = v2p v"
  proof (rule bit_word_eqI)
    fix n assume "n < LENGTH(32)"
    have m: "(0xFFF :: 32 word) = mask 12" "(7 :: 32 word) = mask 3" by (simp_all add: mask_eq_exp_minus_1)
    show "bit ((v2p v OR 7) AND NOT 0xFFF) n = bit (v2p v) n"
      unfolding m using b [of n] \<open>n < LENGTH(32)\<close> by (auto simp: bit_simps)
  qed
  then show "ptab (v2p v OR PTE_P OR PTE_W OR PTE_U) = v" unfolding ptab_def PTE_ADDR_def e by simp
qed

lemma load32_zero: "off + 4 \<le> n \<Longrightarrow> load32 (replicate n 0) off = 0"
  by (simp add: load32_def bslice_def dec32_def min_def)

lemma set_pde:
  fixes s :: "'a kmem_state_scheme"
  assumes wf: "pt_wf s pgdir" and i: "unat i < 1024" and np: "\<not> present (pde s pgdir i)"
    and v: "aligned v" "v \<noteq> 0" "apart s pgdir [v]" and e: "present e" "ptab e = v"
  defines "t \<equiv> set_page (frame pgdir) (store32 (4 * unat i) e (pages s (frame pgdir))) (set_page (frame v) (replicate PGSIZE 0) s)"
  shows "unat k < 1024 \<Longrightarrow> pde t pgdir k = (if k = i then e else pde s pgdir k)" "pt_wf t pgdir"
    "pte_of t pgdir va = pte_of s pgdir va"
proof -
  have fv: "frame v \<noteq> frame pgdir"
    "\<And>k. unat k < 1024 \<Longrightarrow> present (pde s pgdir k) \<Longrightarrow> frame (ptab (pde s pgdir k)) \<noteq> frame v"
    using v(3) by (auto simp: apart_def)
  have len: "length (pages s (frame pgdir)) = PGSIZE" using wf by (simp add: pt_wf_def)
  have d: "pde t pgdir k = (if k = i then e else pde s pgdir k)" if k: "unat k < 1024" for k
  proof (cases "k = i")
    case True
    then show ?thesis using i len by (simp add: pde_def t_def set_page_def PGSIZE_def)
  next
    case False
    then have "unat k \<noteq> unat i" by (simp add: word_unat_eq_iff)
    then have "4 * unat k + 4 \<le> 4 * unat i \<or> 4 * unat i + 4 \<le> 4 * unat k" by linarith
    then show ?thesis using False i k len by (simp add: pde_def t_def set_page_def load32_store32_other PGSIZE_def)
  qed
  then show "unat k < 1024 \<Longrightarrow> pde t pgdir k = (if k = i then e else pde s pgdir k)" .
  have l: "length (pages t g) = (if g = frame v then PGSIZE else length (pages s g))" for g
    using len i fv(1) by (simp add: t_def set_page_def PGSIZE_def)
  show wt: "pt_wf t pgdir"
    unfolding pt_wf_def
  proof (intro conjI allI impI)
    show "aligned pgdir" "length (pages t (frame pgdir)) = PGSIZE" using wf fv(1) l by (simp_all add: pt_wf_def)
    fix k assume k: "unat k < 1024 \<and> present (pde t pgdir k)"
    show "ptab (pde t pgdir k) \<noteq> 0" "length (pages t (frame (ptab (pde t pgdir k)))) = PGSIZE"
        "frame (ptab (pde t pgdir k)) \<noteq> frame pgdir"
    proof -
      have q: "k = i \<or> (present (pde s pgdir k) \<and> pde t pgdir k = pde s pgdir k)" using k d [of k] by auto
      have "k \<noteq> i \<Longrightarrow> ptab (pde s pgdir k) \<noteq> 0 \<and> length (pages s (frame (ptab (pde s pgdir k)))) = PGSIZE \<and>
          frame (ptab (pde s pgdir k)) \<noteq> frame pgdir"
        using wf k q unfolding pt_wf_def by blast
      then show "ptab (pde t pgdir k) \<noteq> 0" "length (pages t (frame (ptab (pde t pgdir k)))) = PGSIZE"
          "frame (ptab (pde t pgdir k)) \<noteq> frame pgdir"
        using q k d [of k] v(2) e(2) fv(1) l by auto
    qed
  next
    fix k m assume m: "unat k < 1024 \<and> unat m < 1024 \<and> present (pde t pgdir k) \<and> present (pde t pgdir m) \<and>
        frame (ptab (pde t pgdir k)) = frame (ptab (pde t pgdir m))"
    then have dk: "pde t pgdir k = (if k = i then e else pde s pgdir k)" "pde t pgdir m = (if m = i then e else pde s pgdir m)"
      using d [of k] d [of m] by blast+
    show "k = m"
    proof (cases "k = i \<or> m = i")
      case True
      then show ?thesis using m dk e(2) fv(2) [of k] fv(2) [of m] by (cases "k = i"; cases "m = i") simp_all
    next
      case False
      then have "present (pde s pgdir k)" "present (pde s pgdir m)"
        "frame (ptab (pde s pgdir k)) = frame (ptab (pde s pgdir m))" using m dk by simp_all
      then show ?thesis using wf m unfolding pt_wf_def by blast
    qed
  qed
  have o: "pages t (frame (ptab (pde s pgdir (PDX va)))) = pages s (frame (ptab (pde s pgdir (PDX va))))"
    if "present (pde s pgdir (PDX va))"
    using that fv(2) [of "PDX va"] wf index_bound(1) [of va] by (auto simp: t_def set_page_def pt_wf_def)
  have z: "pages t (frame v) = replicate PGSIZE 0" using fv(1) by (simp add: t_def set_page_def)
  show "pte_of t pgdir va = pte_of s pgdir va"
    unfolding pte_of_wf [OF wt] pte_of_wf [OF wf] d [OF index_bound(1)]
    using o np e index_bound(2) [of va] by (auto simp: z load32_zero PGSIZE_def)
qed

subsection \<open>Walking and mapping\<close>

lemma freeable_aligned: "freeable s v \<Longrightarrow> aligned v"
  by (simp add: freeable_def aligned_def)

lemma free_pages_set_page:
  assumes "\<And>w. w \<in> set vs \<Longrightarrow> frame w \<noteq> f"
  shows "free_pages (set_page f bs s) vs \<longleftrightarrow> free_pages s vs"
  using free_chain_frame [OF assms, of vs] assms by (simp add: free_pages_def set_page_def)

lemma free_pages_frames: "free_pages s (v # vs) \<Longrightarrow> w \<in> set vs \<Longrightarrow> frame w \<noteq> frame v"
  using frame_inj [of s w v] by (auto simp: free_pages_def list_all_iff)

lemma pt_cong:
  assumes "pages t = pages s"
  shows "pde t = pde s" "pt_wf t = pt_wf s" "apart t = apart s"
proof -
  show d: "pde t = pde s" by (simp add: fun_eq_iff pde_def assms)
  show "pt_wf t = pt_wf s" "apart t = apart s" by (simp_all add: fun_eq_iff pt_wf_def apart_def d assms)
qed

text \<open>\<open>walkpgdir\<close> with allocation: an existing table, a new one, or none left.\<close>

lemma walk_alloc:
  fixes s :: "'a kmem_state_scheme"
  assumes wf: "pt_wf s pgdir" and fp: "free_pages s vs" and ap: "apart s pgdir vs"
  shows "present (pde s pgdir (PDX va)) \<Longrightarrow> walkpgdir pgdir va True s = Ret (pte_addr s pgdir va) s"
    "\<not> present (pde s pgdir (PDX va)) \<Longrightarrow> vs = [] \<Longrightarrow> walkpgdir pgdir va True s = Ret 0 s"
    "\<not> present (pde s pgdir (PDX va)) \<Longrightarrow> vs \<noteq> [] \<Longrightarrow>
      \<exists>t. walkpgdir pgdir va True s = Ret (pte_addr t pgdir va) t \<and> present (pde t pgdir (PDX va)) \<and> pt_wf t pgdir \<and>
        free_pages t (tl vs) \<and> apart t pgdir (tl vs) \<and> (\<forall>x. pte_of t pgdir x = pte_of s pgdir x)"
proof -
  have al: "aligned pgdir" using wf by (simp add: pt_wf_def)
  note w = word_at_pde [OF al, of s va]
  let ?i = "PDX va"
  show "present (pde s pgdir ?i) \<Longrightarrow> walkpgdir pgdir va True s = Ret (pte_addr s pgdir va) s"
    by (simp add: walkpgdir_def Let_def kstep w present_def pte_addr_def kret_apply)
  show "\<not> present (pde s pgdir ?i) \<Longrightarrow> vs = [] \<Longrightarrow> walkpgdir pgdir va True s = Ret 0 s"
    using free_pages_Nil [of s] fp by (simp add: walkpgdir_def Let_def kstep w present_def kbind_def [of kalloc] kalloc_eq kret_apply)
  assume np: "\<not> present (pde s pgdir ?i)" and ne: "vs \<noteq> []"
  then obtain v us where vs: "vs = v # us" by (cases vs) auto
  have c: "freelist s = v" "v \<noteq> 0" "freeable s v" "free_pages (kalloced v s) us"
    using free_pages_Cons [of s v us] fp vs by auto
  let ?s = "kalloced v s" and ?e = "v2p v OR PTE_P OR PTE_W OR PTE_U"
  have pg: "pages ?s = pages s" by (simp add: kalloced_def)
  have wf': "pt_wf ?s pgdir" "\<not> present (pde ?s pgdir ?i)" "apart ?s pgdir [v]"
    using wf np ap vs by (simp_all add: pt_cong [OF pg] apart_def)
  have av: "aligned v" by (rule freeable_aligned [OF c(3)])
  note ne = new_entry [OF av]
  let ?t = "set_page (frame pgdir) (store32 (4 * unat ?i) ?e (pages ?s (frame pgdir))) (set_page (frame v) (replicate PGSIZE 0) ?s)"
  note sp = set_pde [OF wf'(1) index_bound(1) wf'(2) av c(2) wf'(3) ne]
  have fv: "frame v \<noteq> frame pgdir" using ap vs by (simp add: apart_def)
  have pd: "pde ?t pgdir ?i = ?e" using sp(1) [OF index_bound(1)] by simp
  have pa: "pte_addr ?t pgdir va = v + 4 * PTX va" using pte_addr_wf(1) [OF sp(2)] pd ne by simp
  have "walkpgdir pgdir va True s = Ret (v + 4 * PTX va) ?t"
    using np c(1,2) fv frame_entry [OF al index_bound(1) [of va]]
    by (simp add: walkpgdir_def Let_def kstep w present_def kbind_def [of kalloc] kalloc_eq zero_page_def kret_apply set_page_def)
  moreover have "free_pages ?t us"
    using c(4) free_pages_frames [of s v us] fp vs ap
    by (subst free_pages_set_page, fastforce simp: apart_def) (subst free_pages_set_page, auto)
  moreover have "apart ?t pgdir us"
    unfolding apart_def
  proof (intro ballI conjI allI impI)
    fix u assume u: "u \<in> set us"
    show "frame u \<noteq> frame pgdir" using ap u vs by (simp add: apart_def)
    fix k assume k: "unat k < 1024 \<and> present (pde ?t pgdir k)"
    then show "frame u \<noteq> frame (ptab (pde ?t pgdir k))"
      using sp(1) [of k] ap u vs ne(2) free_pages_frames [of s v us u] fp by (auto simp: apart_def pt_cong(1) [OF pg])
  qed
  moreover have "pte_of ?t pgdir x = pte_of s pgdir x" for x using sp(3) vm_cong(3) [OF pg] by simp
  ultimately show "\<exists>t. walkpgdir pgdir va True s = Ret (pte_addr t pgdir va) t \<and> present (pde t pgdir (PDX va)) \<and> pt_wf t pgdir \<and>
        free_pages t (tl vs) \<and> apart t pgdir (tl vs) \<and> (\<forall>x. pte_of t pgdir x = pte_of s pgdir x)"
    using sp(2) pd ne(1) pa vs by (intro exI [of _ ?t]) simp
qed

lemma PGROUNDDOWN_aligned: "aligned (PGROUNDDOWN va)" "aligned va \<Longrightarrow> PGROUNDDOWN va = va" "aligned va \<Longrightarrow> PGROUNDDOWN (va + 4095) = va"
proof -
  have o: "unat (va - PGROUNDDOWN va) = unat va mod PGSIZE" for va by (rule page_offset(2))
  have p: "PGROUNDDOWN v = PTE_ADDR v" for v by (simp add: PGROUNDDOWN_def PTE_ADDR_def)
  show "aligned (PGROUNDDOWN va)" unfolding p by (rule aligned_PTE_ADDR)
  show "aligned va \<Longrightarrow> PGROUNDDOWN va = va"
    using o [of va] by (simp add: aligned_def) (metis eq_iff_diff_eq_0 unat_eq_zero)
  assume a: "aligned va"
  have "unat (va + 4095) mod PGSIZE = 4095" using frame_plus(2) [OF a, of 4095] by (simp add: PGSIZE_def)
  then have "unat (va + 4095 - PGROUNDDOWN (va + 4095)) = unat (4095 :: 32 word)" using o [of "va + 4095"] by simp
  then have e: "va + 4095 - PGROUNDDOWN (va + 4095) = 4095" by (simp only: word_unat_eq_iff)
  have "PGROUNDDOWN (va + 4095) = (va + 4095) - (va + 4095 - PGROUNDDOWN (va + 4095))" by simp
  also have "\<dots> = va" unfolding e by simp
  finally show "PGROUNDDOWN (va + 4095) = va" .
qed

lemma mappages_one:
  "aligned va \<Longrightarrow> mappages pgdir va 4096 pa perm = mappages_loop pgdir 0 va pa perm"
  using PGROUNDDOWN_aligned(3) [of va] by (simp add: mappages_def PGROUNDDOWN_aligned(2) add.commute)

lemma indices_page: "PDX x = PDX va \<and> PTX x = PTX va \<longleftrightarrow> PGROUNDDOWN x = PGROUNDDOWN va"
proof
  assume e: "PGROUNDDOWN x = PGROUNDDOWN va"
  have "PDX (PGROUNDDOWN y) = PDX y \<and> PTX (PGROUNDDOWN y) = PTX y" for y
  proof -
    have m: "z AND 0x3FF = take_bit 10 z" "PGROUNDDOWN z = z AND NOT (mask 12)" for z :: "32 word"
      by (simp_all add: take_bit_eq_mask mask_eq_exp_minus_1 PGROUNDDOWN_def)
    show ?thesis
      unfolding PDX_def PTX_def m PDXSHIFT_def PTXSHIFT_def
      by (intro conjI bit_word_eqI) (auto simp: bit_simps)
  qed
  then show "PDX x = PDX va \<and> PTX x = PTX va" using e by metis
qed (blast intro: same_page)

text \<open>
  C33. Mapping one page in a well-formed page table, with the pages \<open>vs\<close> free and none of them part of it: if the
  address is mapped, \<open>mappages\<close> panics; if a page table is missing and no page is free, it returns \<open>-1\<close> and changes
  nothing; otherwise it returns 0 and the translation changes exactly at that page, to the physical page and
  permissions given, at the price of at most one free page. The page table stays well formed.
\<close>

theorem mappages_spec:
  assumes wf: "pt_wf s pgdir" and fp: "free_pages s vs" and ap: "apart s pgdir vs" and al: "aligned va"
  shows "(present (pte_of s pgdir va) \<longrightarrow> mappages pgdir va 4096 pa perm s = Panic ''remap'') \<and>
    (\<not> present (pde s pgdir (PDX va)) \<and> vs = [] \<longrightarrow> mappages pgdir va 4096 pa perm s = Ret (-1) s) \<and>
    (\<not> present (pte_of s pgdir va) \<and> (present (pde s pgdir (PDX va)) \<or> vs \<noteq> []) \<longrightarrow>
      kok (mappages pgdir va 4096 pa perm) s (\<lambda>r t. r = 0 \<and> pt_wf t pgdir \<and>
        (\<forall>x. pte_of t pgdir x = (if PGROUNDDOWN x = va then pa OR perm OR PTE_P else pte_of s pgdir x)) \<and>
        (free_pages t vs \<or> free_pages t (tl vs))))"
proof -
  note wa = walk_alloc [OF wf fp ap, of va]
  have z: "\<not> present 0" by (simp add: present_def)
  have store: "kok (mappages_loop pgdir 0 va pa perm) s (\<lambda>r u. r = 0 \<and> pt_wf u pgdir \<and>
        (\<forall>x. pte_of u pgdir x = (if PGROUNDDOWN x = va then pa OR perm OR PTE_P else pte_of s pgdir x)) \<and> free_pages u us)"
    if t: "walkpgdir pgdir va True s = Ret (pte_addr t pgdir va) t" "present (pde t pgdir (PDX va))" "pt_wf t pgdir"
      "free_pages t us" "apart t pgdir us" "\<And>x. pte_of t pgdir x = pte_of s pgdir x" and np: "\<not> present (pte_of s pgdir va)" for t us
  proof -
    let ?a = "pte_addr t pgdir va" and ?f = "frame (ptab (pde t pgdir (PDX va)))"
    have a: "?a \<noteq> 0" "?a = ptab (pde t pgdir (PDX va)) + 4 * PTX va"
      using pte_addr_wf [OF t(3), of va] t(2) by auto
    have fa: "frame ?a = ?f" "unat ?a mod PGSIZE = 4 * unat (PTX va)"
      unfolding a(2) using frame_entry [OF aligned_ptab index_bound(2)] by blast+
    have wd: "word_at t ?a = pte_of s pgdir va" using a(1) t(6) [of va] by (simp add: pte_of_def)
    let ?u = "set_page ?f (store32 (4 * unat (PTX va)) (pa OR perm OR PTE_P) (pages t ?f)) t"
    have "mappages_loop pgdir 0 va pa perm s = Ret 0 ?u"
      using np by (simp add: mappages_loop.simps kbind_def [of "walkpgdir _ _ _"] t(1) a(1) kstep wd present_def fa kret_apply)
    moreover have "pte_of ?u pgdir x = (if PGROUNDDOWN x = va then pa OR perm OR PTE_P else pte_of s pgdir x)" for x
      using set_pte(3) [OF t(3) index_bound(1) t(2) index_bound(2), of va "pa OR perm OR PTE_P" x] indices_page [of x va]
        PGROUNDDOWN_aligned(2) [OF al] t(6) by simp
    moreover have "free_pages ?u us"
      using t(2,4,5) index_bound(1) [of va] by (subst free_pages_set_page) (auto simp: apart_def)
    moreover have "pt_wf ?u pgdir" by (rule set_pte(2) [OF t(3) index_bound(1) t(2) index_bound(2)])
    ultimately show ?thesis by (simp add: kok_def)
  qed
  show ?thesis
    unfolding mappages_one [OF al]
  proof (intro conjI impI)
    assume p: "present (pte_of s pgdir va)"
    then have pd: "present (pde s pgdir (PDX va))" using z by (auto simp: pte_of_wf [OF wf] split: if_splits)
    then have "pte_addr s pgdir va \<noteq> 0" using pte_addr_wf(2) [OF wf] by simp
    then show "mappages_loop pgdir 0 va pa perm s = Panic ''remap''"
      using wa(1) [OF pd] p
      by (simp add: mappages_loop.simps kbind_def [of "walkpgdir _ _ _"] kstep pte_of_def present_def)
  next
    assume "\<not> present (pde s pgdir (PDX va)) \<and> vs = []"
    then show "mappages_loop pgdir 0 va pa perm s = Ret (-1) s"
      using wa(2) by (simp add: mappages_loop.simps kbind_def [of "walkpgdir _ _ _"] kret_apply)
  next
    assume h: "\<not> present (pte_of s pgdir va) \<and> (present (pde s pgdir (PDX va)) \<or> vs \<noteq> [])"
    show "kok (mappages_loop pgdir 0 va pa perm) s (\<lambda>r t. r = 0 \<and> pt_wf t pgdir \<and>
        (\<forall>x. pte_of t pgdir x = (if PGROUNDDOWN x = va then pa OR perm OR PTE_P else pte_of s pgdir x)) \<and>
        (free_pages t vs \<or> free_pages t (tl vs)))"
    proof (cases "present (pde s pgdir (PDX va))")
      case True
      show ?thesis by (rule kok_mono [OF store [OF wa(1) [OF True] True wf fp ap refl conjunct1 [OF h]]]) simp
    next
      case False
      then obtain t where t: "walkpgdir pgdir va True s = Ret (pte_addr t pgdir va) t" "present (pde t pgdir (PDX va))"
        "pt_wf t pgdir" "free_pages t (tl vs)" "apart t pgdir (tl vs)" "\<And>x. pte_of t pgdir x = pte_of s pgdir x"
        using wa(3) h by blast
      show ?thesis by (rule kok_mono [OF store [OF t conjunct1 [OF h]]]) simp
    qed
  qed
qed

definition vm_example :: kmem_state where
  "vm_example = kmem_example\<lparr>pages := (\<lambda>_. replicate PGSIZE 0), freelist := 0x80201000, free_frame_cnt := 1\<rparr>"

theorem mappages_spec_witness:
  "kok (mappages 0x80200000 0x3000 4096 0x400000 (PTE_W OR PTE_U)) vm_example (\<lambda>r t. r = 0 \<and>
     pte_of t 0x80200000 0x3123 = 0x400007 \<and> pte_of t 0x80200000 0x4000 = 0)"
proof -
  have f: "frame 0x80200000 = 512" "frame 0x80201000 = 513" by (simp_all add: frame_def v2p_def KERNBASE_def PGSIZE_def)
  have pg: "pages vm_example = (\<lambda>_. replicate PGSIZE 0)" by (simp add: vm_example_def)
  have d: "unat i < 1024 \<Longrightarrow> pde vm_example 0x80200000 i = 0" for i
    by (simp add: pde_def pg load32_zero PGSIZE_def)
  have np: "\<not> present 0" by (simp add: present_def)
  have wf: "pt_wf vm_example 0x80200000"
    using d np by (auto simp: pt_wf_def aligned_def pg PGSIZE_def)
  have fp: "free_pages vm_example [0x80201000]"
    by (simp add: free_pages_def vm_example_def load32_zero freeable_def kmem_example_def memlayout_defs PGSIZE_def)
  have ap: "apart vm_example 0x80200000 [0x80201000]"
    using d np by (auto simp: apart_def f)
  have al: "aligned 0x3000" by (simp add: aligned_def PGSIZE_def)
  have pt: "pte_of vm_example 0x80200000 x = 0" for x
    using np d [OF index_bound(1)] by (simp add: pte_of_wf [OF wf])
  have r: "PGROUNDDOWN 0x3123 = 0x3000" "PGROUNDDOWN 0x4000 = 0x4000" "(0x400000 :: 32 word) OR (PTE_W OR PTE_U) OR PTE_P = 0x400007"
    by (simp_all add: PGROUNDDOWN_def pte_defs)
  have "kok (mappages 0x80200000 0x3000 4096 0x400000 (PTE_W OR PTE_U)) vm_example (\<lambda>r t. r = 0 \<and> pt_wf t 0x80200000 \<and>
        (\<forall>x. pte_of t 0x80200000 x = (if PGROUNDDOWN x = 0x3000 then 0x400000 OR (PTE_W OR PTE_U) OR PTE_P else pte_of vm_example 0x80200000 x)) \<and>
        (free_pages t [0x80201000] \<or> free_pages t (tl [0x80201000])))"
    using mappages_spec [OF wf fp ap al, of "0x400000" "PTE_W OR PTE_U"] np pt by simp
  then show ?thesis
    by (rule kok_mono) (simp add: r pt)
qed

end
