(* ===== verification/Kernel.thy ===== *)
theory Kernel
  imports Content Pagetable
begin

text \<open>
  The state of the kernel above the file system: open files, pipes, the process table and the processor, and the
  console's input buffer (\<open>file.h\<close>, \<open>pipe.c\<close>, \<open>proc.h\<close>, \<open>x86.h\<close>, \<open>console.c\<close>), with the segment set-up of
  \<open>vm.c\<close>, the page-fault part of \<open>trap.c\<close> and the access to user memory that depends on it.
  A pointer to a file, an inode or a process is its index in its table. A pipe is named by the frame of its page. The
  trap frame and the context of a process lie on its kernel stack; they are fields of the process here. The state
  is that of one processor; \<open>curproc\<close> is the variable \<open>proc\<close>.
\<close>

subsection \<open>Pipes and files\<close>

definition PIPESIZE :: nat where "PIPESIZE = 512"

record pipe =
  p_data :: "byte list"
  nread :: "32 word"
  nwrite :: "32 word"
  readopen :: bool
  writeopen :: bool

datatype filetype = FD_NONE | FD_PIPE | FD_INODE

record file_t =
  f_type :: filetype
  f_ref :: int
  readable :: bool
  writable :: bool
  f_pipe :: nat
  f_ip :: nat
  f_off :: nat

subsection \<open>Processes\<close>

datatype procstate = UNUSED | EMBRYO | SLEEPING | RUNNABLE | RUNNING | ZOMBIE

record trapframe =
  tf_edi :: "32 word"
  tf_esi :: "32 word"
  tf_ebp :: "32 word"
  tf_oesp :: "32 word"
  tf_ebx :: "32 word"
  tf_edx :: "32 word"
  tf_ecx :: "32 word"
  tf_eax :: "32 word"
  tf_gs :: "16 word"
  tf_fs :: "16 word"
  tf_es :: "16 word"
  tf_ds :: "16 word"
  tf_trapno :: "32 word"
  tf_err :: "32 word"
  tf_eip :: "32 word"
  tf_cs :: "16 word"
  tf_eflags :: "32 word"
  tf_esp :: "32 word"
  tf_ss :: "16 word"

definition zero_tf :: trapframe where
  "zero_tf = \<lparr>tf_edi = 0, tf_esi = 0, tf_ebp = 0, tf_oesp = 0, tf_ebx = 0, tf_edx = 0, tf_ecx = 0, tf_eax = 0,
     tf_gs = 0, tf_fs = 0, tf_es = 0, tf_ds = 0, tf_trapno = 0, tf_err = 0, tf_eip = 0, tf_cs = 0, tf_eflags = 0,
     tf_esp = 0, tf_ss = 0\<rparr>"

record context_t =
  ctx_edi :: "32 word"
  ctx_esi :: "32 word"
  ctx_ebx :: "32 word"
  ctx_ebp :: "32 word"
  ctx_eip :: "32 word"

record proc =
  p_sz :: "32 word"
  p_pgdir :: "32 word"
  p_heap_start :: "32 word"
  p_kstack :: "32 word"
  p_state :: procstate
  p_pid :: int
  p_page_allocator_type :: int
  p_parent :: "nat option"
  p_tf :: trapframe
  p_context :: context_t
  p_chan :: "chan option"
  p_killed :: bool
  p_ofile :: "nat option list"
  p_cwd :: "nat option"
  p_name :: "byte list"

subsection \<open>The processor\<close>

definition SEG_KCODE :: nat where "SEG_KCODE = 1"
definition SEG_KDATA :: nat where "SEG_KDATA = 2"
definition SEG_KCPU :: nat where "SEG_KCPU = 3"
definition SEG_UCODE :: nat where "SEG_UCODE = 4"
definition SEG_UDATA :: nat where "SEG_UDATA = 5"
definition SEG_TSS :: nat where "SEG_TSS = 6"
definition NSEGS :: nat where "NSEGS = 7"
definition DPL_USER :: "16 word" where "DPL_USER = 3"
definition STA_X :: "4 word" where "STA_X = 8"
definition STA_W :: "4 word" where "STA_W = 2"
definition STA_R :: "4 word" where "STA_R = 2"
definition STS_T32A :: "4 word" where "STS_T32A = 9"
definition STS_IG32 :: "4 word" where "STS_IG32 = 0xE"
definition STS_TG32 :: "4 word" where "STS_TG32 = 0xF"
definition FL_IF :: "32 word" where "FL_IF = 0x200"
definition KSTACKSIZE :: "32 word" where "KSTACKSIZE = 4096"

text \<open>The bit fields of a segment descriptor, in the order of the structure.\<close>

record segdesc =
  lim_15_0 :: "16 word"
  base_15_0 :: "16 word"
  base_23_16 :: "8 word"
  sd_type :: "4 word"
  sd_s :: "1 word"
  sd_dpl :: "2 word"
  sd_p :: "1 word"
  lim_19_16 :: "4 word"
  avl :: "1 word"
  rsv1 :: "1 word"
  db :: "1 word"
  gran :: "1 word"
  base_31_24 :: "8 word"

definition SEG :: "4 word \<Rightarrow> 32 word \<Rightarrow> 32 word \<Rightarrow> 2 word \<Rightarrow> segdesc" where
  "SEG ty base lim dpl =
     \<lparr>lim_15_0 = ucast (drop_bit 12 lim AND 0xffff), base_15_0 = ucast (base AND 0xffff),
      base_23_16 = ucast (drop_bit 16 base AND 0xff), sd_type = ty, sd_s = 1, sd_dpl = dpl, sd_p = 1,
      lim_19_16 = ucast (drop_bit 28 lim), avl = 0, rsv1 = 0, db = 1, gran = 1, base_31_24 = ucast (drop_bit 24 base)\<rparr>"

definition SEG16 :: "4 word \<Rightarrow> 32 word \<Rightarrow> 32 word \<Rightarrow> 2 word \<Rightarrow> segdesc" where
  "SEG16 ty base lim dpl =
     \<lparr>lim_15_0 = ucast (lim AND 0xffff), base_15_0 = ucast (base AND 0xffff),
      base_23_16 = ucast (drop_bit 16 base AND 0xff), sd_type = ty, sd_s = 1, sd_dpl = dpl, sd_p = 1,
      lim_19_16 = ucast (drop_bit 16 lim), avl = 0, rsv1 = 0, db = 1, gran = 0, base_31_24 = ucast (drop_bit 24 base)\<rparr>"

text \<open>
  The fields of \<open>struct cpu\<close> that the modelled code uses; \<open>c_ts_addr\<close> and \<open>c_self_addr\<close> are the addresses of its
  task state and of its member \<open>cpu\<close>. The nesting of \<open>pushcli\<close> belongs to the theory of spin locks.
\<close>

record cpu =
  c_id :: nat
  c_ts_addr :: "32 word"
  c_self_addr :: "32 word"
  c_ss0 :: "16 word"
  c_esp0 :: "32 word"
  c_gdt :: "segdesc list"
  c_gs :: "16 word"
  c_tr :: "16 word"
  c_cr3 :: "32 word"
  c_cr2 :: "32 word"

subsection \<open>The kernel state\<close>

definition INPUT_BUF :: nat where "INPUT_BUF = 128"

record input =
  in_buf :: "byte list"
  in_r :: "32 word"
  in_w :: "32 word"
  in_e :: "32 word"

record kernel_state = fs_state +
  ftable :: "file_t list"
  pipe_at :: "nat \<Rightarrow> pipe"
  ptable :: "proc list"
  initproc :: "nat option"
  nextpid :: int
  curproc :: "nat option"
  cpu_of :: cpu
  kpgdir :: "32 word"
  ticks :: "32 word"
  first :: bool
  cons_in :: input

type_synonym 'a kk = "(kernel_state, 'a) kern"

text \<open>The running process; dereferencing \<open>proc\<close> when it is null is undefined.\<close>

definition myproc :: "nat kk" where
  "myproc = kbind (kget curproc) (\<lambda>c. case c of None \<Rightarrow> kpanic ''undefined: null pointer'' | Some i \<Rightarrow> kret i)"

definition getproc :: "nat \<Rightarrow> proc kk" where
  "getproc i = kget (\<lambda>s. ptable s ! i)"

definition modproc :: "nat \<Rightarrow> (proc \<Rightarrow> proc) \<Rightarrow> unit kk" where
  "modproc i f = kmod (\<lambda>s. s\<lparr>ptable := (ptable s)[i := f (ptable s ! i)]\<rparr>)"

definition curp :: "proc kk" where
  "curp = kbind myproc getproc"

definition modcur :: "(proc \<Rightarrow> proc) \<Rightarrow> unit kk" where
  "modcur f = kbind myproc (\<lambda>i. modproc i f)"

definition modcpu :: "(cpu \<Rightarrow> cpu) \<Rightarrow> unit kk" where
  "modcpu f = kmod (\<lambda>s. s\<lparr>cpu_of := f (cpu_of s)\<rparr>)"

lemma proc_step [kstep]:
  "kbind (getproc i) g s = g (ptable s ! i) s"
  "kbind (modproc i f) h s = h () (s\<lparr>ptable := (ptable s)[i := f (ptable s ! i)]\<rparr>)"
  "kbind (modcpu e) h s = h () (s\<lparr>cpu_of := e (cpu_of s)\<rparr>)"
  "curproc s = Some c \<Longrightarrow> kbind myproc k s = k c s"
  "curproc s = Some c \<Longrightarrow> kbind curp g s = g (ptable s ! c) s"
  "curproc s = Some c \<Longrightarrow> kbind (modcur f) h s = h () (s\<lparr>ptable := (ptable s)[c := f (ptable s ! c)]\<rparr>)"
  by (simp_all add: getproc_def modproc_def modcpu_def myproc_def curp_def modcur_def kbind_assoc kstep)

subsection \<open>Waking up\<close>

definition wakeup1 :: "chan \<Rightarrow> proc list \<Rightarrow> proc list" where
  "wakeup1 ch ps = map (\<lambda>p. if p_state p = SLEEPING \<and> p_chan p = Some ch then p\<lparr>p_state := RUNNABLE\<rparr> else p) ps"

definition wakeup :: "chan \<Rightarrow> unit kk" where
  "wakeup ch = kmod (\<lambda>s. s\<lparr>ptable := wakeup1 ch (ptable s)\<rparr>)"

text \<open>The lower layers record their calls of \<open>wakeup\<close>; \<open>deliver\<close> carries them out, oldest first.\<close>

definition deliver :: "unit kk" where
  "deliver = kmod (\<lambda>s. s\<lparr>ptable := fold wakeup1 (rev (wakeups s)) (ptable s), wakeups := []\<rparr>)"

subsection \<open>Segments and address spaces\<close>

definition seginit :: "unit kk" where
  "seginit =
     kbind (modcpu (\<lambda>c. c\<lparr>c_gdt := (c_gdt c)[SEG_KCODE := SEG (STA_X OR STA_R) 0 0xffffffff 0,
        SEG_KDATA := SEG STA_W 0 0xffffffff 0,
        SEG_UCODE := SEG (STA_X OR STA_R) 0 0xffffffff 3,
        SEG_UDATA := SEG STA_W 0 0xffffffff 3,
        SEG_KCPU := SEG STA_W (c_self_addr c) 8 0], c_gs := of_nat (SEG_KCPU * 8)\<rparr>)) (\<lambda>_.
     kmod (\<lambda>s. s\<lparr>curproc := None\<rparr>))"

definition switchkvm :: "unit kk" where
  "switchkvm = kbind (kget kpgdir) (\<lambda>k. modcpu (\<lambda>c. c\<lparr>c_cr3 := v2p k\<rparr>))"

definition kvmalloc :: "unit kk" where
  "kvmalloc = kbind setupkvm (\<lambda>k. kbind (kmod (\<lambda>s. s\<lparr>kpgdir := k\<rparr>)) (\<lambda>_. switchkvm))"

text \<open>The size of \<open>struct taskstate\<close> is 104 bytes.\<close>

definition switchuvm :: "nat \<Rightarrow> unit kk" where
  "switchuvm i =
     kbind (modcpu (\<lambda>c. c\<lparr>c_gdt := (c_gdt c)[SEG_TSS := (SEG16 STS_T32A (c_ts_addr c) 103 0)\<lparr>sd_s := 0\<rparr>],
        c_ss0 := of_nat (SEG_KDATA * 8)\<rparr>)) (\<lambda>_.
     kbind curp (\<lambda>p.
     kbind (modcpu (\<lambda>c. c\<lparr>c_esp0 := p_kstack p + KSTACKSIZE, c_tr := of_nat (SEG_TSS * 8)\<rparr>)) (\<lambda>_.
     kbind (getproc i) (\<lambda>q.
     if p_pgdir q = 0 then kpanic ''switchuvm: no pgdir''
     else modcpu (\<lambda>c. c\<lparr>c_cr3 := v2p (p_pgdir q)\<rparr>)))))"

subsection \<open>Page faults and user memory\<close>

text \<open>The page-fault branch of \<open>trap\<close>; \<open>cr2\<close> is the faulting address.\<close>

definition trap_pgflt :: "32 word \<Rightarrow> unit kk" where
  "trap_pgflt cr2 =
     (let va = PGROUNDDOWN cr2 in
      kbind curp (\<lambda>p.
      if p_page_allocator_type p = 1 then
        (if va \<ge> p_sz p \<or> va < p_heap_start p then
           kbind (cprintf (''Unhandled page fault for va:0x%x!'' @ [CHR 0x0A]) [pint va]) (\<lambda>_.
           modcur (\<lambda>p. p\<lparr>p_killed := True\<rparr>))
         else
           kbind kalloc (\<lambda>mem.
           if mem = 0 then
             kbind (cprintf (''Out of memory during lazy allocation!'' @ [CHR 0x0A]) []) (\<lambda>_.
             modcur (\<lambda>p. p\<lparr>p_killed := True\<rparr>))
           else
             kbind (zero_page mem) (\<lambda>_.
             kbind (mappages (p_pgdir p) va 4096 (v2p mem) (PTE_W OR PTE_U)) (\<lambda>r.
             if r < 0 then
               kbind (kfree mem) (\<lambda>_.
               kbind (cprintf (''Mapping failed for lazy allocation!'' @ [CHR 0x0A]) []) (\<lambda>_.
               modcur (\<lambda>p. p\<lparr>p_killed := True\<rparr>)))
             else kret ()))))
      else
        kbind (cprintf (''Unhandled page fault for va:0x%x!'' @ [CHR 0x0A]) [pint va]) (\<lambda>_.
        modcur (\<lambda>p. p\<lparr>p_killed := True\<rparr>))))"

text \<open>
  The kernel address of the page that the current page table maps at \<open>va\<close>, or 0. An access by the kernel to a
  page that is not present faults; \<open>trap\<close> runs and the access is tried again. When the handler has not mapped the
  page the kernel faults forever, which the model reports as \<open>page fault loop\<close>.
\<close>

definition page_at :: "32 word \<Rightarrow> 32 word kk" where
  "page_at va =
     kbind curp (\<lambda>p.
     kbind (walkpgdir (p_pgdir p) va False) (\<lambda>pte.
     if pte = 0 then kret 0
     else
       kbind (ldl pte) (\<lambda>e.
       if e AND PTE_P = 0 then kret 0 else kret (p2v (PTE_ADDR e)))))"

definition touch :: "32 word \<Rightarrow> 32 word kk" where
  "touch va =
     kbind (page_at va) (\<lambda>k.
     if k \<noteq> 0 then kret k
     else
       kbind (trap_pgflt va) (\<lambda>_.
       kbind (page_at va) (\<lambda>k.
       if k \<noteq> 0 then kret k else kpanic ''undefined: page fault loop'')))"

definition ldub :: "32 word \<Rightarrow> byte kk" where
  "ldub va = kbind (touch va) (\<lambda>k. kget (\<lambda>s. pages s (frame k) ! (unat va mod PGSIZE)))"

definition stub :: "32 word \<Rightarrow> byte \<Rightarrow> unit kk" where
  "stub va b = kbind (touch va) (\<lambda>k. kmod (\<lambda>s. set_page (frame k) ((pages s (frame k))[unat va mod PGSIZE := b]) s))"

fun copy_in :: "32 word \<Rightarrow> nat \<Rightarrow> byte list kk" where
  "copy_in va 0 = kret []"
| "copy_in va (Suc n) = kbind (ldub va) (\<lambda>b. kbind (copy_in (va + 1) n) (\<lambda>bs. kret (b # bs)))"

fun copy_to :: "32 word \<Rightarrow> byte list \<Rightarrow> unit kk" where
  "copy_to va [] = kret ()"
| "copy_to va (b # bs) = kbind (stub va b) (\<lambda>_. copy_to (va + 1) bs)"

subsection \<open>User memory that is present\<close>

text \<open>The kernel address of the page that the running process has at \<open>va\<close>, or 0.\<close>

definition upage :: "kernel_state \<Rightarrow> 32 word \<Rightarrow> 32 word" where
  "upage s va = (case curproc s of None \<Rightarrow> 0 | Some c \<Rightarrow>
     (let e = pte_of s (p_pgdir (ptable s ! c)) va in if e AND PTE_P = 0 then 0 else p2v (PTE_ADDR e)))"

lemma page_at_eq: "curproc s = Some c \<Longrightarrow> page_at va s = Ret (upage s va) s"
  by (simp add: page_at_def upage_def pte_of_def kstep Let_def kret_apply)

lemma ldub_present:
  assumes "curproc s = Some c" "upage s va \<noteq> 0"
  shows "ldub va s = Ret (pages s (frame (upage s va)) ! (unat va mod PGSIZE)) s"
  using assms by (simp add: ldub_def touch_def kbind_def page_at_eq [OF assms(1)] kret_apply)

lemma stub_present:
  assumes "curproc s = Some c" "upage s va \<noteq> 0"
  shows "stub va b s = Ret () (set_page (frame (upage s va)) ((pages s (frame (upage s va)))[unat va mod PGSIZE := b]) s)"
  using assms by (simp add: stub_def touch_def kbind_def page_at_eq [OF assms(1)] kret_apply)

text \<open>The bytes at \<open>va\<close> of the running process, all of whose pages are present.\<close>

definition user_bytes :: "kernel_state \<Rightarrow> 32 word \<Rightarrow> byte list \<Rightarrow> bool" where
  "user_bytes s va bs \<longleftrightarrow> curproc s \<noteq> None \<and> (\<forall>i<length bs. upage s (va + of_nat i) \<noteq> 0 \<and>
     pages s (frame (upage s (va + of_nat i))) ! (unat (va + of_nat i) mod PGSIZE) = bs ! i)"

lemma user_bytes_Cons:
  "user_bytes s va (b # bs) \<longleftrightarrow> curproc s \<noteq> None \<and> upage s va \<noteq> 0 \<and>
     pages s (frame (upage s va)) ! (unat va mod PGSIZE) = b \<and> user_bytes s (va + 1) bs"
proof -
  have "(\<forall>i<Suc n. P i) \<longleftrightarrow> P 0 \<and> (\<forall>i<n. P (Suc i))" for P n
    by (metis less_Suc_eq_0_disj)
  then show ?thesis
    by (auto simp: user_bytes_def add.assoc)
qed

lemma user_bytes_ldub: "user_bytes s va (b # bs) \<Longrightarrow> ldub va s = Ret b s"
  using ldub_present [of s] by (auto simp: user_bytes_Cons)

lemma copy_in_present: "user_bytes s va bs \<Longrightarrow> copy_in va (length bs) s = Ret bs s"
  by (induction bs arbitrary: va) (auto simp: kret_apply kbind_def user_bytes_ldub user_bytes_Cons)

text \<open>
  A buffer of \<open>n\<close> bytes at \<open>va\<close> that can be written: its pages are present, whole, no part of the page table, and no
  byte of it is mapped twice.
\<close>

definition upt_frames :: "kernel_state \<Rightarrow> nat set" where
  "upt_frames s = (case curproc s of None \<Rightarrow> {} | Some c \<Rightarrow> pt_frames s (p_pgdir (ptable s ! c)))"

definition uloc :: "kernel_state \<Rightarrow> 32 word \<Rightarrow> nat \<times> nat" where
  "uloc s va = (frame (upage s va), unat va mod PGSIZE)"

definition user_buf :: "kernel_state \<Rightarrow> 32 word \<Rightarrow> nat \<Rightarrow> bool" where
  "user_buf s va n \<longleftrightarrow> curproc s \<noteq> None \<and>
     (\<forall>i<n. upage s (va + of_nat i) \<noteq> 0 \<and> frame (upage s (va + of_nat i)) \<notin> upt_frames s \<and>
        length (pages s (frame (upage s (va + of_nat i)))) = PGSIZE) \<and>
     (\<forall>i<n. \<forall>j<n. uloc s (va + of_nat i) = uloc s (va + of_nat j) \<longrightarrow> i = j)"

lemma pages_set_page [simp]: "pages (set_page f bs s) = (pages s)(f := bs)"
  "curproc (set_page f bs u) = curproc u" "ptable (set_page f bs u) = ptable u" "pipe_at (set_page f bs u) = pipe_at u"
  by (simp_all add: set_page_def)

lemma upage_set_page: "f \<notin> upt_frames s \<Longrightarrow> upage (set_page f bs s) va = upage s va"
  by (auto simp: upage_def upt_frames_def pte_of_set_page split: option.splits)

lemma upt_frames_set_page: "f \<notin> upt_frames s \<Longrightarrow> upt_frames (set_page f bs s) = upt_frames s"
  by (auto simp: upt_frames_def pt_frames_set_page split: option.splits)

lemma all_less_Suc_0: "(\<forall>i<Suc n. P i) \<longleftrightarrow> P 0 \<and> (\<forall>i<n. P (Suc i))"
  by (metis less_Suc_eq_0_disj)

text \<open>Storing one byte of the buffer keeps the rest of it writable and the other bytes as they are.\<close>

definition put_user :: "32 word \<Rightarrow> byte \<Rightarrow> kernel_state \<Rightarrow> kernel_state" where
  "put_user va b s = set_page (frame (upage s va)) ((pages s (frame (upage s va)))[unat va mod PGSIZE := b]) s"

lemma user_buf_put:
  assumes "user_buf s va (Suc n)"
  shows "stub va b s = Ret () (put_user va b s)" "user_buf (put_user va b s) (va + 1) n"
    "\<And>x. upage (put_user va b s) x = upage s x"
proof -
  have h: "curproc s \<noteq> None" "upage s va \<noteq> 0" "frame (upage s va) \<notin> upt_frames s"
      "length (pages s (frame (upage s va))) = PGSIZE"
    using assms by (auto simp: user_buf_def all_less_Suc_0)
  show "stub va b s = Ret () (put_user va b s)"
    using h stub_present by (auto simp: put_user_def)
  show u: "upage (put_user va b s) x = upage s x" for x
    using upage_set_page [OF h(3)] by (simp add: put_user_def)
  have t: "upt_frames (put_user va b s) = upt_frames s"
    using upt_frames_set_page [OF h(3)] by (simp add: put_user_def)
  have c: "curproc (put_user va b s) = curproc s" by (simp add: put_user_def)
  have l: "length (pages (put_user va b s) f) = length (pages s f)" for f
    by (simp add: put_user_def)
  have o: "uloc (put_user va b s) x = uloc s x" for x by (simp add: uloc_def u)
  have shift: "va + 1 + of_nat i = va + of_nat (Suc i)" for i by simp
  show "user_buf (put_user va b s) (va + 1) n"
    using assms unfolding user_buf_def u t c l o shift by (metis Suc_less_eq Suc_inject)
qed

lemma user_byte_put:
  assumes "user_buf s va (Suc n)"
  shows "pages (put_user va b s) (frame (upage s va)) ! (unat va mod PGSIZE) = b"
  using assms by (auto simp: user_buf_def all_less_Suc_0 put_user_def PGSIZE_def)

lemma user_byte_put_other:
  "uloc s x \<noteq> uloc s va \<Longrightarrow>
    pages (put_user va b s) (frame (upage s x)) ! (unat x mod PGSIZE) = pages s (frame (upage s x)) ! (unat x mod PGSIZE)"
  by (auto simp: put_user_def uloc_def)

text \<open>User memory depends on the pages and on the page directory of the running process only.\<close>

lemma user_cong:
  assumes "pages t = pages s" "curproc t = curproc s"
    "\<And>c. curproc s = Some c \<Longrightarrow> p_pgdir (ptable t ! c) = p_pgdir (ptable s ! c)"
  shows "upage t = upage s" "uloc t = uloc s" "upt_frames t = upt_frames s"
    "user_bytes t = user_bytes s" "user_buf t = user_buf s"
proof -
  note vm = vm_cong [OF assms(1)]
  show u: "upage t = upage s"
    using assms(2,3) by (auto simp: fun_eq_iff upage_def vm(3) split: option.splits)
  show l: "uloc t = uloc s" by (simp add: fun_eq_iff uloc_def u)
  show f: "upt_frames t = upt_frames s"
    using assms(2,3) by (auto simp: upt_frames_def vm(4) split: option.splits)
  show "user_bytes t = user_bytes s" by (simp add: fun_eq_iff user_bytes_def u assms)
  show "user_buf t = user_buf s" by (simp add: fun_eq_iff user_buf_def u l f assms)
qed

lemma wakeup1_same [simp]:
  "length (wakeup1 ch ps) = length ps" "c < length qs \<Longrightarrow> p_pgdir (wakeup1 ch qs ! c) = p_pgdir (qs ! c)"
  by (auto simp: wakeup1_def)

subsection \<open>A small kernel state\<close>

text \<open>
  One running process with one page of user memory at address 0: the page directory in frame 512, its page table in
  frame 513 and the user page, filled with the byte 7, in frame 514.
\<close>

definition unused_proc :: proc where
  "unused_proc = \<lparr>p_sz = 0, p_pgdir = 0, p_heap_start = 0, p_kstack = 0, p_state = UNUSED, p_pid = 0,
     p_page_allocator_type = 0, p_parent = None, p_tf = zero_tf,
     p_context = \<lparr>ctx_edi = 0, ctx_esi = 0, ctx_ebx = 0, ctx_ebp = 0, ctx_eip = 0\<rparr>, p_chan = None, p_killed = False,
     p_ofile = replicate NOFILE None, p_cwd = None, p_name = []\<rparr>"

definition example_proc :: proc where
  "example_proc = unused_proc\<lparr>p_sz := 4096, p_pgdir := 0x80200000, p_kstack := 0x80203000, p_state := RUNNING, p_pid := 1\<rparr>"

definition example_pages :: "nat \<Rightarrow> byte list" where
  "example_pages f = (if f = 512 then store32 0 0x201007 (replicate PGSIZE 0)
     else if f = 513 then store32 0 0x202007 (replicate PGSIZE 0)
     else if f = 514 then replicate PGSIZE 7 else replicate PGSIZE 0)"

definition empty_pipe :: pipe where
  "empty_pipe = \<lparr>p_data = replicate PIPESIZE 0, nread = 0, nwrite = 0, readopen = True, writeopen = True\<rparr>"

definition kernel_example :: kernel_state where
  "kernel_example = fs_state.extend (small_fs\<lparr>pages := example_pages\<rparr>)
     \<lparr>ftable = replicate NFILE \<lparr>f_type = FD_NONE, f_ref = 0, readable = False, writable = False, f_pipe = 0, f_ip = 0, f_off = 0\<rparr>,
      pipe_at = (\<lambda>_. empty_pipe), ptable = example_proc # replicate (NPROC - 1) unused_proc, initproc = Some 0,
      nextpid = 2, curproc = Some 0,
      cpu_of = \<lparr>c_id = 0, c_ts_addr = 0x80109000, c_self_addr = 0x80109100, c_ss0 = 0, c_esp0 = 0,
        c_gdt = replicate NSEGS (SEG 0 0 0 0), c_gs = 0, c_tr = 0, c_cr3 = 0x200000, c_cr2 = 0\<rparr>,
      kpgdir = 0, ticks = 0, first = False, cons_in = \<lparr>in_buf = replicate INPUT_BUF 0, in_r = 0, in_w = 0, in_e = 0\<rparr>\<rparr>"

lemma kernel_example_sel [simp]:
  "pages kernel_example = example_pages" "curproc kernel_example = Some 0"
  "ptable kernel_example = example_proc # replicate (NPROC - 1) unused_proc" "pipe_at kernel_example = (\<lambda>_. empty_pipe)"
  by (simp_all add: kernel_example_def fs_state.defs)

lemma low_page: "va < 4096 \<Longrightarrow> PDX va = 0 \<and> PTX va = 0"
proof -
  assume "va < 4096"
  then have "unat va div 2 ^ 22 = 0" "unat va div 2 ^ 12 = 0" by (simp_all add: word_less_nat_alt)
  then have "unat (drop_bit 22 va) = 0" "unat (drop_bit 12 va) = 0"
    unfolding unat_drop_bit_eq by (simp_all add: drop_bit_eq_div)
  then have "drop_bit 22 va = 0" "drop_bit 12 va = 0" by (simp_all only: unat_eq_zero)
  then show ?thesis by (simp add: PDX_def PTX_def PDXSHIFT_def PTXSHIFT_def)
qed

lemma example_frames: "frame 0x80200000 = 512" "frame 0x80201000 = 513" "frame 0x80202000 = 514"
  by (simp_all add: frame_def v2p_def KERNBASE_def PGSIZE_def)

lemma example_pde: "unat i < 1024 \<Longrightarrow> pde kernel_example 0x80200000 i = (if i = 0 then 0x201007 else 0)"
proof (cases "i = 0")
  case False
  assume i: "unat i < 1024"
  have "4 \<le> 4 * unat i" using False by (simp add: unat_gt_0 Suc_le_eq)
  then have "load32 (store32 0 w (replicate 4096 0)) (4 * unat i) = 0" for w
    using i by (simp add: load32_store32_other load32_zero)
  then show ?thesis using False by (simp add: pde_def example_frames example_pages_def PGSIZE_def)
qed (simp add: pde_def example_frames example_pages_def PGSIZE_def)

lemma example_ptab: "ptab 0x201007 = 0x80201000" "present 0x201007" "present 0x202007" "\<not> present 0"
  by (simp_all add: ptab_def p2v_def KERNBASE_def PTE_ADDR_def present_def PTE_P_def)

lemma example_wf: "pt_wf kernel_example 0x80200000"
proof -
  have "aligned 0x80200000" by (simp add: aligned_def PGSIZE_def)
  moreover have "ptab (pde kernel_example 0x80200000 i) = 0x80201000" "i = 0"
    if "unat i < 1024" "present (pde kernel_example 0x80200000 i)" for i
    using that example_pde [of i] example_ptab by (auto split: if_splits)
  ultimately show ?thesis
    by (simp add: pt_wf_def example_frames example_pages_def PGSIZE_def) blast
qed

lemma example_upage: "va < 4096 \<Longrightarrow> upage kernel_example va = 0x80202000"
proof -
  assume va: "va < 4096"
  have "pde kernel_example 0x80200000 0 = 0x201007" using example_pde [of 0] by simp
  then have "pte_of kernel_example 0x80200000 va = 0x202007"
    using low_page [OF va] by (simp add: pte_of_wf [OF example_wf] example_ptab example_frames example_pages_def PGSIZE_def)
  then show ?thesis using example_ptab(3)
    by (simp add: upage_def example_proc_def present_def p2v_def KERNBASE_def PTE_ADDR_def)
qed

lemma example_upt_frames: "514 \<notin> upt_frames kernel_example"
proof -
  have "frame (0x80200000 + 4 * PDX va) = 512" for va
    using frame_entry(1) [of "0x80200000" "PDX va"] index_bound(1) example_wf by (simp add: pt_wf_def example_frames)
  moreover have "frame (pte_addr kernel_example 0x80200000 va) = 513" if "pte_addr kernel_example 0x80200000 va \<noteq> 0" for va
  proof -
    have "present (pde kernel_example 0x80200000 (PDX va))" using that pte_addr_wf(2) [OF example_wf] by simp
    then have "pde kernel_example 0x80200000 (PDX va) = 0x201007"
      using example_pde [OF index_bound(1), of va] example_ptab(4) by (auto split: if_splits)
    then show ?thesis
      using pte_addr_wf(1) [OF example_wf, of va] that frame_entry(1) [OF aligned_ptab index_bound(2), of "0x201007" va]
      by (simp add: example_ptab example_frames split: if_splits)
  qed
  ultimately show ?thesis by (auto simp: upt_frames_def example_proc_def pt_frames_def)
qed

lemma example_offset: "unat va + n \<le> 4096 \<Longrightarrow> i < n \<Longrightarrow> unat (va + of_nat i) = unat va + i \<and> va + of_nat i < 4096" for va :: "32 word"
proof -
  assume b: "unat va + n \<le> 4096" "i < n"
  then have "unat (va + of_nat i) = unat va + i" by (simp add: unat_word_ariths unsigned_of_nat take_bit_eq_mod)
  then show ?thesis using b by (simp add: word_less_nat_alt)
qed

lemma example_user:
  assumes "unat va + n \<le> 4096"
  shows "user_bytes kernel_example va (replicate n 7)" "user_buf kernel_example va n"
proof -
  note o = example_offset [OF assms]
  show "user_bytes kernel_example va (replicate n 7)"
    using o by (auto simp: user_bytes_def example_upage example_frames example_pages_def PGSIZE_def)
  show "user_buf kernel_example va n"
    using o assms example_upt_frames
    by (auto simp: user_buf_def example_upage example_frames example_pages_def uloc_def PGSIZE_def)
qed

end
