(* ===== verification/Ring.thy ===== *)
theory Ring
  imports Prelude
begin

text \<open>
  Ring buffers with free-running 32-bit counters, as the pipe and the console's input line use them: byte number
  \<open>k\<close> of the stream lies at index \<open>k mod N\<close>, and the counters wrap around at \<open>2 ^ 32\<close>. The locale is the contract of a
  bounded byte queue that \<open>pipe.c\<close> and \<open>console.c\<close> rely on.
\<close>

definition ring :: "byte list \<Rightarrow> 32 word \<Rightarrow> 32 word \<Rightarrow> byte list" where
  "ring d r w = map (\<lambda>i. d ! (unat (r + of_nat i) mod length d)) [0..<unat (w - r)]"

definition ring_ok :: "nat \<Rightarrow> byte list \<Rightarrow> 32 word \<Rightarrow> 32 word \<Rightarrow> bool" where
  "ring_ok N d r w \<longleftrightarrow> length d = N \<and> unat (w - r) \<le> N"

lemma ring_length [simp]: "length (ring d r w) = unat (w - r)"
  by (simp add: ring_def)

lemma ring_empty_iff: "ring d r w = [] \<longleftrightarrow> r = w"
  by (auto simp: ring_def unat_eq_zero)

lemma unat_sub_add_one:
  fixes r w :: "32 word"
  assumes "unat (w - r) < 2 ^ 32 - 1"
  shows "unat (w + 1 - r) = Suc (unat (w - r))"
proof -
  have s: "unat (x + 1) = Suc (unat x)" if "unat x < 2 ^ 32 - 1" for x :: "32 word"
    using that by (simp add: unat_word_ariths)
  have e: "w + 1 - r = (w - r) + 1" by (simp add: algebra_simps)
  show ?thesis unfolding e by (rule s) (rule assms)
qed

lemma mod_offset_inj:
  fixes a i j N :: nat
  assumes "(a + i) mod N = (a + j) mod N" "0 < N" "i < N" "j < N"
  shows "i = j"
proof -
  have "j \<le> i" if "i \<le> j" "(a + i) mod N = (a + j) mod N" "i < N" "j < N" for i j
  proof -
    have "N dvd j - i" using that mod_eq_dvd_iff_nat [of "a + i" "a + j" N] by simp
    moreover have "j - i < N" using that by simp
    ultimately show ?thesis using nat_dvd_not_less [of "j - i" N] by fastforce
  qed
  then show ?thesis using assms by (metis le_antisym nat_le_linear)
qed

lemma ring_index_inj:
  fixes r :: "32 word"
  assumes "N dvd 2 ^ 32" "0 < N" "i < N" "j < N" "unat (r + of_nat i) mod N = unat (r + of_nat j) mod N"
  shows "i = j"
proof -
  have "unat (r + of_nat k) mod N = (unat r + k) mod N" for k
  proof -
    have "unat (r + of_nat k) = (unat r + k) mod 2 ^ 32"
      by (simp add: unat_word_ariths unsigned_of_nat take_bit_eq_mod mod_simps)
    then show ?thesis using assms(1) by (simp add: mod_mod_cancel)
  qed
  then have "(unat r + i) mod N = (unat r + j) mod N" using assms(5) by simp
  then show ?thesis using assms(2-4) by (rule mod_offset_inj)
qed

text \<open>Storing at the write index appends, taking from the read index removes the front.\<close>

lemma ring_put:
  assumes "N dvd 2 ^ 32" "0 < N" "ring_ok N d r w" "unat (w - r) < N" "N < 2 ^ 32"
  shows "ring (d[unat w mod N := x]) r (w + 1) = ring d r w @ [x]" "ring_ok N (d[unat w mod N := x]) r (w + 1)"
proof -
  let ?n = "unat (w - r)"
  have l: "length d = N" using assms(3) by (simp add: ring_ok_def)
  have n1: "unat (w + 1 - r) = Suc ?n" using assms(4,5) by (intro unat_sub_add_one) simp
  have w: "w = r + of_nat ?n" by simp
  have m: "unat w mod N < N" using assms(2) by simp
  show "ring (d[unat w mod N := x]) r (w + 1) = ring d r w @ [x]"
  proof (rule nth_equalityI)
    show "length (ring (d[unat w mod N := x]) r (w + 1)) = length (ring d r w @ [x])" using n1 by simp
    fix i assume "i < length (ring (d[unat w mod N := x]) r (w + 1))"
    then have i: "i < Suc ?n" using n1 by simp
    show "ring (d[unat w mod N := x]) r (w + 1) ! i = (ring d r w @ [x]) ! i"
    proof (cases "i = ?n")
      case True
      then show ?thesis using n1 m l w by (simp add: ring_def nth_append del: upt_Suc)
    next
      case False
      then have "i < ?n" using i by simp
      moreover have "unat (r + of_nat i) mod N \<noteq> unat w mod N"
        using ring_index_inj [OF assms(1,2), of i ?n r] False i assms(4) w by auto
      ultimately show ?thesis using n1 l by (simp add: ring_def nth_append del: upt_Suc)
    qed
  qed
  show "ring_ok N (d[unat w mod N := x]) r (w + 1)" using l n1 assms(4) by (simp add: ring_ok_def)
qed

lemma ring_get:
  assumes "ring_ok N d r w" "r \<noteq> w"
  shows "ring d r w = d ! (unat r mod N) # ring d (r + 1) w" "ring_ok N d (r + 1) w"
proof -
  have l: "length d = N" "unat (w - r) \<le> N" using assms(1) by (simp_all add: ring_ok_def)
  have "w - r \<noteq> 0" using assms(2) by simp
  then have "unat (w - r) \<noteq> 0" by (simp add: unat_eq_zero)
  moreover have e: "w - (r + 1) = (w - r) - 1" by (simp add: algebra_simps)
  ultimately have n: "unat (w - r) = Suc (unat (w - (r + 1)))"
    unfolding e using unat_minus_one [of "w - r"] \<open>w - r \<noteq> 0\<close> by simp
  show "ring d r w = d ! (unat r mod N) # ring d (r + 1) w"
    unfolding ring_def n using l by (simp add: upt_conv_Cons map_Suc_upt [symmetric] comp_def algebra_simps del: upt_Suc)
  show "ring_ok N d (r + 1) w" using l n by (simp add: ring_ok_def)
qed

text \<open>A position between the two counters splits the contents; stepping the write index back drops the last byte.\<close>

lemma unat_between:
  fixes r w e :: "32 word"
  assumes "unat (w - r) \<le> unat (e - r)"
  shows "unat (e - w) = unat (e - r) - unat (w - r)"
proof -
  have "w - r \<le> e - r" using assms by (simp add: word_le_nat_alt)
  then have "unat ((e - r) - (w - r)) = unat (e - r) - unat (w - r)" by (rule unat_sub)
  then show ?thesis by simp
qed

lemma ring_split:
  fixes r w e :: "32 word"
  assumes "unat (w - r) \<le> unat (e - r)"
  shows "ring d r e = ring d r w @ ring d w e"
proof (rule nth_equalityI)
  show "length (ring d r e) = length (ring d r w @ ring d w e)" using assms unat_between [OF assms] by simp
  fix i assume i: "i < length (ring d r e)"
  show "ring d r e ! i = (ring d r w @ ring d w e) ! i"
  proof (cases "i < unat (w - r)")
    case True
    then show ?thesis using i by (simp add: ring_def nth_append)
  next
    case False
    then have "of_nat (i - unat (w - r)) = (of_nat i - (w - r) :: 32 word)" by (simp add: of_nat_diff)
    then have "w + of_nat (i - unat (w - r)) = r + of_nat i" by (simp add: algebra_simps)
    then show ?thesis using False i unat_between [OF assms] by (simp add: ring_def nth_append add.commute)
  qed
qed

lemma ring_unput:
  fixes r e :: "32 word"
  assumes "e \<noteq> r"
  shows "ring d r (e - 1) = butlast (ring d r e)" "d ! (unat (e - 1) mod length d) = last (ring d r e)"
    "Suc (unat (e - 1 - r)) = unat (e - r)"
proof -
  have nz: "e - r \<noteq> 0" using assms by simp
  have sw: "e - 1 - r = (e - r) - 1" by simp
  have "unat (e - 1 - r) = unat (e - r) - 1" unfolding sw by (rule unat_minus_one [OF nz])
  moreover have "unat (e - r) \<noteq> 0" using nz by (simp add: unat_eq_zero)
  ultimately show n: "Suc (unat (e - 1 - r)) = unat (e - r)" by simp
  have "ring d r e = ring d r (e - 1) @ [d ! (unat (r + of_nat (unat (e - 1 - r))) mod length d)]"
    unfolding ring_def n [symmetric] by simp
  moreover have "r + of_nat (unat (e - 1 - r)) = e - 1" by simp
  ultimately have "ring d r e = ring d r (e - 1) @ [d ! (unat (e - 1) mod length d)]" by simp
  then show "ring d r (e - 1) = butlast (ring d r e)" "d ! (unat (e - 1) mod length d) = last (ring d r e)" by simp_all
qed

subsection \<open>The contract of a bounded byte queue\<close>

locale byte_queue =
  fixes inv :: "'q \<Rightarrow> bool"
    and conts :: "'q \<Rightarrow> byte list"
    and cap :: nat
    and put :: "byte \<Rightarrow> 'q \<Rightarrow> 'q"
    and get :: "'q \<Rightarrow> byte \<times> 'q"
  assumes put_law: "inv q \<Longrightarrow> length (conts q) < cap \<Longrightarrow> inv (put x q) \<and> conts (put x q) = conts q @ [x]"
    and get_law: "inv q \<Longrightarrow> conts q \<noteq> [] \<Longrightarrow> inv (snd (get q)) \<and> conts q = fst (get q) # conts (snd (get q))"
begin

fun puts :: "byte list \<Rightarrow> 'q \<Rightarrow> 'q" where
  "puts [] q = q"
| "puts (x # xs) q = puts xs (put x q)"

fun gets :: "nat \<Rightarrow> 'q \<Rightarrow> byte list \<times> 'q" where
  "gets 0 q = ([], q)"
| "gets (Suc n) q = (case get q of (x, q) \<Rightarrow> (case gets n q of (xs, q) \<Rightarrow> (x # xs, q)))"

lemma puts_conts:
  "inv q \<Longrightarrow> length (conts q) + length xs \<le> cap \<Longrightarrow> inv (puts xs q) \<and> conts (puts xs q) = conts q @ xs"
proof (induction xs arbitrary: q)
  case (Cons x xs)
  then show ?case using put_law [of q x] by simp
qed simp

lemma gets_conts:
  "inv q \<Longrightarrow> n \<le> length (conts q) \<Longrightarrow>
    inv (snd (gets n q)) \<and> fst (gets n q) = take n (conts q) \<and> conts (snd (gets n q)) = drop n (conts q)"
proof (induction n arbitrary: q)
  case (Suc n)
  have "conts q \<noteq> []" using Suc.prems(2) by auto
  from get_law [OF Suc.prems(1) this] have g: "inv (snd (get q))" "conts q = fst (get q) # conts (snd (get q))" by auto
  then have "n \<le> length (conts (snd (get q)))" using Suc.prems(2) by (metis Suc_le_mono length_Cons)
  from Suc.IH [OF g(1) this] show ?case
    using g(2) by (auto simp: split_beta)
qed simp

text \<open>First in, first out: what is put into an empty queue comes out in order.\<close>

lemma fifo:
  assumes "inv q" "conts q = []" "length xs \<le> cap"
  shows "fst (gets (length xs) (puts xs q)) = xs"
  using puts_conts [of q xs] gets_conts [of "puts xs q" "length xs"] assms by simp

end

end
