(* ===== verification/Pipe.thy ===== *)
theory Pipe
  imports Kernel Ring
begin

text \<open>
  Pipes, \<open>pipe.c\<close>: closing, writing and reading; \<open>pipealloc\<close> is in the theory of files, whose routines it calls. When
  \<open>pipewrite\<close> sleeps, the bytes it has stored stay in the pipe and it goes on with the next one once woken;
  when \<open>piperead\<close> sleeps it has read nothing.
\<close>

definition pipe_full :: "pipe \<Rightarrow> bool" where
  "pipe_full p \<longleftrightarrow> nwrite p = nread p + of_nat PIPESIZE"

definition pipe_put :: "byte \<Rightarrow> pipe \<Rightarrow> pipe" where
  "pipe_put x p = p\<lparr>p_data := (p_data p)[unat (nwrite p) mod PIPESIZE := x], nwrite := nwrite p + 1\<rparr>"

definition pipe_get :: "pipe \<Rightarrow> byte \<times> pipe" where
  "pipe_get p = (p_data p ! (unat (nread p) mod PIPESIZE), p\<lparr>nread := nread p + 1\<rparr>)"

definition getpipe :: "nat \<Rightarrow> pipe kk" where
  "getpipe k = kget (\<lambda>s. pipe_at s k)"

definition setpipe :: "nat \<Rightarrow> pipe \<Rightarrow> unit kk" where
  "setpipe k p = kmod (\<lambda>s. s\<lparr>pipe_at := (pipe_at s)(k := p)\<rparr>)"

lemma pipe_step [kstep]:
  "kbind (getpipe k) g s = g (pipe_at s k) s"
  "kbind (setpipe k p) h s = h () (s\<lparr>pipe_at := (pipe_at s)(k := p)\<rparr>)"
  "kbind (wakeup ch) h s = h () (s\<lparr>ptable := wakeup1 ch (ptable s)\<rparr>)"
  by (simp_all add: getpipe_def setpipe_def wakeup_def kstep)

definition pipeclose :: "nat \<Rightarrow> bool \<Rightarrow> unit kk" where
  "pipeclose k wr =
     kbind (getpipe k) (\<lambda>p.
     kbind
       (if wr then
          kbind (setpipe k (p\<lparr>writeopen := False\<rparr>)) (\<lambda>_. wakeup (ChanPipeRead k))
        else
          kbind (setpipe k (p\<lparr>readopen := False\<rparr>)) (\<lambda>_. wakeup (ChanPipeWrite k))) (\<lambda>_.
     kbind (getpipe k) (\<lambda>p.
     if \<not> readopen p \<and> \<not> writeopen p then kfree (p2v (of_nat (k * PGSIZE))) else kret ())))"

text \<open>The loop of \<open>pipewrite\<close> with \<open>m\<close> bytes at \<open>va\<close> still to write, of \<open>n\<close> in all.\<close>

fun pipewrite_loop :: "nat \<Rightarrow> 32 word \<Rightarrow> nat \<Rightarrow> int \<Rightarrow> int kk" where
  "pipewrite_loop k va 0 n = kbind (wakeup (ChanPipeRead k)) (\<lambda>_. kret n)"
| "pipewrite_loop k va (Suc m) n =
     kbind (getpipe k) (\<lambda>p.
     if pipe_full p then
       kbind curp (\<lambda>pr.
       if \<not> readopen p \<or> p_killed pr then kret (-1)
       else kbind (wakeup (ChanPipeRead k)) (\<lambda>_. ksleep (ChanPipeWrite k)))
     else
       kbind (ldub va) (\<lambda>b.
       kbind (setpipe k (pipe_put b p)) (\<lambda>_.
       pipewrite_loop k (va + 1) m n)))"

definition pipewrite :: "nat \<Rightarrow> 32 word \<Rightarrow> int \<Rightarrow> int kk" where
  "pipewrite k va n = pipewrite_loop k va (nat n) n"

text \<open>The copy loop of \<open>piperead\<close>: \<open>m\<close> more bytes are wanted, \<open>i\<close> have been copied.\<close>

fun piperead_loop :: "nat \<Rightarrow> 32 word \<Rightarrow> nat \<Rightarrow> int \<Rightarrow> int kk" where
  "piperead_loop k va 0 i = kret i"
| "piperead_loop k va (Suc m) i =
     kbind (getpipe k) (\<lambda>p.
     if nread p = nwrite p then kret i
     else
       (case pipe_get p of (b, p) \<Rightarrow>
          kbind (stub va b) (\<lambda>_.
          kbind (setpipe k p) (\<lambda>_.
          piperead_loop k (va + 1) m (i + 1)))))"

definition piperead :: "nat \<Rightarrow> 32 word \<Rightarrow> int \<Rightarrow> int kk" where
  "piperead k va n =
     kbind (getpipe k) (\<lambda>p.
     if nread p = nwrite p \<and> writeopen p then
       kbind curp (\<lambda>pr. if p_killed pr then kret (-1) else ksleep (ChanPipeRead k))
     else
       kbind (piperead_loop k va (nat n) 0) (\<lambda>i.
       kbind (wakeup (ChanPipeWrite k)) (\<lambda>_.
       kret i)))"

subsection \<open>The pipe as a queue\<close>

definition pipe_inv :: "pipe \<Rightarrow> bool" where
  "pipe_inv p \<longleftrightarrow> ring_ok PIPESIZE (p_data p) (nread p) (nwrite p)"

definition pipe_conts :: "pipe \<Rightarrow> byte list" where
  "pipe_conts p = ring (p_data p) (nread p) (nwrite p)"

interpretation pq: byte_queue pipe_inv pipe_conts PIPESIZE pipe_put pipe_get
proof
  fix q :: pipe and x :: byte
  show "pipe_inv q \<Longrightarrow> length (pipe_conts q) < PIPESIZE \<Longrightarrow> pipe_inv (pipe_put x q) \<and> pipe_conts (pipe_put x q) = pipe_conts q @ [x]"
    using ring_put [of PIPESIZE "p_data q" "nread q" "nwrite q" x]
    by (simp add: pipe_inv_def pipe_conts_def pipe_put_def PIPESIZE_def)
  show "pipe_inv q \<Longrightarrow> pipe_conts q \<noteq> [] \<Longrightarrow>
      pipe_inv (snd (pipe_get q)) \<and> pipe_conts q = fst (pipe_get q) # pipe_conts (snd (pipe_get q))"
    using ring_get [of PIPESIZE "p_data q" "nread q" "nwrite q"] ring_empty_iff [of "p_data q" "nread q" "nwrite q"]
    by (simp add: pipe_inv_def pipe_conts_def pipe_get_def)
qed

lemma pipe_full_iff: "pipe_inv p \<Longrightarrow> pipe_full p \<longleftrightarrow> length (pipe_conts p) = PIPESIZE"
proof -
  assume "pipe_inv p"
  have "nwrite p = nread p + of_nat PIPESIZE \<longleftrightarrow> nwrite p - nread p = of_nat PIPESIZE" by (simp add: diff_eq_eq add.commute)
  also have "\<dots> \<longleftrightarrow> unat (nwrite p - nread p) = PIPESIZE"
    by (simp add: word_unat_eq_iff PIPESIZE_def)
  finally show ?thesis by (simp add: pipe_full_def pipe_conts_def)
qed

lemma pipe_empty_iff: "nread p = nwrite p \<longleftrightarrow> pipe_conts p = []"
  by (simp add: pipe_conts_def ring_empty_iff)

subsection \<open>Writing and reading\<close>

abbreviation at_pipe :: "kernel_state \<Rightarrow> nat \<Rightarrow> pipe \<Rightarrow> kernel_state" where
  "at_pipe s k p \<equiv> s\<lparr>pipe_at := (pipe_at s)(k := p)\<rparr>"

lemma user_at_pipe [simp]:
  "upage (s\<lparr>pipe_at := f\<rparr>) = upage s" "uloc (s\<lparr>pipe_at := f\<rparr>) = uloc s"
  "user_bytes (s\<lparr>pipe_at := f\<rparr>) = user_bytes s" "user_buf (s\<lparr>pipe_at := f\<rparr>) = user_buf s"
  by (rule user_cong; simp)+

lemma pipewrite_loop_room:
  assumes "pipe_inv (pipe_at s k)" "user_bytes s va bs" "length (pipe_conts (pipe_at s k)) + length bs \<le> PIPESIZE"
  shows "pipewrite_loop k va (length bs) n s =
    Ret n ((at_pipe s k (pq.puts bs (pipe_at s k)))\<lparr>ptable := wakeup1 (ChanPipeRead k) (ptable s)\<rparr>)"
  using assms
proof (induction bs arbitrary: s va)
  case Nil
  then show ?case by (simp add: kstep kret_apply)
next
  case (Cons b bs)
  let ?p = "pipe_at s k"
  have nf: "\<not> pipe_full ?p" "length (pipe_conts ?p) < PIPESIZE" using Cons.prems by (simp_all add: pipe_full_iff)
  note pl = pq.put_law [OF Cons.prems(1) nf(2), of b]
  let ?s = "at_pipe s k (pipe_put b ?p)"
  have "pipewrite_loop k va (length (b # bs)) n s = pipewrite_loop k (va + 1) (length bs) n ?s"
    using nf user_bytes_ldub [OF Cons.prems(2)] by (simp add: kstep kbind_def [of "ldub va"])
  also have "\<dots> = Ret n ((at_pipe ?s k (pq.puts bs (pipe_at ?s k)))\<lparr>ptable := wakeup1 (ChanPipeRead k) (ptable ?s)\<rparr>)"
    using Cons.prems pl by (intro Cons.IH) (simp_all add: user_bytes_Cons)
  finally show ?case by (simp del: fun_upd_apply pipewrite_loop.simps add: fun_upd_same)
qed

lemma pipewrite_loop_full:
  assumes "pipe_inv (pipe_at s k)" "user_bytes s va bs" "length (pipe_conts (pipe_at s k)) + length bs > PIPESIZE"
    "curproc s = Some c"
  defines "t \<equiv> at_pipe s k (pq.puts (take (PIPESIZE - length (pipe_conts (pipe_at s k))) bs) (pipe_at s k))"
  shows "pipewrite_loop k va (length bs) n s =
    (if \<not> readopen (pipe_at s k) \<or> p_killed (ptable s ! c) then Ret (-1) t
     else Block (ChanPipeWrite k) (t\<lparr>ptable := wakeup1 (ChanPipeRead k) (ptable s)\<rparr>))"
  using assms(1-4) unfolding t_def
proof (induction bs arbitrary: s va)
  case Nil
  then show ?case by (simp add: pipe_inv_def ring_ok_def pipe_conts_def)
next
  case (Cons b bs)
  let ?p = "pipe_at s k"
  show ?case
  proof (cases "pipe_full ?p")
    case True
    then show ?thesis using Cons.prems by (simp add: pipe_full_iff kstep kret_apply)
  next
    case False
    then have lt: "length (pipe_conts ?p) < PIPESIZE"
      using Cons.prems(1) pipe_full_iff [of ?p] by (auto simp: pipe_inv_def ring_ok_def pipe_conts_def)
    note pl = pq.put_law [OF Cons.prems(1) lt, of b]
    let ?s = "at_pipe s k (pipe_put b ?p)"
    have e: "pipewrite_loop k va (length (b # bs)) n s = pipewrite_loop k (va + 1) (length bs) n ?s"
      using False user_bytes_ldub [OF Cons.prems(2)] by (simp add: kstep kbind_def [of "ldub va"])
    have d: "PIPESIZE - length (pipe_conts ?p) = Suc (PIPESIZE - length (pipe_conts (pipe_put b ?p)))"
      using pl lt by simp
    have r: "readopen (pipe_put b ?p) = readopen ?p" by (simp add: pipe_put_def)
    show ?thesis
      unfolding e using Cons.prems pl Cons.IH [of ?s "va + 1"] 
      by (simp add: user_bytes_Cons d r fun_upd_same del: fun_upd_apply pipewrite_loop.simps)
  qed
qed

text \<open>
  C35. Writing to a pipe: when the bytes fit, \<open>pipewrite\<close> appends them to the contents in order, wakes the
  readers and returns the count. When they do not, it appends as many as fit; then it returns \<open>-1\<close> if the read
  end is closed or the writer has been killed, and otherwise wakes the readers and sleeps. The counters may wrap
  around \<open>2 ^ 32\<close> meanwhile.
\<close>

theorem pipewrite_spec:
  assumes "pipe_inv (pipe_at s k)" "user_bytes s va bs" "curproc s = Some c"
  defines "old \<equiv> pipe_conts (pipe_at s k)"
  shows "(length old + length bs \<le> PIPESIZE \<longrightarrow>
      kok (pipewrite k va (int (length bs))) s (\<lambda>r t. r = int (length bs) \<and> pipe_inv (pipe_at t k) \<and>
        pipe_conts (pipe_at t k) = old @ bs \<and> ptable t = wakeup1 (ChanPipeRead k) (ptable s))) \<and>
    (length old + length bs > PIPESIZE \<longrightarrow>
      (\<exists>t. pipe_inv (pipe_at t k) \<and> pipe_conts (pipe_at t k) = old @ take (PIPESIZE - length old) bs \<and>
        pipewrite k va (int (length bs)) s =
          (if \<not> readopen (pipe_at s k) \<or> p_killed (ptable s ! c) then Ret (-1) t
           else Block (ChanPipeWrite k) (t\<lparr>ptable := wakeup1 (ChanPipeRead k) (ptable s)\<rparr>))))"
proof (intro conjI impI)
  assume l: "length old + length bs \<le> PIPESIZE"
  show "kok (pipewrite k va (int (length bs))) s (\<lambda>r t. r = int (length bs) \<and> pipe_inv (pipe_at t k) \<and>
        pipe_conts (pipe_at t k) = old @ bs \<and> ptable t = wakeup1 (ChanPipeRead k) (ptable s))"
    using pipewrite_loop_room [OF assms(1,2)] pq.puts_conts [OF assms(1)] l
    by (simp add: kok_def pipewrite_def old_def)
next
  assume l: "length old + length bs > PIPESIZE"
  let ?xs = "take (PIPESIZE - length old) bs"
  let ?t = "at_pipe s k (pq.puts ?xs (pipe_at s k))"
  have o: "length old \<le> PIPESIZE" using assms(1) by (simp add: old_def pipe_inv_def ring_ok_def pipe_conts_def)
  have "pipe_inv (pipe_at ?t k) \<and> pipe_conts (pipe_at ?t k) = old @ ?xs"
    using pq.puts_conts [OF assms(1), of ?xs] o by (simp add: old_def)
  then show "\<exists>t. pipe_inv (pipe_at t k) \<and> pipe_conts (pipe_at t k) = old @ ?xs \<and>
        pipewrite k va (int (length bs)) s =
          (if \<not> readopen (pipe_at s k) \<or> p_killed (ptable s ! c) then Ret (-1) t
           else Block (ChanPipeWrite k) (t\<lparr>ptable := wakeup1 (ChanPipeRead k) (ptable s)\<rparr>))"
    using pipewrite_loop_full [OF assms(1,2) _ assms(3)] l by (intro exI [of _ ?t]) (simp add: pipewrite_def old_def)
qed

lemma empty_pipe_inv: "pipe_inv empty_pipe" "pipe_conts empty_pipe = []"
  by (simp_all add: pipe_inv_def pipe_conts_def ring_ok_def ring_def empty_pipe_def PIPESIZE_def)

theorem pipewrite_spec_witness:
  "kok (pipewrite 5 16 3) kernel_example (\<lambda>r t. r = 3 \<and> pipe_inv (pipe_at t 5) \<and>
     pipe_conts (pipe_at t 5) = [7, 7, 7] \<and> ptable t = wakeup1 (ChanPipeRead 5) (ptable kernel_example)) \<and>
   (\<exists>t. pipe_inv (pipe_at t 5) \<and> pipe_conts (pipe_at t 5) = replicate 512 7 \<and>
     pipewrite 5 16 600 kernel_example =
       Block (ChanPipeWrite 5) (t\<lparr>ptable := wakeup1 (ChanPipeRead 5) (ptable kernel_example)\<rparr>))"
proof
  show "kok (pipewrite 5 16 3) kernel_example (\<lambda>r t. r = 3 \<and> pipe_inv (pipe_at t 5) \<and>
     pipe_conts (pipe_at t 5) = [7, 7, 7] \<and> ptable t = wakeup1 (ChanPipeRead 5) (ptable kernel_example))"
    using pipewrite_spec [of kernel_example 5 16 "replicate 3 7" 0] example_user(1) [of 16 3]
    by (simp add: empty_pipe_inv PIPESIZE_def numeral_3_eq_3)
  show "\<exists>t. pipe_inv (pipe_at t 5) \<and> pipe_conts (pipe_at t 5) = replicate 512 7 \<and>
     pipewrite 5 16 600 kernel_example =
       Block (ChanPipeWrite 5) (t\<lparr>ptable := wakeup1 (ChanPipeRead 5) (ptable kernel_example)\<rparr>)"
    using pipewrite_spec [of kernel_example 5 16 "replicate 600 7" 0] example_user(1) [of 16 600]
    by (simp add: empty_pipe_inv PIPESIZE_def) (simp add: empty_pipe_def example_proc_def unused_proc_def)
qed

lemma piperead_loop_copy:
  assumes "pipe_inv (pipe_at s k)" "user_buf s va m"
  defines "xs \<equiv> take m (pipe_conts (pipe_at s k))"
  shows "\<exists>t. piperead_loop k va m i s = Ret (i + int (length xs)) t \<and> user_bytes t va xs \<and> pipe_inv (pipe_at t k) \<and>
    pipe_conts (pipe_at t k) = drop m (pipe_conts (pipe_at s k)) \<and> ptable t = ptable s \<and> curproc t = curproc s \<and>
    (\<forall>x. upage t x = upage s x) \<and>
    (\<forall>x. (\<forall>j<length xs. uloc s x \<noteq> uloc s (va + of_nat j)) \<longrightarrow>
      pages t (frame (upage s x)) ! (unat x mod PGSIZE) = pages s (frame (upage s x)) ! (unat x mod PGSIZE))"
  using assms(1,2) unfolding xs_def
proof (induction m arbitrary: s va i)
  case 0
  then show ?case by (auto simp: kret_apply user_bytes_def user_buf_def)
next
  case (Suc m)
  let ?p = "pipe_at s k"
  show ?case
  proof (cases "nread ?p = nwrite ?p")
    case True
    then show ?thesis using Suc.prems pipe_empty_iff [of ?p] by (auto simp: kstep kret_apply user_bytes_def user_buf_def)
  next
    case False
    then have ne: "pipe_conts ?p \<noteq> []" by (simp add: pipe_empty_iff)
    obtain b q where g: "pipe_get ?p = (b, q)" by (cases "pipe_get ?p")
    have q: "pipe_inv q" "pipe_conts ?p = b # pipe_conts q" using pq.get_law [OF Suc.prems(1) ne] g by simp_all
    note ub = user_buf_put [OF Suc.prems(2), of b]
    let ?s = "at_pipe (put_user va b s) k q"
    have e: "piperead_loop k va (Suc m) i s = piperead_loop k (va + 1) m (i + 1) ?s"
      using False g ub(1) by (simp add: kstep kbind_def [of "stub va b"])
    have up: "upage (put_user va b s) x = upage s x" "uloc (put_user va b s) x = uloc s x" for x
      using ub(3) by (simp_all add: uloc_def)
    have pc: "ptable ?s = ptable s" "curproc ?s = curproc s" by (simp_all add: put_user_def)
    have "\<exists>t. piperead_loop k (va + 1) m (i + 1) ?s = Ret (i + 1 + int (length (take m (pipe_conts q)))) t \<and>
      user_bytes t (va + 1) (take m (pipe_conts q)) \<and> pipe_inv (pipe_at t k) \<and> pipe_conts (pipe_at t k) = drop m (pipe_conts q) \<and>
      ptable t = ptable s \<and> curproc t = curproc s \<and> (\<forall>x. upage t x = upage s x) \<and>
      (\<forall>x. (\<forall>j<length (take m (pipe_conts q)). uloc s x \<noteq> uloc s (va + 1 + of_nat j)) \<longrightarrow>
        pages t (frame (upage s x)) ! (unat x mod PGSIZE) = pages ?s (frame (upage s x)) ! (unat x mod PGSIZE))"
      using Suc.IH [of ?s "va + 1" "i + 1"] q(1) ub(2) by (simp add: up pc)
    then obtain t where t: "piperead_loop k (va + 1) m (i + 1) ?s = Ret (i + 1 + int (length (take m (pipe_conts q)))) t"
      "user_bytes t (va + 1) (take m (pipe_conts q))" "pipe_inv (pipe_at t k)" "pipe_conts (pipe_at t k) = drop m (pipe_conts q)"
      "ptable t = ptable s" "curproc t = curproc s" "\<And>x. upage t x = upage s x"
      "\<And>x. (\<And>j. j < length (take m (pipe_conts q)) \<Longrightarrow> uloc s x \<noteq> uloc s (va + 1 + of_nat j)) \<Longrightarrow>
        pages t (frame (upage s x)) ! (unat x mod PGSIZE) = pages ?s (frame (upage s x)) ! (unat x mod PGSIZE)"
      by blast
    have sh: "va + 1 + of_nat j = va + of_nat (Suc j)" for j by simp
    have ne0: "uloc s va \<noteq> uloc s (va + 1 + of_nat j)" if "j < m" for j
    proof -
      have "\<forall>i<Suc m. \<forall>j<Suc m. uloc s (va + of_nat i) = uloc s (va + of_nat j) \<longrightarrow> i = j"
        using Suc.prems(2) unfolding user_buf_def by blast
      from this [rule_format, of 0 "Suc j"] that show ?thesis unfolding sh by auto
    qed
    have "pages t (frame (upage s va)) ! (unat va mod PGSIZE) = b"
      using t(8) [of va] ne0 user_byte_put [OF Suc.prems(2), of b] by simp
    then have ubt: "user_bytes t va (b # take m (pipe_conts q))"
      using t(2,6,7) Suc.prems(2) by (auto simp: user_bytes_Cons user_buf_def)
    have oth: "pages t (frame (upage s x)) ! (unat x mod PGSIZE) = pages s (frame (upage s x)) ! (unat x mod PGSIZE)"
      if x: "\<forall>j<Suc (length (take m (pipe_conts q))). uloc s x \<noteq> uloc s (va + of_nat j)" for x
    proof -
      have "uloc s x \<noteq> uloc s va" "\<And>j. j < length (take m (pipe_conts q)) \<Longrightarrow> uloc s x \<noteq> uloc s (va + 1 + of_nat j)"
        using x unfolding all_less_Suc_0 sh by simp_all
      then show ?thesis using t(8) [of x] user_byte_put_other [of s x va b] by simp
    qed
    show ?thesis
      using t(1,3-7) ubt oth by (intro exI [of _ t]) (simp add: e q(2) del: piperead_loop.simps)
  qed
qed

text \<open>
  C36. Reading from a pipe into a writable buffer: when there is data or no writer is left, \<open>piperead\<close> removes the
  first \<open>n\<close> bytes of the contents, or all there are, puts exactly those into the buffer, wakes the writers and returns
  their number. On an empty pipe with the write end open it sleeps, or returns \<open>-1\<close> if the reader has been killed.
\<close>

theorem piperead_spec:
  assumes "pipe_inv (pipe_at s k)" "user_buf s va n" "curproc s = Some c" "c < length (ptable s)"
  defines "old \<equiv> pipe_conts (pipe_at s k)"
  shows "(old \<noteq> [] \<or> \<not> writeopen (pipe_at s k) \<longrightarrow>
      kok (piperead k va (int n)) s (\<lambda>r t. r = int (min n (length old)) \<and> user_bytes t va (take n old) \<and>
        pipe_inv (pipe_at t k) \<and> pipe_conts (pipe_at t k) = drop n old)) \<and>
    (old = [] \<and> writeopen (pipe_at s k) \<longrightarrow>
      piperead k va (int n) s = (if p_killed (ptable s ! c) then Ret (-1) s else Block (ChanPipeRead k) s))"
proof (intro conjI impI)
  assume a: "old \<noteq> [] \<or> \<not> writeopen (pipe_at s k)"
  obtain t where t: "piperead_loop k va n 0 s = Ret (int (length (take n old))) t" "user_bytes t va (take n old)"
    "pipe_inv (pipe_at t k)" "pipe_conts (pipe_at t k) = drop n old" "ptable t = ptable s" "curproc t = curproc s"
    using piperead_loop_copy [OF assms(1,2), of 0] unfolding old_def by auto
  have "piperead k va (int n) s = Ret (int (length (take n old))) (t\<lparr>ptable := wakeup1 (ChanPipeWrite k) (ptable t)\<rparr>)"
    using a t(1) by (auto simp: piperead_def kstep kbind_def [of "piperead_loop _ _ _ _"] kret_apply old_def pipe_empty_iff)
  moreover have "user_bytes (t\<lparr>ptable := wakeup1 (ChanPipeWrite k) (ptable t)\<rparr>) = user_bytes t"
    using assms(3,4) t(5,6) by (intro user_cong) auto
  ultimately show "kok (piperead k va (int n)) s (\<lambda>r t. r = int (min n (length old)) \<and> user_bytes t va (take n old) \<and>
        pipe_inv (pipe_at t k) \<and> pipe_conts (pipe_at t k) = drop n old)"
    using t(2-4) by (simp add: kok_def min.commute)
next
  assume "old = [] \<and> writeopen (pipe_at s k)"
  then show "piperead k va (int n) s = (if p_killed (ptable s ! c) then Ret (-1) s else Block (ChanPipeRead k) s)"
    using assms(3) by (simp add: piperead_def kstep old_def pipe_empty_iff kret_apply)
qed

theorem piperead_spec_witness:
  "kok (piperead 5 100 10) (at_pipe kernel_example 5 (pipe_put 9 empty_pipe))
     (\<lambda>r t. r = 1 \<and> user_bytes t 100 [9] \<and> pipe_inv (pipe_at t 5) \<and> pipe_conts (pipe_at t 5) = []) \<and>
   piperead 5 100 10 kernel_example = Block (ChanPipeRead 5) kernel_example"
proof
  let ?s = "at_pipe kernel_example 5 (pipe_put 9 empty_pipe)"
  have p: "pipe_inv (pipe_put 9 empty_pipe)" "pipe_conts (pipe_put 9 empty_pipe) = [9]"
    using pq.put_law [of empty_pipe 9] by (simp_all add: empty_pipe_inv PIPESIZE_def)
  show "kok (piperead 5 100 10) ?s
     (\<lambda>r t. r = 1 \<and> user_bytes t 100 [9] \<and> pipe_inv (pipe_at t 5) \<and> pipe_conts (pipe_at t 5) = [])"
    using piperead_spec [of ?s 5 100 10 0] example_user(2) [of 100 10] by (simp add: p)
  show "piperead 5 100 10 kernel_example = Block (ChanPipeRead 5) kernel_example"
    using piperead_spec [of kernel_example 5 100 10 0] example_user(2) [of 100 10]
    by (simp add: empty_pipe_inv) (simp add: empty_pipe_def example_proc_def unused_proc_def)
qed

end
