(* ===== verification/Spinlock.thy ===== *)
theory Spinlock
  imports Kalloc
begin

text \<open>
  Spin locks, \<open>spinlock.c\<close>: \<open>pushcli\<close> and \<open>popcli\<close>, \<open>acquire\<close>, \<open>release\<close> and \<open>holding\<close> on a machine with
  several processors, and the atomic steps in which processors interleave. A processor is its number; \<open>if_on\<close>
  is the interrupt flag of its \<open>eflags\<close>. The other theories treat a critical section as one uninterrupted
  piece; the mutual exclusion proved here is what allows that.
\<close>

record icpu =
  ncli :: int
  intena :: bool
  if_on :: bool

record spinlock =
  locked :: "32 word"
  lk_name :: string
  lk_cpu :: "nat option"
  lk_pcs :: "32 word list"

record mach =
  cpus :: "nat \<Rightarrow> icpu"
  locks :: "nat \<Rightarrow> spinlock"

definition initlock :: "nat \<Rightarrow> string \<Rightarrow> (mach, unit) kern" where
  "initlock l name = kmod (\<lambda>m. m\<lparr>locks := (locks m)(l := (locks m l)\<lparr>lk_name := name, locked := 0, lk_cpu := None\<rparr>)\<rparr>)"

definition mod_icpu :: "nat \<Rightarrow> (icpu \<Rightarrow> icpu) \<Rightarrow> (mach, unit) kern" where
  "mod_icpu c f = kmod (\<lambda>m. m\<lparr>cpus := (cpus m)(c := f (cpus m c))\<rparr>)"

definition modlock :: "nat \<Rightarrow> (spinlock \<Rightarrow> spinlock) \<Rightarrow> (mach, unit) kern" where
  "modlock l f = kmod (\<lambda>m. m\<lparr>locks := (locks m)(l := f (locks m l))\<rparr>)"

definition pushcli :: "nat \<Rightarrow> (mach, unit) kern" where
  "pushcli c =
     kbind (kget (\<lambda>m. cpus m c)) (\<lambda>k.
     kbind (mod_icpu c (\<lambda>k. k\<lparr>if_on := False\<rparr>)) (\<lambda>_.
     kbind (mod_icpu c (\<lambda>k. k\<lparr>ncli := ncli k + 1\<rparr>)) (\<lambda>_.
     if ncli k = 0 then mod_icpu c (\<lambda>j. j\<lparr>intena := if_on k\<rparr>) else kret ())))"

definition popcli :: "nat \<Rightarrow> (mach, unit) kern" where
  "popcli c =
     kbind (kget (\<lambda>m. cpus m c)) (\<lambda>k.
     if if_on k then kpanic ''popcli - interruptible''
     else
       kbind (mod_icpu c (\<lambda>k. k\<lparr>ncli := ncli k - 1\<rparr>)) (\<lambda>_.
       if ncli k - 1 < 0 then kpanic ''popcli''
       else if ncli k - 1 = 0 \<and> intena k then mod_icpu c (\<lambda>k. k\<lparr>if_on := True\<rparr>)
       else kret ()))"

definition holding :: "nat \<Rightarrow> nat \<Rightarrow> mach \<Rightarrow> bool" where
  "holding c l m \<longleftrightarrow> locked (locks m l) \<noteq> 0 \<and> lk_cpu (locks m l) = Some c"

definition xchg_locked :: "nat \<Rightarrow> 32 word \<Rightarrow> (mach, 32 word) kern" where
  "xchg_locked l w = kbind (kget (\<lambda>m. locked (locks m l))) (\<lambda>old. kbind (modlock l (\<lambda>k. k\<lparr>locked := w\<rparr>)) (\<lambda>_. kret old))"

text \<open>The call stack: \<open>mem\<close> reads a word of memory; \<open>n\<close> places are still to be filled.\<close>

fun callerpcs_from :: "(32 word \<Rightarrow> 32 word) \<Rightarrow> nat \<Rightarrow> 32 word \<Rightarrow> 32 word list" where
  "callerpcs_from mem 0 ebp = []"
| "callerpcs_from mem (Suc n) ebp =
     (if ebp = 0 \<or> ebp < KERNBASE \<or> ebp = 0xffffffff then replicate (Suc n) 0
      else mem (ebp + 4) # callerpcs_from mem n (mem ebp))"

definition getcallerpcs :: "(32 word \<Rightarrow> 32 word) \<Rightarrow> 32 word \<Rightarrow> 32 word list" where
  "getcallerpcs mem v = callerpcs_from mem 10 (v - 8)"

text \<open>
  \<open>acquire\<close> in three pieces: up to the loop, one round of the loop, and the recording of the owner. In the whole
  routine a failed round waits on \<open>ChanSpin\<close>.
\<close>

definition acquire_enter :: "nat \<Rightarrow> nat \<Rightarrow> (mach, unit) kern" where
  "acquire_enter c l =
     kbind (pushcli c) (\<lambda>_.
     kbind (kget (holding c l)) (\<lambda>h.
     if h then kpanic ''acquire'' else kret ()))"

definition acquire_record :: "nat \<Rightarrow> nat \<Rightarrow> 32 word list \<Rightarrow> (mach, unit) kern" where
  "acquire_record c l pcs = modlock l (\<lambda>k. k\<lparr>lk_cpu := Some c, lk_pcs := pcs\<rparr>)"

definition acquire :: "nat \<Rightarrow> nat \<Rightarrow> 32 word list \<Rightarrow> (mach, unit) kern" where
  "acquire c l pcs =
     kbind (acquire_enter c l) (\<lambda>_.
     kbind (xchg_locked l 1) (\<lambda>old.
     if old \<noteq> 0 then ksleep (ChanSpin l) else acquire_record c l pcs))"

definition release_clear :: "nat \<Rightarrow> nat \<Rightarrow> (mach, unit) kern" where
  "release_clear c l =
     kbind (kget (holding c l)) (\<lambda>h.
     if \<not> h then kpanic ''release''
     else modlock l (\<lambda>k. k\<lparr>lk_pcs := (lk_pcs k)[0 := 0], lk_cpu := None\<rparr>))"

definition release :: "nat \<Rightarrow> nat \<Rightarrow> (mach, unit) kern" where
  "release c l =
     kbind (release_clear c l) (\<lambda>_.
     kbind (xchg_locked l 0) (\<lambda>_.
     popcli c))"

lemmas lock_ops = pushcli_def popcli_def holding_def xchg_locked_def acquire_enter_def acquire_record_def
  release_clear_def mod_icpu_def modlock_def

subsection \<open>Interleaving\<close>

text \<open>
  Where a processor is: outside the lock routines, in the loop of \<open>acquire\<close>, between the exchange and the recording of
  the owner, and in \<open>release\<close> before the exchange and before \<open>popcli\<close>. \<open>owns\<close> is a history variable: the
  locks that the processor's exchange has taken.
\<close>

datatype lpc = Idle | Spin nat | Got nat | Rel nat | Pop

record conf = mach_of :: mach pc :: "nat \<Rightarrow> lpc" owns :: "nat \<Rightarrow> nat set"

inductive lstep :: "conf \<Rightarrow> conf \<Rightarrow> bool" where
  enter: "pc s c = Idle \<Longrightarrow> acquire_enter c l (mach_of s) = Ret () m \<Longrightarrow>
    lstep s (s\<lparr>mach_of := m, pc := (pc s)(c := Spin l)\<rparr>)"
| spin: "pc s c = Spin l \<Longrightarrow> xchg_locked l 1 (mach_of s) = Ret old m \<Longrightarrow> old \<noteq> 0 \<Longrightarrow> lstep s (s\<lparr>mach_of := m\<rparr>)"
| take: "pc s c = Spin l \<Longrightarrow> xchg_locked l 1 (mach_of s) = Ret 0 m \<Longrightarrow>
    lstep s (s\<lparr>mach_of := m, pc := (pc s)(c := Got l), owns := (owns s)(c := insert l (owns s c))\<rparr>)"
| got: "pc s c = Got l \<Longrightarrow> acquire_record c l pcs (mach_of s) = Ret () m \<Longrightarrow>
    lstep s (s\<lparr>mach_of := m, pc := (pc s)(c := Idle)\<rparr>)"
| rel: "pc s c = Idle \<Longrightarrow> release_clear c l (mach_of s) = Ret () m \<Longrightarrow>
    lstep s (s\<lparr>mach_of := m, pc := (pc s)(c := Rel l)\<rparr>)"
| unlock: "pc s c = Rel l \<Longrightarrow> xchg_locked l 0 (mach_of s) = Ret old m \<Longrightarrow>
    lstep s (s\<lparr>mach_of := m, pc := (pc s)(c := Pop), owns := (owns s)(c := owns s c - {l})\<rparr>)"
| pop: "pc s c = Pop \<Longrightarrow> popcli c (mach_of s) = Ret () m \<Longrightarrow> lstep s (s\<lparr>mach_of := m, pc := (pc s)(c := Idle)\<rparr>)"

text \<open>Every lock free, no processor in a lock routine.\<close>

definition fresh :: "conf \<Rightarrow> bool" where
  "fresh s \<longleftrightarrow> (\<forall>c. pc s c = Idle \<and> owns s c = {} \<and> ncli (cpus (mach_of s) c) = 0) \<and>
     (\<forall>l. locked (locks (mach_of s) l) = 0 \<and> lk_cpu (locks (mach_of s) l) = None)"

inductive reach :: "conf \<Rightarrow> conf \<Rightarrow> bool" for s0 where
  start: "reach s0 s0"
| step: "reach s0 s \<Longrightarrow> lstep s t \<Longrightarrow> reach s0 t"

definition in_routine :: "lpc \<Rightarrow> int" where
  "in_routine p = (case p of Spin l \<Rightarrow> 1 | Pop \<Rightarrow> 1 | _ \<Rightarrow> 0)"

text \<open>Who owns which lock, and the interrupt state of each processor; \<open>s0\<close> is the initial configuration.\<close>

definition own_inv :: "conf \<Rightarrow> bool" where
  "own_inv s \<longleftrightarrow>
     (\<forall>c d l. l \<in> owns s c \<and> l \<in> owns s d \<longrightarrow> c = d) \<and>
     (\<forall>l. locked (locks (mach_of s) l) \<noteq> 0 \<longleftrightarrow> (\<exists>c. l \<in> owns s c)) \<and>
     (\<forall>c l. lk_cpu (locks (mach_of s) l) = Some c \<longrightarrow> l \<in> owns s c) \<and>
     (\<forall>c l. pc s c = Got l \<or> pc s c = Rel l \<longrightarrow> l \<in> owns s c) \<and>
     (\<forall>c l. pc s c = Rel l \<longrightarrow> lk_cpu (locks (mach_of s) l) = None)"

definition cli_ok :: "bool \<Rightarrow> icpu \<Rightarrow> nat set \<Rightarrow> lpc \<Rightarrow> bool" where
  "cli_ok b k ls p \<longleftrightarrow> finite ls \<and> ncli k = int (card ls) + in_routine p \<and> if_on k = (ncli k = 0 \<and> b) \<and>
     (ncli k \<noteq> 0 \<longrightarrow> intena k = b)"

definition cli_inv :: "conf \<Rightarrow> conf \<Rightarrow> bool" where
  "cli_inv s0 s \<longleftrightarrow> (\<forall>c. cli_ok (if_on (cpus (mach_of s0) c)) (cpus (mach_of s) c) (owns s c) (pc s c))"

lemma own_inv_fresh: "fresh s \<Longrightarrow> own_inv s"
  by (auto simp: fresh_def own_inv_def)

lemma cli_inv_fresh: "fresh s \<Longrightarrow> cli_inv s s"
  by (auto simp: fresh_def cli_inv_def cli_ok_def in_routine_def)

text \<open>What the pieces do.\<close>

lemma acquire_enter_Ret:
  "acquire_enter c l m = Ret () m' \<longleftrightarrow> \<not> holding c l m \<and>
     m' = m\<lparr>cpus := (cpus m)(c := (cpus m c)\<lparr>if_on := False, ncli := ncli (cpus m c) + 1,
       intena := (if ncli (cpus m c) = 0 then if_on (cpus m c) else intena (cpus m c))\<rparr>)\<rparr>"
  by (auto simp: lock_ops kern_defs)

lemma xchg_Ret: "xchg_locked l w m = Ret old m' \<longleftrightarrow> old = locked (locks m l) \<and>
    m' = m\<lparr>locks := (locks m)(l := (locks m l)\<lparr>locked := w\<rparr>)\<rparr>"
  by (auto simp: lock_ops kern_defs)

lemma acquire_record_Ret: "acquire_record c l pcs m = Ret () m' \<longleftrightarrow>
    m' = m\<lparr>locks := (locks m)(l := (locks m l)\<lparr>lk_cpu := Some c, lk_pcs := pcs\<rparr>)\<rparr>"
  by (auto simp: lock_ops kern_defs)

lemma release_clear_Ret: "release_clear c l m = Ret () m' \<longleftrightarrow> holding c l m \<and>
    m' = m\<lparr>locks := (locks m)(l := (locks m l)\<lparr>lk_pcs := (lk_pcs (locks m l))[0 := 0], lk_cpu := None\<rparr>)\<rparr>"
  by (auto simp: lock_ops kern_defs)

lemma popcli_Ret:
  "popcli c m = Ret () m' \<longleftrightarrow> \<not> if_on (cpus m c) \<and> 1 \<le> ncli (cpus m c) \<and>
     m' = m\<lparr>cpus := (cpus m)(c := (if ncli (cpus m c) = 1 \<and> intena (cpus m c)
       then (cpus m c)\<lparr>ncli := ncli (cpus m c) - 1, if_on := True\<rparr> else (cpus m c)\<lparr>ncli := ncli (cpus m c) - 1\<rparr>))\<rparr>"
  by (auto simp: lock_ops kern_defs)

lemmas lock_effects = acquire_enter_Ret xchg_Ret acquire_record_Ret release_clear_Ret popcli_Ret

lemma own_inv_step: "lstep s t \<Longrightarrow> own_inv s \<Longrightarrow> own_inv t"
proof (induction rule: lstep.induct)
  case (enter s c l m)
  then show ?case by (auto simp: own_inv_def lock_effects)
next
  case (spin s c l old m)
  then show ?case by (auto simp: own_inv_def lock_effects)
next
  case (take s c l m)
  then have l0: "locked (locks (mach_of s) l) = 0" by (simp add: xchg_Ret)
  then have no: "l \<notin> owns s d" for d using take by (auto simp: own_inv_def)
  then have "lk_cpu (locks (mach_of s) l) \<noteq> Some d" for d using take(3) unfolding own_inv_def by blast
  then have "lk_cpu (locks (mach_of s) l) = None" by (cases "lk_cpu (locks (mach_of s) l)") auto
  moreover have "\<exists>d. (d = c \<longrightarrow> k \<in> owns s c) \<and> (d \<noteq> c \<longrightarrow> k \<in> owns s d)" if "k \<in> owns s d" for k d
    using that by auto
  moreover have "k \<in> owns s d \<Longrightarrow> k \<in> owns s c \<Longrightarrow> d = c" for k d using take(3) unfolding own_inv_def by blast
  ultimately show ?case using take no by (auto simp: own_inv_def lock_effects)
next
  case (got s c l pcs m)
  then have l: "l \<in> owns s c" by (auto simp: own_inv_def)
  have "pc s d \<noteq> Rel l" for d
  proof
    assume d: "pc s d = Rel l"
    then have "l \<in> owns s d" using got(3) by (auto simp: own_inv_def)
    then have "d = c" using l got(3) unfolding own_inv_def by blast
    then show False using d got(1) by simp
  qed
  then show ?case using got l by (auto simp: own_inv_def lock_effects)
next
  case (rel s c l m)
  then show ?case by (auto simp: own_inv_def lock_effects holding_def)
next
  case (unlock s c l old m)
  note inv = unlock(3) [unfolded own_inv_def]
  have m: "m = (mach_of s)\<lparr>locks := (locks (mach_of s))(l := (locks (mach_of s) l)\<lparr>locked := 0\<rparr>)\<rparr>"
    using unlock(2) by (simp add: xchg_Ret)
  have l: "l \<in> owns s c" "lk_cpu (locks (mach_of s) l) = None" using unlock by (auto simp: own_inv_def)
  have u: "k \<in> owns s d \<Longrightarrow> k \<in> owns s c \<Longrightarrow> d = c" for k d using inv by blast
  have e: "k \<in> ((owns s)(c := owns s c - {l})) d \<longleftrightarrow> k \<in> owns s d \<and> k \<noteq> l" for k d
  proof (cases "d = c")
    case False
    then have "l \<notin> owns s d" using u [of l d] l(1) by blast
    then show ?thesis using False by (metis fun_upd_other)
  qed simp
  have w: "pc s d = Got k \<or> pc s d = Rel k \<Longrightarrow> k \<in> owns s d" for d k using inv by blast
  have g: "d \<noteq> c \<Longrightarrow> pc s d \<noteq> Got l \<and> pc s d \<noteq> Rel l" for d using w [of d l] u [of l d] l(1) by blast
  show ?case
    unfolding own_inv_def
  proof (intro conjI allI impI)
    fix d k assume "pc (s\<lparr>mach_of := m, pc := (pc s)(c := Pop), owns := (owns s)(c := owns s c - {l})\<rparr>) d = Got k \<or>
      pc (s\<lparr>mach_of := m, pc := (pc s)(c := Pop), owns := (owns s)(c := owns s c - {l})\<rparr>) d = Rel k"
    then show "k \<in> owns (s\<lparr>mach_of := m, pc := (pc s)(c := Pop), owns := (owns s)(c := owns s c - {l})\<rparr>) d"
      using g [of d] w [of d k] by (auto simp: e simp del: fun_upd_apply) (auto split: if_splits)
  qed (use inv l in \<open>auto simp: e m simp del: fun_upd_apply, auto split: if_splits\<close>)
next
  case (pop s c m)
  then show ?case by (auto simp: own_inv_def lock_effects)
qed

lemma cli_inv_step: "lstep s t \<Longrightarrow> own_inv s \<Longrightarrow> cli_inv s0 s \<Longrightarrow> cli_inv s0 t"
proof (induction rule: lstep.induct)
  case (take s c l m)
  then have "l \<notin> owns s c" by (auto simp: own_inv_def xchg_Ret)
  then show ?case using take by (auto simp: cli_inv_def cli_ok_def lock_effects in_routine_def)
next
  case (unlock s c l old m)
  then have l: "l \<in> owns s c" by (auto simp: own_inv_def)
  have "finite (owns s c)" using unlock by (auto simp: cli_inv_def cli_ok_def)
  then have "int (card (owns s c)) = int (card (owns s c - {l})) + 1"
    using l card_Suc_Diff1 [of "owns s c" l] by linarith
  then show ?case using unlock by (auto simp: cli_inv_def cli_ok_def lock_effects in_routine_def)
qed (auto simp: cli_inv_def cli_ok_def lock_effects in_routine_def)

lemma reach_inv:
  assumes "fresh s0" "reach s0 s"
  shows "own_inv s \<and> cli_inv s0 s"
  using assms(2) by (induction) (auto simp: assms(1) own_inv_fresh cli_inv_fresh intro: own_inv_step cli_inv_step)

text \<open>
  C34. Mutual exclusion: starting with every lock free, however the processors interleave, no lock is ever taken
  by two processors; a processor that has taken a lock runs with its interrupts off; and one that has
  released all its locks and left the lock routines has its interrupt flag back as it was at the start. The
  \<open>popcli\<close> at the end of \<open>release\<close> never panics, and a lock whose word is zero is taken by nobody.
\<close>

theorem spinlock_mutex:
  assumes "fresh s0" "reach s0 s"
  shows "(\<forall>c d l. l \<in> owns s c \<and> l \<in> owns s d \<longrightarrow> c = d) \<and>
    (\<forall>c. owns s c \<noteq> {} \<longrightarrow> \<not> if_on (cpus (mach_of s) c)) \<and>
    (\<forall>c. owns s c = {} \<and> pc s c = Idle \<longrightarrow> if_on (cpus (mach_of s) c) = if_on (cpus (mach_of s0) c)) \<and>
    (\<forall>c. pc s c = Pop \<longrightarrow> (\<exists>m. popcli c (mach_of s) = Ret () m)) \<and>
    (\<forall>c l. locked (locks (mach_of s) l) = 0 \<longrightarrow> l \<notin> owns s c)"
proof -
  have o: "own_inv s" and k: "cli_inv s0 s" using reach_inv [OF assms] by simp_all
  have c: "cli_ok (if_on (cpus (mach_of s0) c)) (cpus (mach_of s) c) (owns s c) (pc s c)" for c
    using k by (simp add: cli_inv_def)
  have n: "0 \<le> in_routine p" for p by (simp add: in_routine_def split: lpc.splits)
  have pos: "0 < card (owns s c)" if "owns s c \<noteq> {}" for c
    using c [of c] that by (simp add: cli_ok_def card_gt_0_iff)
  show ?thesis
  proof (intro conjI allI impI)
    fix c assume "owns s c \<noteq> {}"
    from pos [OF this] show "\<not> if_on (cpus (mach_of s) c)" using c [of c] n [of "pc s c"] by (auto simp: cli_ok_def)
  next
    fix c assume "pc s c = Pop"
    then show "\<exists>m. popcli c (mach_of s) = Ret () m"
      using c [of c] by (auto simp: popcli_Ret cli_ok_def in_routine_def)
  qed (use o c in \<open>auto simp: own_inv_def cli_ok_def in_routine_def\<close>)
qed

definition lock_example :: conf where
  "lock_example = \<lparr>mach_of = \<lparr>cpus = (\<lambda>_. \<lparr>ncli = 0, intena = False, if_on = True\<rparr>),
       locks = (\<lambda>_. \<lparr>locked = 0, lk_name = ''ptable'', lk_cpu = None, lk_pcs = replicate 10 0\<rparr>)\<rparr>,
     pc = (\<lambda>_. Idle), owns = (\<lambda>_. {})\<rparr>"

theorem spinlock_mutex_witness:
  "\<exists>s. reach lock_example s \<and> 5 \<in> owns s 0 \<and> 5 \<notin> owns s 1 \<and> \<not> if_on (cpus (mach_of s) 0)"
proof -
  have f: "fresh lock_example" by (simp add: fresh_def lock_example_def)
  obtain m where m: "acquire_enter 0 5 (mach_of lock_example) = Ret () m" "locked (locks m 5) = 0"
    by (simp add: acquire_enter_Ret lock_example_def holding_def)
  let ?s = "lock_example\<lparr>mach_of := m, pc := (pc lock_example)(0 := Spin 5)\<rparr>"
  obtain m2 where m2: "xchg_locked 5 1 m = Ret 0 m2" using m(2) by (simp add: xchg_Ret)
  let ?t = "?s\<lparr>mach_of := m2, pc := (pc ?s)(0 := Got 5), owns := (owns ?s)(0 := insert 5 (owns ?s 0))\<rparr>"
  have "lstep lock_example ?s" by (rule lstep.enter [OF _ m(1)]) (simp add: lock_example_def)
  moreover have "lstep ?s ?t" by (rule lstep.take) (simp_all add: m2)
  ultimately have "reach lock_example ?t" by (meson reach.intros)
  moreover have "5 \<in> owns ?t 0" by simp
  ultimately obtain t where r: "reach lock_example t" "5 \<in> owns t 0" by blast
  note x = spinlock_mutex [OF f r(1)]
  have "5 \<notin> owns t 1" using conjunct1 [OF x] r(2) by (metis zero_neq_one)
  moreover have "\<not> if_on (cpus (mach_of t) 0)" using conjunct1 [OF conjunct2 [OF x]] r(2) by blast
  ultimately show ?thesis using r by blast
qed

end
