(* ===== verification/Console.thy ===== *)
theory Console
  imports Pipe Spinlock
begin

text \<open>
  The console, \<open>console.c\<close>: the screen (\<open>cgaputc\<close>), the line discipline of the input (\<open>consoleintr\<close>), the device
  routines \<open>consoleread\<close> and \<open>consolewrite\<close> and the device switch \<open>consoleinit\<close> sets up; \<open>procdump\<close> of
  \<open>proc.c\<close>, which the console calls. \<open>getc\<close> of \<open>consoleintr\<close> is given by the characters it returns before a negative
  number. When \<open>consoleread\<close> sleeps, the characters it has taken already are in the caller's buffer, which the
  outcome does not show.
\<close>

subsection \<open>The screen\<close>

definition BACKSPACE :: int where "BACKSPACE = 0x100"

text \<open>The memory of the adapter and the two halves of its cursor register.\<close>

record screen =
  crt :: "16 word list"
  cur_hi :: byte
  cur_lo :: byte

definition cursor :: "screen \<Rightarrow> int" where
  "cursor s = uint (cur_hi s) * 256 + uint (cur_lo s)"

definition put_cell :: "int \<Rightarrow> 16 word \<Rightarrow> (screen, unit) kern" where
  "put_cell pos c = kmod (\<lambda>s. s\<lparr>crt := (crt s)[nat pos := c]\<rparr>)"

text \<open>Scrolling up; \<open>pos\<close> is the cursor after it.\<close>

definition scroll :: "int \<Rightarrow> 16 word list \<Rightarrow> 16 word list" where
  "scroll pos m = splice_at (nat pos) (replicate (24 * 80 - nat pos) 0) (splice_at 0 (bslice 80 (23 * 80) m) m)"

definition cgaputc :: "int \<Rightarrow> (screen, unit) kern" where
  "cgaputc c =
     kbind (kget cursor) (\<lambda>pos.
     kbind
       (if c = 10 then kret (pos + (80 - pos mod 80))
        else if c = BACKSPACE then kret (if pos > 0 then pos - 1 else pos)
        else kbind (put_cell pos ((word_of_int c AND 0xff) OR 0x0700)) (\<lambda>_. kret (pos + 1))) (\<lambda>pos.
     if pos < 0 \<or> pos > 25 * 80 then kpanic ''pos under/overflow''
     else
       kbind
         (if pos div 80 \<ge> 24 then
            kbind (kmod (\<lambda>s. s\<lparr>crt := scroll (pos - 80) (crt s)\<rparr>)) (\<lambda>_. kret (pos - 80))
          else kret pos) (\<lambda>pos.
       kbind (kmod (\<lambda>s. s\<lparr>cur_hi := word_of_int (pos div 256), cur_lo := word_of_int pos\<rparr>)) (\<lambda>_.
       put_cell pos 0x0720))))"

fun cgaputs :: "int list \<Rightarrow> (screen, unit) kern" where
  "cgaputs [] = kret ()"
| "cgaputs (c # cs) = kbind (cgaputc c) (\<lambda>_. cgaputs cs)"

subsection \<open>Process listing\<close>

fun state_name :: "procstate \<Rightarrow> string" where
  "state_name UNUSED = ''unused''"
| "state_name EMBRYO = ''embryo''"
| "state_name SLEEPING = ''sleep ''"
| "state_name RUNNABLE = ''runble''"
| "state_name RUNNING = ''run   ''"
| "state_name ZOMBIE = ''zombie''"

fun print_pcs :: "32 word list \<Rightarrow> unit kk" where
  "print_pcs [] = kret ()"
| "print_pcs (a # as) = (if a = 0 then kret () else kbind (cprintf '' %p'' [pint a]) (\<lambda>_. print_pcs as))"

fun procdump_from :: "proc list \<Rightarrow> unit kk" where
  "procdump_from [] = kret ()"
| "procdump_from (p # ps) =
     (if p_state p = UNUSED then procdump_from ps
      else
        kbind (cprintf ''%d %s %s'' [pint (word_of_int (p_pid p)), pstr (str (state_name (p_state p))),
          pstr (takeWhile (\<lambda>c. c \<noteq> 0) (p_name p))]) (\<lambda>_.
        kbind
          (if p_state p = SLEEPING then
             kbind (kget word_at) (\<lambda>mem. print_pcs (getcallerpcs mem (ctx_ebp (p_context p) + 8)))
           else kret ()) (\<lambda>_.
        kbind (cprintf [CHR 0x0A] []) (\<lambda>_.
        procdump_from ps))))"

definition procdump :: "unit kk" where
  "procdump = kbind (kget ptable) procdump_from"

subsection \<open>Input\<close>

definition CTRL :: "int \<Rightarrow> int" where "CTRL x = x - 64"

text \<open>The loop of \<open>^U\<close>: the new edit index and what it prints.\<close>

function kill_edit :: "byte list \<Rightarrow> 32 word \<Rightarrow> 32 word \<Rightarrow> 32 word \<times> int list" where
  "kill_edit b w e =
     (if e \<noteq> w \<and> b ! (unat (e - 1) mod INPUT_BUF) \<noteq> 10
      then (case kill_edit b w (e - 1) of (e', out) \<Rightarrow> (e', BACKSPACE # out))
      else (e, []))"
  by pat_completeness auto
termination
proof (relation "measure (\<lambda>(b, w, e). unat (e - w))")
  fix b :: "byte list" and w e :: "32 word"
  assume "e \<noteq> w \<and> b ! (unat (e - 1) mod INPUT_BUF) \<noteq> 10"
  then have "e - w \<noteq> 0" by simp
  then have "unat (e - w - 1) < unat (e - w)" by (metis unat_minus_one unat_gt_0 diff_less zero_less_one)
  moreover have sw: "e - 1 - w = e - w - 1" by simp
  ultimately show "((b, w, e - 1), (b, w, e)) \<in> measure (\<lambda>(b, w, e). unat (e - w))"
    by (simp only: in_measure case_prod_conv sw)
qed simp

declare kill_edit.simps [simp del]

fun consputs :: "int list \<Rightarrow> ('a kbase_scheme, unit) kern" where
  "consputs [] = kret ()"
| "consputs (c # cs) = kbind (consputc c) (\<lambda>_. consputs cs)"

definition put_input :: "byte \<Rightarrow> input \<Rightarrow> input" where
  "put_input c i = i\<lparr>in_buf := (in_buf i)[unat (in_e i) mod INPUT_BUF := c], in_e := in_e i + 1\<rparr>"

definition get_input :: "input \<Rightarrow> byte \<times> input" where
  "get_input i = (in_buf i ! (unat (in_r i) mod INPUT_BUF), i\<lparr>in_r := in_r i + 1\<rparr>)"

definition set_input :: "input \<Rightarrow> unit kk" where
  "set_input i = kmod (\<lambda>s. s\<lparr>cons_in := i\<rparr>)"

text \<open>One character from the keyboard or the serial port; the result says whether it asked for a process listing.\<close>

definition consoleintr1 :: "int \<Rightarrow> bool kk" where
  "consoleintr1 c =
     kbind (kget cons_in) (\<lambda>i.
     if c = CTRL 0x50 then kret True
     else if c = CTRL 0x55 then
       (case kill_edit (in_buf i) (in_w i) (in_e i) of (e, out) \<Rightarrow>
          kbind (set_input (i\<lparr>in_e := e\<rparr>)) (\<lambda>_. kbind (consputs out) (\<lambda>_. kret False)))
     else if c = CTRL 0x48 \<or> c = 0x7f then
       (if in_e i \<noteq> in_w i then
          kbind (set_input (i\<lparr>in_e := in_e i - 1\<rparr>)) (\<lambda>_. kbind (consputc BACKSPACE) (\<lambda>_. kret False))
        else kret False)
     else if c \<noteq> 0 \<and> in_e i - in_r i < of_nat INPUT_BUF then
       (let c = (if c = 13 then 10 else c); i = put_input (word_of_int c) i in
          kbind (set_input i) (\<lambda>_.
          kbind (consputc c) (\<lambda>_.
          if c = 10 \<or> c = CTRL 0x44 \<or> in_e i = in_r i + of_nat INPUT_BUF then
            kbind (set_input (i\<lparr>in_w := in_e i\<rparr>)) (\<lambda>_. kbind (wakeup ChanInput) (\<lambda>_. kret False))
          else kret False)))
     else kret False)"

fun consoleintr_loop :: "int list \<Rightarrow> bool \<Rightarrow> bool kk" where
  "consoleintr_loop [] d = kret d"
| "consoleintr_loop (c # cs) d =
     (if c < 0 then kret d else kbind (consoleintr1 c) (\<lambda>d'. consoleintr_loop cs (d \<or> d')))"

definition consoleintr :: "int list \<Rightarrow> unit kk" where
  "consoleintr cs = kbind (consoleintr_loop cs False) (\<lambda>d. if d then procdump else kret ())"

text \<open>
  The loop of \<open>consoleread\<close>, which wants \<open>n\<close> more characters of \<open>target\<close>: whether it ended without the process
  having been killed, and the characters stored.
\<close>

fun consoleread_loop :: "nat \<Rightarrow> nat \<Rightarrow> (bool \<times> byte list) kk" where
  "consoleread_loop target 0 = kret (True, [])"
| "consoleread_loop target (Suc n) =
     kbind (kget cons_in) (\<lambda>i.
     if in_r i = in_w i then
       kbind curp (\<lambda>p. if p_killed p then kret (False, []) else ksleep ChanInput)
     else
       (case get_input i of (c, i') \<Rightarrow>
          kbind (set_input i') (\<lambda>_.
          if c = word_of_int (CTRL 0x44) then
            kbind (if Suc n < target then set_input (i'\<lparr>in_r := in_r i' - 1\<rparr>) else kret ()) (\<lambda>_. kret (True, []))
          else if c = 10 then kret (True, [c])
          else
            kbind (consoleread_loop target n) (\<lambda>(ok, bs). kret (ok, c # bs)))))"

definition consoleread :: "kernel_state dev_read" where
  "consoleread ip n =
     (let n = nat (sint (of_nat n :: 32 word)) in
      kbind (iunlock ip) (\<lambda>_.
      kbind (consoleread_loop n n) (\<lambda>(ok, bs).
      kbind (ilock ip) (\<lambda>_.
      kret (if ok then int (length bs) else -1, bs)))))"

definition consolewrite :: "kernel_state dev_write" where
  "consolewrite ip buf n =
     (let n = sint (of_nat n :: 32 word) in
      kbind (iunlock ip) (\<lambda>_.
      kbind (consputs (map uint (take (nat n) buf))) (\<lambda>_.
      kbind (ilock ip) (\<lambda>_.
      kret n))))"

definition CONSOLE :: nat where "CONSOLE = 1"

text \<open>The device switch as \<open>consoleinit\<close> leaves it.\<close>

definition kdevsw :: "kernel_state devsw" where
  "kdevsw = \<lparr>dev_read = (\<lambda>m. if m = CONSOLE then Some consoleread else None),
     dev_write = (\<lambda>m. if m = CONSOLE then Some consolewrite else None)\<rparr>"

subsection \<open>The cursor stays on the screen\<close>

definition screen_ok :: "screen \<Rightarrow> bool" where
  "screen_ok s \<longleftrightarrow> cursor s < 24 * 80 \<and> 25 * 80 \<le> length (crt s)"

text \<open>Where the cursor goes before any scrolling, and the character cell a printable character becomes.\<close>

definition next_pos :: "int \<Rightarrow> int \<Rightarrow> int" where
  "next_pos c pos = (if c = 10 then 80 * (pos div 80 + 1) else if c = BACKSPACE then max 0 (pos - 1) else pos + 1)"

definition cell :: "int \<Rightarrow> 16 word" where
  "cell c = (word_of_int c AND 0xff) OR 0x0700"

lemma cursor_nonneg: "0 \<le> cursor s"
  by (simp add: cursor_def)

lemma cursor_set:
  assumes "0 \<le> p" "p < 65536"
  shows "cursor (s\<lparr>cur_hi := word_of_int (p div 256), cur_lo := word_of_int p\<rparr>) = p"
proof -
  have "p div 256 mod 256 = p div 256" using assms by (intro mod_pos_pos_trivial) auto
  then show ?thesis using assms by (simp add: cursor_def uint_word_of_int)
qed

lemma nth_scroll:
  assumes "2000 \<le> length m" "i < 1920"
  shows "scroll 1840 m ! i = (if i < 1840 then m ! (i + 80) else 0)"
proof -
  have "length (bslice 80 (23 * 80) m) = 1840" using assms by simp
  then show ?thesis
    using assms by (simp add: scroll_def nth_splice_at bslice_def add.commute)
qed

lemma length_scroll [simp]: "2000 \<le> length m \<Longrightarrow> length (scroll 1840 m) = length m"
  by (simp add: scroll_def)

text \<open>The screen after \<open>c\<close> was stored and the cursor moved, but not yet scrolled.\<close>

definition stored :: "int \<Rightarrow> screen \<Rightarrow> 16 word list" where
  "stored c s = (if c = 10 \<or> c = BACKSPACE then crt s else (crt s)[nat (cursor s) := cell c])"

lemma length_stored [simp]: "length (stored c s) = length (crt s)"
  by (simp add: stored_def)

lemma next_pos_bound: "0 \<le> pos \<Longrightarrow> pos < 1920 \<Longrightarrow> 0 \<le> next_pos c pos \<and> next_pos c pos \<le> 1920"
  by (auto simp: next_pos_def)

lemma next_line: "pos + (80 - pos mod 80) = 80 * (pos div 80 + 1)" for pos :: int
  using div_mult_mod_eq [of pos 80] by (simp add: algebra_simps)

lemma cgaputc_run:
  fixes c :: int
  assumes "screen_ok s"
  defines "p \<equiv> next_pos c (cursor s)"
  shows "\<exists>t. cgaputc c s = Ret () t \<and> cursor t = (if p < 1920 then p else p - 80) \<and>
    crt t = (if p < 1920 then stored c s else scroll 1840 (stored c s))[nat (cursor t) := 0x0720]"
proof -
  have b: "0 \<le> cursor s" "cursor s < 1920" using assms by (simp_all add: screen_ok_def cursor_nonneg)
  have p: "0 \<le> p" "p \<le> 1920" using next_pos_bound [OF b] by (simp_all add: p_def)
  let ?s = "s\<lparr>crt := stored c s\<rparr>"
  have st: "s\<lparr>crt := crt s\<rparr> = s" by simp
  have "cgaputc c s = (if p div 80 \<ge> 24 then
      put_cell (p - 80) 0x0720 (?s\<lparr>crt := scroll (p - 80) (stored c s), cur_hi := word_of_int ((p - 80) div 256), cur_lo := word_of_int (p - 80)\<rparr>)
      else put_cell p 0x0720 (?s\<lparr>cur_hi := word_of_int (p div 256), cur_lo := word_of_int p\<rparr>))"
    using p b by (auto simp: cgaputc_def put_cell_def kstep kbind_assoc p_def next_pos_def stored_def next_line cell_def max_def st)
  moreover have "p div 80 \<ge> 24 \<longleftrightarrow> p = 1920" using p by auto
  ultimately show ?thesis
    using p cursor_set [of p ?s] cursor_set [of 1840 "?s\<lparr>crt := scroll 1840 (stored c s)\<rparr>"]
    by (auto simp: put_cell_def cursor_def)
qed

text \<open>
  C30. The screen: from any cursor position above the last line, printing a character returns without the panic about
  the position. The cursor moves to the next cell, to the next line or back; when it would leave line 23 every line moves up by
  one and the last line is cleared. Every other cell keeps its character, and the invariant holds again, so no sequence of
  characters can make \<open>cgaputc\<close> panic.
\<close>

theorem cgaputc_spec:
  assumes "screen_ok s"
  shows "kok (cgaputc c) s (\<lambda>_ t. screen_ok t \<and>
      (let p = next_pos c (cursor s); up = (if p < 1920 then 0 else 80) in
         cursor t = p - int up \<and> crt t ! nat (cursor t) = 0x0720 \<and>
         (\<forall>i<1920. int i \<noteq> cursor t \<longrightarrow>
            crt t ! i = (if 1920 \<le> i + up then 0
                         else if int (i + up) = cursor s \<and> c \<noteq> 10 \<and> c \<noteq> BACKSPACE then cell c
                         else crt s ! (i + up))))) \<and>
    kok (cgaputs cs) s (\<lambda>_ t. screen_ok t)"
proof
  have run: "kok (cgaputc c) s (\<lambda>_ t. screen_ok t)" if "screen_ok s" for c s
    using cgaputc_run [OF that, of c] next_pos_bound [of "cursor s" c] that cursor_nonneg [of s]
    by (auto simp: kok_def screen_ok_def)
  show "kok (cgaputs cs) s (\<lambda>_ t. screen_ok t)"
    using assms
  proof (induction cs arbitrary: s)
    case (Cons c cs)
    then show ?case using run [OF Cons.prems, of c] by (auto simp: kok_bind elim!: kok_mono)
  qed (simp add: kok_ret)
  have l: "2000 \<le> length (crt s)" and b: "0 \<le> cursor s" "cursor s < 1920"
    using assms by (simp_all add: screen_ok_def cursor_nonneg)
  obtain t where t: "cgaputc c s = Ret () t" "cursor t = (if next_pos c (cursor s) < 1920 then next_pos c (cursor s) else next_pos c (cursor s) - 80)"
    "crt t = (if next_pos c (cursor s) < 1920 then stored c s else scroll 1840 (stored c s))[nat (cursor t) := 0x0720]"
    using cgaputc_run [OF assms] by blast
  have tb: "cursor t < 1920" using t(2) next_pos_bound [OF b, of c] by auto
  have "screen_ok t" using run [OF assms, of c] t(1) by (simp add: kok_def)
  moreover have "stored c s ! j = (if int j = cursor s \<and> c \<noteq> 10 \<and> c \<noteq> BACKSPACE then cell c else crt s ! j)" if "j < 1920" for j
    using that l b by (auto simp: stored_def nth_list_update)
  moreover have "next_pos c (cursor s) < 1920 \<or> next_pos c (cursor s) = 1920" using next_pos_bound [OF b, of c] by auto
  moreover have "0 \<le> next_pos c (cursor s)" using next_pos_bound [OF b, of c] by simp
  ultimately show "kok (cgaputc c) s (\<lambda>_ t. screen_ok t \<and>
      (let p = next_pos c (cursor s); up = (if p < 1920 then 0 else 80) in
         cursor t = p - int up \<and> crt t ! nat (cursor t) = 0x0720 \<and>
         (\<forall>i<1920. int i \<noteq> cursor t \<longrightarrow>
            crt t ! i = (if 1920 \<le> i + up then 0
                         else if int (i + up) = cursor s \<and> c \<noteq> 10 \<and> c \<noteq> BACKSPACE then cell c
                         else crt s ! (i + up)))))"
    using t l tb by (auto simp: kok_def Let_def nth_scroll nth_list_update)
qed

definition blank_screen :: screen where
  "blank_screen = \<lparr>crt = replicate 2000 0, cur_hi = 7, cur_lo = 127\<rparr>"

theorem cgaputc_spec_witness:
  "kok (cgaputc 65) blank_screen (\<lambda>_ t. cursor t = 1840 \<and> crt t ! 1839 = 0x0741 \<and> crt t ! 1840 = 0x0720) \<and>
   kok (cgaputs [65, 10, 0x100]) blank_screen (\<lambda>_ t. screen_ok t)"
proof -
  have s: "screen_ok blank_screen" "cursor blank_screen = 1919" "next_pos 65 1919 = 1920" "cell 65 = 0x0741"
    by (simp_all add: screen_ok_def blank_screen_def cursor_def next_pos_def cell_def BACKSPACE_def)
  from cgaputc_spec [OF s(1), of 65 "[65, 10, 0x100]"] show ?thesis
    by (auto simp: s(2-4) BACKSPACE_def elim!: kok_mono)
qed

subsection \<open>The line discipline\<close>

text \<open>
  The input buffer as the lines a reader may take and the line being edited. The edited line holds no newline and no
  end-of-file mark, as either commits it.
\<close>

definition input_ring :: "input \<Rightarrow> bool" where
  "input_ring i \<longleftrightarrow> ring_ok INPUT_BUF (in_buf i) (in_r i) (in_e i)"

definition input_all :: "input \<Rightarrow> byte list" where
  "input_all i = ring (in_buf i) (in_r i) (in_e i)"

definition committed :: "input \<Rightarrow> byte list" where
  "committed i = ring (in_buf i) (in_r i) (in_w i)"

definition editing :: "input \<Rightarrow> byte list" where
  "editing i = ring (in_buf i) (in_w i) (in_e i)"

definition input_inv :: "input \<Rightarrow> bool" where
  "input_inv i \<longleftrightarrow> input_ring i \<and> unat (in_w i - in_r i) \<le> unat (in_e i - in_r i) \<and> 10 \<notin> set (editing i)"

interpretation iq: byte_queue input_ring input_all INPUT_BUF put_input get_input
proof
  fix q :: input and x :: byte
  show "input_ring q \<Longrightarrow> length (input_all q) < INPUT_BUF \<Longrightarrow>
      input_ring (put_input x q) \<and> input_all (put_input x q) = input_all q @ [x]"
    using ring_put [of INPUT_BUF "in_buf q" "in_r q" "in_e q" x]
    by (simp add: input_ring_def input_all_def put_input_def INPUT_BUF_def)
  show "input_ring q \<Longrightarrow> input_all q \<noteq> [] \<Longrightarrow>
      input_ring (snd (get_input q)) \<and> input_all q = fst (get_input q) # input_all (snd (get_input q))"
    using ring_get [of INPUT_BUF "in_buf q" "in_r q" "in_e q"] ring_empty_iff [of "in_buf q" "in_r q" "in_e q"]
    by (simp add: input_ring_def input_all_def get_input_def)
qed

lemma input_split: "unat (in_w i - in_r i) \<le> unat (in_e i - in_r i) \<Longrightarrow> input_all i = committed i @ editing i"
  by (simp add: input_all_def committed_def editing_def ring_split)

text \<open>The reference: what one character does to the two parts of the buffer.\<close>

definition line_step :: "int \<Rightarrow> byte list \<times> byte list \<Rightarrow> byte list \<times> byte list" where
  "line_step c = (\<lambda>(d, ed).
     if c = CTRL 0x50 then (d, ed)
     else if c = CTRL 0x55 then (d, [])
     else if c = CTRL 0x48 \<or> c = 0x7f then (d, butlast ed)
     else if c \<noteq> 0 \<and> length d + length ed < INPUT_BUF then
       (let x = (if c = 13 then 10 else c) in
        if x = 10 \<or> x = CTRL 0x44 \<or> length d + length ed + 1 = INPUT_BUF
        then (d @ ed @ [word_of_int x], []) else (d, ed @ [word_of_int x]))
     else (d, ed))"

lemma kill_edit_line:
  "length b = INPUT_BUF \<Longrightarrow> 10 \<notin> set (ring b w e) \<Longrightarrow> kill_edit b w e = (w, replicate (unat (e - w)) BACKSPACE)"
proof (induction b w e rule: kill_edit.induct)
  case (1 b w e)
  show ?case
  proof (cases "e = w")
    case True
    then show ?thesis by (simp add: kill_edit.simps)
  next
    case False
    note u = ring_unput(1,2) [OF False, of b] ring_unput(3) [OF False]
    have "ring b w e \<noteq> []" using False by (simp add: ring_empty_iff)
    then have n: "b ! (unat (e - 1) mod INPUT_BUF) \<noteq> 10" using u(2) 1(2,3) by (metis last_in_set)
    have "10 \<notin> set (ring b w (e - 1))" using 1(3) u(1) by (metis in_set_butlastD)
    then have "kill_edit b w (e - 1) = (w, replicate (unat (e - 1 - w)) BACKSPACE)"
      using "1.IH" False n 1(2) by blast
    then show ?thesis using False n u(3) by (subst kill_edit.simps) (simp flip: u(3))
  qed
qed

lemma consputs_run: "consputs cs s = Ret () (s\<lparr>cons_out := cons_out s @ cs\<rparr>)"
  by (induction cs arbitrary: s) (simp_all add: kret_apply consputc_def kstep)

lemma put_lines:
  fixes x :: byte
  assumes "input_ring i" "unat (in_w i - in_r i) \<le> unat (in_e i - in_r i)" "length (input_all i) < INPUT_BUF"
  defines "i' \<equiv> put_input x i"
  shows "input_ring i'" "unat (in_w i' - in_r i') \<le> unat (in_e i' - in_r i')"
    "committed i' = committed i" "editing i' = editing i @ [x]"
proof -
  note p = iq.put_law [OF assms(1,3), of x, folded i'_def]
  have f: "in_w i' = in_w i" "in_r i' = in_r i" by (simp_all add: i'_def put_input_def)
  have "length (input_all i') = Suc (length (input_all i))" using p by simp
  then show le: "unat (in_w i' - in_r i') \<le> unat (in_e i' - in_r i')"
    using assms(2) f by (simp add: input_all_def)
  show "input_ring i'" using p by simp
  have "committed i' @ editing i' = committed i @ (editing i @ [x])"
    using p input_split [OF le] input_split [OF assms(2)] by simp
  moreover have "length (committed i') = length (committed i)" using f by (simp add: committed_def)
  ultimately show "committed i' = committed i" "editing i' = editing i @ [x]" by simp_all
qed

lemma commit_lines:
  assumes "unat (in_w i - in_r i) \<le> unat (in_e i - in_r i)"
  shows "committed (i\<lparr>in_w := in_e i\<rparr>) = committed i @ editing i" "editing (i\<lparr>in_w := in_e i\<rparr>) = []"
  using input_split [OF assms] by (simp_all add: committed_def editing_def input_all_def ring_def)

lemma erase_lines:
  assumes "unat (in_w i - in_r i) \<le> unat (in_e i - in_r i)" "in_e i \<noteq> in_w i" "input_ring i"
  defines "i' \<equiv> i\<lparr>in_e := in_e i - 1\<rparr>"
  shows "input_ring i'" "unat (in_w i' - in_r i') \<le> unat (in_e i' - in_r i')"
    "committed i' = committed i" "editing i' = butlast (editing i)"
proof -
  have w: "unat (in_w i - in_r i) \<noteq> unat (in_e i - in_r i)" using assms(2) by (simp add: word_unat_eq_iff [symmetric])
  then have "unat (in_e i - in_r i) \<noteq> 0" using assms(1) by linarith
  then have "in_e i \<noteq> in_r i" by auto
  from ring_unput(3) [OF this] w assms(1,3) show "input_ring i'" "unat (in_w i' - in_r i') \<le> unat (in_e i' - in_r i')"
    by (simp_all add: i'_def input_ring_def ring_ok_def)
  show "committed i' = committed i" "editing i' = butlast (editing i)"
    using ring_unput(1) [OF assms(2), of "in_buf i"] by (simp_all add: i'_def committed_def editing_def)
qed

lemma input_room: "in_e i - in_r i < of_nat INPUT_BUF \<longleftrightarrow> length (input_all i) < INPUT_BUF"
  "in_e i = in_r i + of_nat INPUT_BUF \<longleftrightarrow> length (input_all i) = INPUT_BUF"
proof -
  show "in_e i - in_r i < of_nat INPUT_BUF \<longleftrightarrow> length (input_all i) < INPUT_BUF"
    by (simp add: word_less_nat_alt input_all_def INPUT_BUF_def)
  have "in_e i = in_r i + of_nat INPUT_BUF \<longleftrightarrow> in_e i - in_r i = of_nat INPUT_BUF" by (simp add: diff_eq_eq add.commute)
  also have "\<dots> \<longleftrightarrow> length (input_all i) = INPUT_BUF"
    by (simp add: word_unat_eq_iff input_all_def INPUT_BUF_def)
  finally show "in_e i = in_r i + of_nat INPUT_BUF \<longleftrightarrow> length (input_all i) = INPUT_BUF" .
qed

text \<open>The buffer after one character, as a function of the buffer before it.\<close>

definition input_step :: "int \<Rightarrow> input \<Rightarrow> input" where
  "input_step c i =
     (if c = CTRL 0x50 then i
      else if c = CTRL 0x55 then i\<lparr>in_e := fst (kill_edit (in_buf i) (in_w i) (in_e i))\<rparr>
      else if c = CTRL 0x48 \<or> c = 0x7f then (if in_e i \<noteq> in_w i then i\<lparr>in_e := in_e i - 1\<rparr> else i)
      else if c \<noteq> 0 \<and> in_e i - in_r i < of_nat INPUT_BUF then
        (let c = (if c = 13 then 10 else c); i = put_input (word_of_int c) i in
         if c = 10 \<or> c = CTRL 0x44 \<or> in_e i = in_r i + of_nat INPUT_BUF then i\<lparr>in_w := in_e i\<rparr> else i)
      else i)"

lemma consoleintr1_run: "\<exists>t. consoleintr1 c s = Ret (c = CTRL 0x50) t \<and> cons_in t = input_step c (cons_in s)"
  by (simp add: consoleintr1_def input_step_def kstep kret_apply set_input_def consputc_def kbind_def [of "consputs _"]
      consputs_run Let_def split_beta CTRL_def)

lemma stored_byte: "0 \<le> c \<Longrightarrow> c < 256 \<Longrightarrow> (word_of_int c :: byte) = 10 \<longleftrightarrow> c = 10"
  by (simp add: word_uint_eq_iff uint_word_of_int)

lemma input_step_lines:
  assumes "input_inv i" "0 \<le> c" "c < 256"
  shows "input_inv (input_step c i) \<and>
    (committed (input_step c i), editing (input_step c i)) = line_step c (committed i, editing i)"
proof -
  have i: "input_ring i" "unat (in_w i - in_r i) \<le> unat (in_e i - in_r i)" "10 \<notin> set (editing i)"
    using assms(1) by (simp_all add: input_inv_def)
  have ln: "length (committed i) + length (editing i) = length (input_all i)" using input_split [OF i(2)] by simp
  have lb: "length (in_buf i) = INPUT_BUF" using i(1) by (simp add: input_ring_def ring_ok_def)
  consider (dump) "c = CTRL 0x50" | (kill) "c = CTRL 0x55" | (erase) "c = CTRL 0x48 \<or> c = 0x7f"
    | (put) "c \<noteq> CTRL 0x50" "c \<noteq> CTRL 0x55" "c \<noteq> CTRL 0x48" "c \<noteq> 0x7f" by blast
  then show ?thesis
  proof cases
    case dump
    then show ?thesis using assms(1) by (simp add: input_step_def line_step_def)
  next
    case kill
    have "fst (kill_edit (in_buf i) (in_w i) (in_e i)) = in_w i"
      using kill_edit_line [OF lb] i(3) by (simp add: editing_def)
    then show ?thesis using kill i
      by (auto simp: input_step_def line_step_def CTRL_def input_inv_def input_ring_def ring_ok_def committed_def editing_def ring_def)
  next
    case erase
    show ?thesis
    proof (cases "in_e i = in_w i")
      case True
      then have "editing i = []" by (simp add: editing_def ring_empty_iff)
      then show ?thesis using erase True assms(1) by (auto simp: input_step_def line_step_def CTRL_def)
    next
      case False
      from erase_lines [OF i(2) False i(1)] show ?thesis
        using erase False i(3) by (auto simp: input_step_def line_step_def CTRL_def input_inv_def dest: in_set_butlastD)
    qed
  next
    case put
    show ?thesis
    proof (cases "c \<noteq> 0 \<and> length (input_all i) < INPUT_BUF")
      case False
      then show ?thesis using put assms(1) ln input_room(1) [of i] by (auto simp: input_step_def line_step_def)
    next
      case True
      let ?c = "if c = 13 then 10 else c"
      let ?i = "put_input (word_of_int ?c) i"
      have l: "length (input_all i) < INPUT_BUF" using True by simp
      note p = put_lines [OF i(1,2) l, of "word_of_int ?c"]
      have full: "in_e ?i = in_r ?i + of_nat INPUT_BUF \<longleftrightarrow> length (committed i) + length (editing i) + 1 = INPUT_BUF"
        using input_room(2) [of ?i] iq.put_law [OF i(1) l, of "word_of_int ?c"] ln by simp
      note cm = commit_lines [OF p(2)]
      have "input_inv (?i\<lparr>in_w := in_e ?i\<rparr>)"
        using p(1) cm(2) by (simp add: input_inv_def input_ring_def)
      moreover have "?c \<noteq> 10 \<Longrightarrow> input_inv ?i"
        using p i(3) stored_byte [of ?c] assms(2,3) by (auto simp: input_inv_def)
      ultimately show ?thesis
        using put True ln input_room(1) [of i] full cm p(3,4) by (simp add: input_step_def line_step_def Let_def)
    qed
  qed
qed

text \<open>The listing only prints.\<close>

definition prints :: "unit kk \<Rightarrow> bool" where
  "prints m \<longleftrightarrow> (\<forall>s. \<exists>out. m s = Ret () (s\<lparr>cons_out := out\<rparr>))"

lemma prints_ret: "prints (kret ())"
proof -
  have "kret () s = Ret () (s\<lparr>cons_out := cons_out s\<rparr>)" for s :: kernel_state by (simp add: kret_apply)
  then show ?thesis unfolding prints_def by blast
qed

lemma prints_bind:
  assumes "prints m" "prints k"
  shows "prints (kbind m (\<lambda>_. k))"
  unfolding prints_def
proof
  fix s
  obtain o1 where o1: "m s = Ret () (s\<lparr>cons_out := o1\<rparr>)" using assms(1) by (auto simp: prints_def)
  obtain o2 where "k (s\<lparr>cons_out := o1\<rparr>) = Ret () (s\<lparr>cons_out := o1, cons_out := o2\<rparr>)"
    using assms(2) unfolding prints_def by blast
  then show "\<exists>out. kbind m (\<lambda>_. k) s = Ret () (s\<lparr>cons_out := out\<rparr>)" by (auto simp: kbind_def o1)
qed

lemma prints_cprintf: "cprintf_str fmt args \<noteq> None \<Longrightarrow> prints (cprintf fmt args)"
  by (auto simp: cprintf_def prints_def)

lemma prints_get: "(\<And>x. prints (m x)) \<Longrightarrow> prints (kbind (kget f) m)"
  by (auto simp: prints_def kstep)

lemma prints_pcs: "prints (print_pcs as)"
proof (induction as)
  case (Cons a as)
  have "cprintf_str '' %p'' [pint a] \<noteq> None" by (simp add: cprintf_str_def str_def pint_def percent_def)
  then show ?case using Cons by (simp add: prints_bind prints_cprintf prints_ret)
qed (simp add: prints_ret)

lemma prints_procdump: "prints (procdump_from ps)"
proof (induction ps)
  case (Cons p ps)
  have f: "cprintf_str ''%d %s %s'' [pint n, pstr a, pstr b] \<noteq> None" "cprintf_str [CHR 0x0A] [] \<noteq> None" for n a b
    by (simp_all add: cprintf_str_def str_def pint_def pstr_def percent_def)
  show ?case
    using Cons by (auto intro!: prints_bind prints_cprintf prints_get prints_pcs prints_ret f)
qed (simp add: prints_ret)

lemma consoleintr_loop_lines:
  "input_inv (cons_in s) \<Longrightarrow> \<forall>c\<in>set cs. 0 \<le> c \<and> c < 256 \<Longrightarrow>
    \<exists>d' t. consoleintr_loop cs d s = Ret d' t \<and> input_inv (cons_in t) \<and>
      (committed (cons_in t), editing (cons_in t)) = fold line_step cs (committed (cons_in s), editing (cons_in s))"
proof (induction cs arbitrary: s d)
  case Nil
  then show ?case by (simp add: kret_apply)
next
  case (Cons c cs)
  obtain t where t: "consoleintr1 c s = Ret (c = CTRL 0x50) t" "cons_in t = input_step c (cons_in s)"
    using consoleintr1_run by blast
  have "input_inv (cons_in t)" "(committed (cons_in t), editing (cons_in t)) = line_step c (committed (cons_in s), editing (cons_in s))"
    using input_step_lines [of "cons_in s" c] Cons.prems t(2) by simp_all
  then show ?case
    using Cons.IH [of t "d \<or> c = CTRL 0x50"] Cons.prems(2) by (auto simp: kbind_Ret_step [of _ _ _ t] t(1))
qed

text \<open>
  C28. The line discipline: for any characters from the keyboard or the serial port, \<open>consoleintr\<close> returns, and the lines
  ready for reading and the line being edited are those of the reference: a character extends the edited line while there is room in
  the buffer of 128, a newline, an end-of-file mark or the last free place hands the line to the readers, backspace takes
  back the last character of the edited line only, and \<open>^U\<close> all of it. The indices may wrap around \<open>2 ^ 32\<close> meanwhile.
\<close>

theorem consoleintr_spec:
  assumes "input_inv (cons_in s)" "\<forall>c\<in>set cs. 0 \<le> c \<and> c < 256"
  shows "kok (consoleintr cs) s (\<lambda>_ t. input_inv (cons_in t) \<and>
    (committed (cons_in t), editing (cons_in t)) = fold line_step cs (committed (cons_in s), editing (cons_in s)))"
proof -
  obtain d t where t: "consoleintr_loop cs False s = Ret d t" "input_inv (cons_in t)"
      "(committed (cons_in t), editing (cons_in t)) = fold line_step cs (committed (cons_in s), editing (cons_in s))"
    using consoleintr_loop_lines [OF assms] by blast
  obtain out where "procdump t = Ret () (t\<lparr>cons_out := out\<rparr>)"
    using prints_procdump unfolding procdump_def prints_def by (auto simp: kstep)
  then show ?thesis using t by (simp add: consoleintr_def kok_def kbind_def kret_apply)
qed

theorem consoleintr_spec_witness:
  "kok (consoleintr [104, 120, 8, 105, 13, 111]) kernel_example
     (\<lambda>_ t. input_inv (cons_in t) \<and> committed (cons_in t) = [104, 105, 10] \<and> editing (cons_in t) = [111])"
proof -
  have i: "cons_in kernel_example = \<lparr>in_buf = replicate INPUT_BUF 0, in_r = 0, in_w = 0, in_e = 0\<rparr>"
    by (simp add: kernel_example_def fs_state.defs)
  have e: "committed (cons_in kernel_example) = []" "editing (cons_in kernel_example) = []"
    by (simp_all add: i committed_def editing_def ring_def)
  have "input_inv (cons_in kernel_example)"
    by (simp add: input_inv_def e) (simp add: i input_ring_def ring_ok_def)
  from consoleintr_spec [OF this, of "[104, 120, 8, 105, 13, 111]"] show ?thesis
    by (simp add: e line_step_def CTRL_def INPUT_BUF_def)
qed

subsection \<open>Reading lines\<close>

text \<open>
  What a read of up to \<open>n\<close> characters takes from the lines \<open>d\<close>: through the first newline, or up to the first end-of-file
  mark, but no more than \<open>n\<close>. The mark is consumed only when it comes first.
\<close>

definition plain :: "byte list \<Rightarrow> nat" where
  "plain d = length (takeWhile (\<lambda>c. c \<noteq> 10 \<and> c \<noteq> 4) d)"

definition read_len :: "nat \<Rightarrow> byte list \<Rightarrow> nat" where
  "read_len n d = (let k = plain d in if n \<le> k then n else if d ! k = 10 then Suc k else k)"

definition read_ready :: "nat \<Rightarrow> byte list \<Rightarrow> bool" where
  "read_ready n d \<longleftrightarrow> n \<le> plain d \<or> plain d < length d"

definition read_used :: "nat \<Rightarrow> byte list \<Rightarrow> nat" where
  "read_used n d = (if 0 < n \<and> d \<noteq> [] \<and> d ! 0 = 4 then 1 else read_len n d)"

lemma plain_Cons: "plain (c # d) = (if c = 10 \<or> c = 4 then 0 else Suc (plain d))"
  by (simp add: plain_def)

lemma plain_le: "plain d \<le> length d"
  by (simp add: plain_def length_takeWhile_le)

lemma plain_mark: "d \<noteq> [] \<Longrightarrow> d ! 0 = 4 \<Longrightarrow> plain d = 0"
  by (cases d) (simp_all add: plain_Cons)

lemma unat_step: "r \<noteq> w \<Longrightarrow> unat (w - r) = Suc (unat (w - (r + 1)))" for r w :: "32 word"
proof -
  assume "r \<noteq> w"
  then have nz: "w - r \<noteq> 0" by simp
  have e: "w - (r + 1) = (w - r) - 1" by (simp add: algebra_simps)
  have "unat (w - r) \<noteq> 0" using nz by (simp add: unat_eq_zero)
  then show ?thesis unfolding e unat_minus_one [OF nz] by simp
qed

lemma get_lines:
  assumes "input_inv i" "in_r i \<noteq> in_w i"
  shows "input_inv (snd (get_input i))" "committed i = fst (get_input i) # committed (snd (get_input i))"
    "editing (snd (get_input i)) = editing i"
proof -
  let ?i = "snd (get_input i)"
  have i: "input_ring i" "unat (in_w i - in_r i) \<le> unat (in_e i - in_r i)" "10 \<notin> set (editing i)"
    using assms(1) by (simp_all add: input_inv_def)
  have c: "unat (in_w i - in_r i) = Suc (unat (in_w i - (in_r i + 1)))" by (rule unat_step [OF assms(2)])
  have ok: "ring_ok INPUT_BUF (in_buf i) (in_r i) (in_w i)" using i by (simp add: input_ring_def ring_ok_def)
  show "committed i = fst (get_input i) # committed ?i"
    using ring_get(1) [OF ok assms(2)] by (simp add: committed_def get_input_def)
  show e: "editing ?i = editing i" by (simp add: editing_def get_input_def)
  have "in_r i \<noteq> in_e i" using i(2) c by auto
  from ring_get [OF _ this] i(1) have "input_ring ?i" by (simp add: input_ring_def get_input_def)
  moreover have "unat (in_e i - in_r i) = Suc (unat (in_e i - (in_r i + 1)))" by (rule unat_step) fact
  ultimately show "input_inv ?i" using i(2,3) c e by (simp add: input_inv_def) (simp add: get_input_def)
qed

lemma consoleread_loop_run:
  assumes "input_inv (cons_in s)" "n \<le> target" "read_ready n (committed (cons_in s))"
  defines "d \<equiv> committed (cons_in s)"
  shows "\<exists>j. consoleread_loop target n s = Ret (True, take (read_len n d) d) (s\<lparr>cons_in := j\<rparr>) \<and> input_inv j \<and>
    committed j = drop (if 0 < n \<and> plain d < n \<and> d ! plain d = 4 \<and> plain d = 0 \<and> n = target then 1 else read_len n d) d"
  using assms(1-3) unfolding d_def
proof (induction n arbitrary: s)
  case 0
  then show ?case by (intro exI [of _ "cons_in s"]) (simp add: kret_apply read_len_def)
next
  case (Suc n)
  let ?i = "cons_in s"
  let ?d = "committed ?i"
  have ne: "?d \<noteq> []" using Suc.prems(3) plain_le [of ?d] by (auto simp: read_ready_def plain_def)
  then have rw: "in_r ?i \<noteq> in_w ?i" by (simp add: committed_def ring_empty_iff)
  obtain c i' where g: "get_input ?i = (c, i')" by (cases "get_input ?i")
  have l: "input_inv i'" "?d = c # committed i'" using get_lines [OF Suc.prems(1) rw] g by simp_all
  have unget: "i'\<lparr>in_r := in_r i' - 1\<rparr> = ?i"
  proof -
    have "i' = ?i\<lparr>in_r := in_r ?i + 1\<rparr>" using arg_cong [OF g, of snd] by (simp add: get_input_def)
    then show ?thesis by simp
  qed
  have run: "consoleread_loop target (Suc n) s =
      (if c = 4 then Ret (True, []) (s\<lparr>cons_in := if Suc n < target then ?i else i'\<rparr>)
       else if c = 10 then Ret (True, [c]) (s\<lparr>cons_in := i'\<rparr>)
       else kbind (consoleread_loop target n) (\<lambda>(ok, bs). kret (ok, c # bs)) (s\<lparr>cons_in := i'\<rparr>))"
    using rw g unget by (simp add: kstep set_input_def kret_apply CTRL_def)
  consider "c = 4" | "c = 10" | (other) "c \<noteq> 4" "c \<noteq> 10" by blast
  then show ?case
  proof cases
    assume c: "c = 4"
    have p: "plain ?d = 0" "read_len (Suc n) ?d = 0" by (simp_all add: l(2) c plain_Cons read_len_def)
    show ?thesis
    proof (cases "Suc n = target")
      case True
      then show ?thesis using p l c unfolding run by (intro exI [of _ i']) simp
    next
      case False
      then show ?thesis using p l(2) c Suc.prems(1,2) unfolding run by (intro exI [of _ ?i]) simp
    qed
  next
    assume c: "c = 10"
    have p: "plain ?d = 0" "read_len (Suc n) ?d = 1" by (simp_all add: l(2) c plain_Cons read_len_def)
    then show ?thesis using l c unfolding run by (intro exI [of _ i']) simp
  next
    case other
    have "read_ready n (committed i')" using Suc.prems(3) other by (simp add: l(2) read_ready_def plain_Cons)
    from Suc.IH [of "s\<lparr>cons_in := i'\<rparr>"] this l(1) Suc.prems(2) obtain j
      where j: "consoleread_loop target n (s\<lparr>cons_in := i'\<rparr>) = Ret (True, take (read_len n (committed i')) (committed i')) (s\<lparr>cons_in := j\<rparr>)"
        "input_inv j" "committed j = drop (read_len n (committed i')) (committed i')"
      by auto
    have p: "plain ?d = Suc (plain (committed i'))" "read_len (Suc n) ?d = Suc (read_len n (committed i'))"
      using other by (simp_all add: l(2) plain_Cons read_len_def Let_def)
    show ?thesis unfolding run p using j other
      by (intro exI [of _ j]) (simp add: l(2) kret_apply kbind_def [of "consoleread_loop _ _"])
  qed
qed

text \<open>With no line ready the reader takes what there is and waits for more, unless it has been killed.\<close>

lemma consoleread_loop_wait:
  assumes "input_inv (cons_in s)" "\<not> read_ready n (committed (cons_in s))" "curproc s = Some p"
  shows "\<exists>j. input_inv j \<and> committed j = [] \<and>
    consoleread_loop target n s =
      (if p_killed (ptable s ! p) then Ret (False, committed (cons_in s)) (s\<lparr>cons_in := j\<rparr>)
       else Block ChanInput (s\<lparr>cons_in := j\<rparr>))"
  using assms
proof (induction n arbitrary: s)
  case 0
  then show ?case by (simp add: read_ready_def)
next
  case (Suc n)
  let ?i = "cons_in s"
  let ?d = "committed ?i"
  show ?case
  proof (cases "in_r ?i = in_w ?i")
    case True
    then have "?d = []" by (simp add: committed_def ring_empty_iff)
    then show ?thesis using True Suc.prems(1,3) by (intro exI [of _ ?i]) (simp add: kstep kret_apply)
  next
    case False
    obtain c i' where g: "get_input ?i = (c, i')" by (cases "get_input ?i")
    have l: "input_inv i'" "?d = c # committed i'" using get_lines [OF Suc.prems(1) False] g by simp_all
    have c: "c \<noteq> 4" "c \<noteq> 10" "\<not> read_ready n (committed i')"
      using Suc.prems(2) by (auto simp: l(2) read_ready_def plain_Cons split: if_splits)
    from Suc.IH [of "s\<lparr>cons_in := i'\<rparr>"] l(1) c(3) Suc.prems(3) obtain j where
      j: "input_inv j" "committed j = []" "consoleread_loop target n (s\<lparr>cons_in := i'\<rparr>) =
        (if p_killed (ptable s ! p) then Ret (False, committed i') (s\<lparr>cons_in := j\<rparr>) else Block ChanInput (s\<lparr>cons_in := j\<rparr>))"
      by auto
    then show ?thesis using False g c(1,2)
      by (intro exI [of _ j]) (simp add: l(2) kstep set_input_def kret_apply CTRL_def kbind_def [of "consoleread_loop _ _"])
  qed
qed

text \<open>Unlocking a valid inode and locking it again.\<close>

lemma relock:
  assumes "k < length (icache s)" "i_busy (icache s ! k)" "i_ref (icache s ! k) \<ge> 1" "i_valid (icache s ! k)"
  shows "\<exists>t. iunlock k s = Ret () t \<and> cons_in t = cons_in s \<and> curproc t = curproc s \<and> ptable t = ptable s \<and>
    (\<forall>j. \<exists>u. ilock k (t\<lparr>cons_in := j\<rparr>) = Ret () u \<and> cons_in u = j \<and> icache u = icache s)"
proof -
  let ?t = "s\<lparr>icache := (icache s)[k := (icache s ! k)\<lparr>i_busy := False\<rparr>], wakeups := ChanInode k # wakeups s\<rparr>"
  have same: "(icache s ! k)\<lparr>i_busy := True\<rparr> = icache s ! k" using assms(2) by simp
  have "(icache s)[k := (icache s ! k)\<lparr>i_busy := True\<rparr>] = icache s" unfolding same by simp
  then have "\<exists>u. ilock k (?t\<lparr>cons_in := j\<rparr>) = Ret () u \<and> cons_in u = j \<and> icache u = icache s" for j
    using assms by (simp add: ilock_def kstep kret_apply modinode_def)
  moreover have "iunlock k s = Ret () ?t" using assms by (simp add: iunlock_def kstep kwakeup_def)
  ultimately show ?thesis by (intro exI [of _ ?t]) simp
qed

text \<open>
  C29. Reading from the console: when the committed lines hold a newline or an end-of-file mark, or \<open>n\<close> characters, \<open>consoleread\<close>
  returns the characters through the first newline, or up to the first mark, at most \<open>n\<close>, removes exactly those, and
  leaves a mark that follows other characters for the next read, which then returns nothing. The inode is locked again.
\<close>

theorem consoleread_spec:
  assumes "input_inv (cons_in s)" "n < 2 ^ 31" "k < length (icache s)"
    "i_busy (icache s ! k)" "i_ref (icache s ! k) \<ge> 1" "i_valid (icache s ! k)"
  defines "d \<equiv> committed (cons_in s)"
  assumes "read_ready n d"
  shows "kok (consoleread k n) s (\<lambda>(r, bs) t. r = int (read_len n d) \<and> bs = take (read_len n d) d \<and>
    input_inv (cons_in t) \<and> committed (cons_in t) = drop (read_used n d) d \<and> icache t = icache s)"
proof -
  have n: "nat (sint (of_nat n :: 32 word)) = n" using assms(2) by (simp add: signed_of_nat signed_take_bit_int_eq_self)
  obtain t where t: "iunlock k s = Ret () t" "cons_in t = cons_in s"
    "\<And>j. \<exists>u. ilock k (t\<lparr>cons_in := j\<rparr>) = Ret () u \<and> cons_in u = j \<and> icache u = icache s"
    using relock [OF assms(3-6)] by blast
  obtain j where j: "consoleread_loop n n t = Ret (True, take (read_len n d) d) (t\<lparr>cons_in := j\<rparr>)" "input_inv j"
    "committed j = drop (if 0 < n \<and> plain d < n \<and> d ! plain d = 4 \<and> plain d = 0 \<and> n = n then 1 else read_len n d) d"
    using consoleread_loop_run [of t n n] assms(1,8) unfolding t(2) d_def by blast
  obtain u where u: "ilock k (t\<lparr>cons_in := j\<rparr>) = Ret () u" "cons_in u = j" "icache u = icache s" using t(3) by blast
  have le: "read_len n d \<le> length d"
    using assms(8) plain_le [of d] by (auto simp: read_len_def read_ready_def Let_def)
  have "committed j = drop (read_used n d) d"
  proof (cases "n = 0")
    case True
    then show ?thesis using j(3) by (simp add: read_used_def)
  next
    case False
    then have ne: "d \<noteq> []" using assms(8) plain_le [of d] by (auto simp: read_ready_def)
    then have "plain d = 0 \<and> d ! plain d = 4 \<longleftrightarrow> d ! 0 = 4" by (metis plain_mark)
    then show ?thesis using False ne j(3) by (cases "d ! 0 = 4") (auto simp: read_used_def plain_mark)
  qed
  then show ?thesis
    using j u t(1) le by (simp add: kok_def consoleread_def n kbind_def kret_apply)
qed

definition console_example :: kernel_state where
  "console_example = kernel_example\<lparr>cons_in := \<lparr>in_buf = [104, 105, 10, 4] @ replicate 124 0, in_r = 0, in_w = 4, in_e = 4\<rparr>,
     icache := [free_inode\<lparr>i_ref := 1, i_busy := True, i_valid := True\<rparr>]\<rparr>"

theorem consoleread_spec_witness:
  "kok (consoleread 0 100) console_example (\<lambda>(r, bs) t. r = 3 \<and> bs = [104, 105, 10] \<and>
     input_inv (cons_in t) \<and> committed (cons_in t) = [4] \<and> icache t = icache console_example)"
proof -
  let ?i = "cons_in console_example"
  have c: "committed ?i = [104, 105, 10, 4]" "editing ?i = []"
    by (simp_all add: console_example_def committed_def editing_def ring_def upt_rec)
  have "input_inv ?i"
    by (simp add: input_inv_def c) (simp add: console_example_def input_ring_def ring_ok_def INPUT_BUF_def)
  moreover have "plain [104, 105, 10, 4] = 2" by (simp add: plain_Cons)
  ultimately show ?thesis using consoleread_spec [of console_example 100 0]
    by (simp add: c read_ready_def read_len_def read_used_def) (simp add: console_example_def)
qed

end
