(* ===== verification/File.thy ===== *)
theory File
  imports Console
begin

text \<open>
  Open files, \<open>file.c\<close>, and \<open>pipealloc\<close> of \<open>pipe.c\<close>. A file is its index in \<open>ftable\<close>; a null result is None. The buffer
  of a read or write is an address of the running process. The bytes read from an inode are stored once
  \<open>readi\<close> has returned, and the bytes to write are fetched before \<open>writei\<close> runs.
\<close>

definition getfile :: "nat \<Rightarrow> file_t kk" where
  "getfile f = kget (\<lambda>s. ftable s ! f)"

definition modfile :: "nat \<Rightarrow> (file_t \<Rightarrow> file_t) \<Rightarrow> unit kk" where
  "modfile f u = kmod (\<lambda>s. s\<lparr>ftable := (ftable s)[f := u (ftable s ! f)]\<rparr>)"

lemma file_step [kstep]:
  "kbind (getfile f) g s = g (ftable s ! f) s"
  "kbind (modfile f u) h s = h () (s\<lparr>ftable := (ftable s)[f := u (ftable s ! f)]\<rparr>)"
  by (simp_all add: getfile_def modfile_def kstep)

definition filealloc :: "nat option kk" where
  "filealloc =
     kbind (kget ftable) (\<lambda>ft.
     case find_idx (\<lambda>f. f_ref f = 0) ft of
       Some f \<Rightarrow> kbind (modfile f (\<lambda>x. x\<lparr>f_ref := 1\<rparr>)) (\<lambda>_. kret (Some f))
     | None \<Rightarrow> kret None)"

definition filedup :: "nat \<Rightarrow> nat kk" where
  "filedup f =
     kbind (getfile f) (\<lambda>x.
     if f_ref x < 1 then kpanic ''filedup''
     else kbind (modfile f (\<lambda>x. x\<lparr>f_ref := f_ref x + 1\<rparr>)) (\<lambda>_. kret f))"

definition fileclose :: "nat \<Rightarrow> unit kk" where
  "fileclose f =
     kbind (getfile f) (\<lambda>x.
     if f_ref x < 1 then kpanic ''fileclose''
     else if f_ref x - 1 > 0 then modfile f (\<lambda>x. x\<lparr>f_ref := f_ref x - 1\<rparr>)
     else
       kbind (modfile f (\<lambda>x. x\<lparr>f_ref := 0, f_type := FD_NONE\<rparr>)) (\<lambda>_.
       if f_type x = FD_PIPE then pipeclose (f_pipe x) (writable x)
       else if f_type x = FD_INODE then
         kbind begin_op (\<lambda>_.
         kbind (iput (f_ip x)) (\<lambda>_.
         end_op))
       else kret ()))"

text \<open>The fields of \<open>struct stat\<close> in memory; the bytes between them are not written.\<close>

definition put_stat :: "32 word \<Rightarrow> stat \<Rightarrow> unit kk" where
  "put_stat a st =
     kbind (copy_to (a + 4) (enc32 (of_nat (st_dev st)))) (\<lambda>_.
     kbind (copy_to (a + 8) (enc32 (of_nat (st_ino st)))) (\<lambda>_.
     kbind (copy_to a (enc16 (st_type st))) (\<lambda>_.
     kbind (copy_to (a + 12) (enc16 (st_nlink st))) (\<lambda>_.
     copy_to (a + 16) (enc32 (of_nat (st_size st)))))))"

definition filestat :: "nat \<Rightarrow> 32 word \<Rightarrow> int kk" where
  "filestat f a =
     kbind (getfile f) (\<lambda>x.
     if f_type x = FD_INODE then
       kbind (ilock (f_ip x)) (\<lambda>_.
       kbind (stati (f_ip x)) (\<lambda>st.
       kbind (put_stat a st) (\<lambda>_.
       kbind (iunlock (f_ip x)) (\<lambda>_.
       kret 0))))
     else kret (-1))"

text \<open>A signed count passed where the routine takes an unsigned one.\<close>

definition as_uint :: "int \<Rightarrow> nat" where
  "as_uint n = unat (word_of_int n :: 32 word)"

definition advance :: "nat \<Rightarrow> int \<Rightarrow> unit kk" where
  "advance f r = (if r > 0 then modfile f (\<lambda>x. x\<lparr>f_off := wrap32 (f_off x + nat r)\<rparr>) else kret ())"

definition fileread :: "nat \<Rightarrow> 32 word \<Rightarrow> int \<Rightarrow> int kk" where
  "fileread f a n =
     kbind (getfile f) (\<lambda>x.
     if \<not> readable x then kret (-1)
     else if f_type x = FD_PIPE then piperead (f_pipe x) a n
     else if f_type x = FD_INODE then
       kbind (ilock (f_ip x)) (\<lambda>_.
       kbind (readi kdevsw (f_ip x) (f_off x) (as_uint n)) (\<lambda>(r, bs).
       kbind (copy_to a bs) (\<lambda>_.
       kbind (advance f r) (\<lambda>_.
       kbind (iunlock (f_ip x)) (\<lambda>_.
       kret r)))))
     else kpanic ''fileread'')"

definition write_max :: int where
  "write_max = int ((LOGSIZE - 1 - 1 - 2) div 2 * 512)"

text \<open>The loop of \<open>filewrite\<close>: \<open>i\<close> of \<open>n\<close> bytes are written; the result is \<open>i\<close> when it ends.\<close>

function filewrite_loop :: "nat \<Rightarrow> 32 word \<Rightarrow> int \<Rightarrow> int \<Rightarrow> int kk" where
  "filewrite_loop f a i n =
     (if i < n then
        (let n1 = min (n - i) write_max in
         kbind (getfile f) (\<lambda>x.
         kbind begin_op (\<lambda>_.
         kbind (ilock (f_ip x)) (\<lambda>_.
         kbind (copy_in (a + word_of_int i) (nat n1)) (\<lambda>bs.
         kbind (writei kdevsw (f_ip x) bs (f_off x) (nat n1)) (\<lambda>r.
         kbind (advance f r) (\<lambda>_.
         kbind (iunlock (f_ip x)) (\<lambda>_.
         kbind end_op (\<lambda>_.
         if r < 0 then kret i
         else if r \<noteq> n1 then kpanic ''short filewrite''
         else filewrite_loop f a (i + n1) n)))))))))
      else kret i)"
  by pat_completeness auto
termination
  by (relation "measure (\<lambda>(f, a, i, n). nat (n - i))") (auto simp: write_max_def LOGSIZE_def MAXOPBLOCKS_def)

declare filewrite_loop.simps [simp del]

definition filewrite :: "nat \<Rightarrow> 32 word \<Rightarrow> int \<Rightarrow> int kk" where
  "filewrite f a n =
     kbind (getfile f) (\<lambda>x.
     if \<not> writable x then kret (-1)
     else if f_type x = FD_PIPE then pipewrite (f_pipe x) a n
     else if f_type x = FD_INODE then
       kbind (filewrite_loop f a 0 n) (\<lambda>i. kret (if i = n then n else -1))
     else kpanic ''filewrite'')"

text \<open>
  \<open>pipealloc\<close>: the two files, or None for the result \<open>-1\<close>. The new pipe's data is what lies in the page, after the lock of
  52 bytes.
\<close>

definition pipealloc_bad :: "nat option \<Rightarrow> nat option \<Rightarrow> (nat \<times> nat) option kk" where
  "pipealloc_bad f0 f1 =
     kbind (case f0 of Some f \<Rightarrow> fileclose f | None \<Rightarrow> kret ()) (\<lambda>_.
     kbind (case f1 of Some f \<Rightarrow> fileclose f | None \<Rightarrow> kret ()) (\<lambda>_.
     kret None))"

definition pipealloc :: "(nat \<times> nat) option kk" where
  "pipealloc =
     kbind filealloc (\<lambda>f0.
     case f0 of None \<Rightarrow> pipealloc_bad None None
     | Some r \<Rightarrow>
       kbind filealloc (\<lambda>f1.
       case f1 of None \<Rightarrow> pipealloc_bad f0 None
       | Some w \<Rightarrow>
         kbind kalloc (\<lambda>p.
         if p = 0 then pipealloc_bad f0 f1
         else
           kbind (kget (\<lambda>s. bslice 52 PIPESIZE (pages s (frame p)))) (\<lambda>d.
           kbind (setpipe (frame p) \<lparr>p_data = d, nread = 0, nwrite = 0, readopen = True, writeopen = True\<rparr>) (\<lambda>_.
           kbind (modfile r (\<lambda>x. x\<lparr>f_type := FD_PIPE, readable := True, writable := False, f_pipe := frame p\<rparr>)) (\<lambda>_.
           kbind (modfile w (\<lambda>x. x\<lparr>f_type := FD_PIPE, readable := False, writable := True, f_pipe := frame p\<rparr>)) (\<lambda>_.
           kret (Some (r, w)))))))))"

end
