(* ===== verification/Proc.thy ===== *)
theory Proc
  imports File
begin

text \<open>
  Processes, \<open>proc.c\<close>. The address of \<open>forkret\<close> and the image of \<open>initcode.S\<close> come from the linker and are arguments. A
  routine that gives up the processor ends in \<open>Block\<close>: with \<open>ChanSched\<close> when it has set the state of its process and
  called \<open>sched\<close>, with another channel when it called \<open>sleep\<close> on it; \<open>suspend\<close> carries out that sleep. The conditions of
  \<open>sched\<close> on the lock of the table belong to the theory of spin locks: here the table is always locked.
\<close>

text \<open>Copying into the array \<open>name[16]\<close>; the source string lies behind it in the memory of \<open>safestrcpy\<close>.\<close>

definition NAMESZ :: nat where "NAMESZ = 16"

definition name_copy :: "byte list \<Rightarrow> byte list \<Rightarrow> byte list" where
  "name_copy dst src =
     map (safestrcpy (\<lambda>a. if a < NAMESZ then cstr dst a else cstr src (a - NAMESZ)) 0 NAMESZ (int NAMESZ)) [0..<NAMESZ]"

definition allocproc :: "32 word \<Rightarrow> nat option kk" where
  "allocproc fr =
     kbind (kget ptable) (\<lambda>ps.
     case find_idx (\<lambda>p. p_state p = UNUSED) ps of
       None \<Rightarrow> kret None
     | Some i \<Rightarrow>
         kbind (kget nextpid) (\<lambda>n.
         kbind (modproc i (\<lambda>p. p\<lparr>p_state := EMBRYO, p_pid := n\<rparr>)) (\<lambda>_.
         kbind (kmod (\<lambda>s. s\<lparr>nextpid := n + 1\<rparr>)) (\<lambda>_.
         kbind (modproc i (\<lambda>p. p\<lparr>p_heap_start := 0, p_page_allocator_type := 0\<rparr>)) (\<lambda>_.
         kbind kalloc (\<lambda>k.
         kbind (modproc i (\<lambda>p. p\<lparr>p_kstack := k\<rparr>)) (\<lambda>_.
         if k = 0 then kbind (modproc i (\<lambda>p. p\<lparr>p_state := UNUSED\<rparr>)) (\<lambda>_. kret None)
         else
           kbind (modproc i (\<lambda>p. p\<lparr>p_context := \<lparr>ctx_edi = 0, ctx_esi = 0, ctx_ebx = 0, ctx_ebp = 0, ctx_eip = fr\<rparr>\<rparr>)) (\<lambda>_.
           kret (Some i)))))))))"

definition user_tf :: trapframe where
  "user_tf = zero_tf\<lparr>tf_cs := push_bit 3 (of_nat SEG_UCODE) OR DPL_USER, tf_ds := push_bit 3 (of_nat SEG_UDATA) OR DPL_USER,
     tf_es := push_bit 3 (of_nat SEG_UDATA) OR DPL_USER, tf_ss := push_bit 3 (of_nat SEG_UDATA) OR DPL_USER,
     tf_eflags := FL_IF, tf_esp := of_nat PGSIZE, tf_eip := 0\<rparr>"

definition userinit :: "32 word \<Rightarrow> byte list \<Rightarrow> unit kk" where
  "userinit fr initcode =
     kbind (allocproc fr) (\<lambda>p.
     kbind (kmod (\<lambda>s. s\<lparr>initproc := p\<rparr>)) (\<lambda>_.
     case p of None \<Rightarrow> kpanic ''undefined: null pointer''
     | Some i \<Rightarrow>
         kbind setupkvm (\<lambda>pgdir.
         kbind (modproc i (\<lambda>p. p\<lparr>p_pgdir := pgdir\<rparr>)) (\<lambda>_.
         if pgdir = 0 then kpanic ''userinit: out of memory?''
         else
           kbind (inituvm pgdir initcode) (\<lambda>_.
           kbind (modproc i (\<lambda>p. p\<lparr>p_sz := of_nat PGSIZE, p_tf := user_tf, p_heap_start := 0,
             p_name := name_copy (p_name p) (str ''initcode'')\<rparr>)) (\<lambda>_.
           kbind (namei kdevsw 0 (str ''/'')) (\<lambda>cwd.
           modproc i (\<lambda>p. p\<lparr>p_cwd := cwd, p_state := RUNNABLE\<rparr>)))))))) "

definition growproc :: "int \<Rightarrow> int kk" where
  "growproc n =
     kbind myproc (\<lambda>c.
     kbind (getproc c) (\<lambda>p.
     kbind
       (if n > 0 then
          (if p_page_allocator_type p = 1 then
             (let sz = p_sz p + word_of_int n in
              if sz \<ge> KERNBASE then kbind (cprintf (''Memory allocation exceeds limit!'' @ [CHR 0x0A]) []) (\<lambda>_. kret None)
              else kret (Some sz))
           else
             kbind (allocuvm (p_pgdir p) (p_sz p) (p_sz p + word_of_int n)) (\<lambda>sz.
             if sz = 0 then kbind (cprintf (''Allocating pages failed!'' @ [CHR 0x0A]) []) (\<lambda>_. kret None)
             else kret (Some sz)))
        else if n < 0 then
          kbind (deallocuvm (p_pgdir p) (p_sz p) (p_sz p + word_of_int n)) (\<lambda>sz.
          if sz = 0 then kbind (cprintf (''Deallocating pages failed!'' @ [CHR 0x0A]) []) (\<lambda>_. kret None)
          else kret (Some sz))
        else kret (Some (p_sz p))) (\<lambda>r.
     case r of None \<Rightarrow> kret (-1)
     | Some sz \<Rightarrow>
         kbind (modproc c (\<lambda>p. p\<lparr>p_sz := sz\<rparr>)) (\<lambda>_.
         kbind (switchuvm c) (\<lambda>_.
         kret 0)))))"

text \<open>The loop of \<open>fork\<close> over the open files of the parent.\<close>

fun dup_files :: "nat \<Rightarrow> nat \<Rightarrow> nat option list \<Rightarrow> unit kk" where
  "dup_files np i [] = kret ()"
| "dup_files np i (None # fs) = dup_files np (Suc i) fs"
| "dup_files np i (Some f # fs) =
     kbind (filedup f) (\<lambda>f.
     kbind (modproc np (\<lambda>p. p\<lparr>p_ofile := (p_ofile p)[i := Some f]\<rparr>)) (\<lambda>_.
     dup_files np (Suc i) fs))"

definition fork :: "32 word \<Rightarrow> int kk" where
  "fork fr =
     kbind (allocproc fr) (\<lambda>np.
     case np of None \<Rightarrow> kret (-1)
     | Some i \<Rightarrow>
         kbind myproc (\<lambda>c.
         kbind (getproc c) (\<lambda>p.
         kbind (copyuvm (p_pgdir p) (p_sz p)) (\<lambda>pgdir.
         kbind (modproc i (\<lambda>q. q\<lparr>p_pgdir := pgdir\<rparr>)) (\<lambda>_.
         if pgdir = 0 then
           kbind (getproc i) (\<lambda>q.
           kbind (kfree (p_kstack q)) (\<lambda>_.
           kbind (modproc i (\<lambda>q. q\<lparr>p_kstack := 0, p_state := UNUSED\<rparr>)) (\<lambda>_.
           kret (-1))))
         else
           kbind (modproc i (\<lambda>q. q\<lparr>p_sz := p_sz p, p_parent := Some c, p_tf := (p_tf p)\<lparr>tf_eax := 0\<rparr>\<rparr>)) (\<lambda>_.
           kbind (dup_files i 0 (p_ofile p)) (\<lambda>_.
           kbind (case p_cwd p of None \<Rightarrow> kpanic ''undefined: null pointer'' | Some k \<Rightarrow> idup k) (\<lambda>cwd.
           kbind (modproc i (\<lambda>q. q\<lparr>p_cwd := Some cwd, p_name := name_copy (p_name q) (p_name p)\<rparr>)) (\<lambda>_.
           kbind (getproc i) (\<lambda>q.
           kbind (modproc i (\<lambda>q. q\<lparr>p_state := RUNNABLE\<rparr>)) (\<lambda>_.
           kret (p_pid q))))))))))))"

subsection \<open>Giving up the processor\<close>

definition sched :: "unit kk" where
  "sched = kbind curp (\<lambda>p. if p_state p = RUNNING then kpanic ''sched running'' else ksleep ChanSched)"

definition yield :: "unit kk" where
  "yield = kbind (modcur (\<lambda>p. p\<lparr>p_state := RUNNABLE\<rparr>)) (\<lambda>_. sched)"

text \<open>The part of \<open>sleep\<close> before the switch, and \<open>proc->chan = 0\<close> after it.\<close>

definition sleep :: "chan \<Rightarrow> unit kk" where
  "sleep ch =
     kbind (kget curproc) (\<lambda>c.
     if c = None then kpanic ''sleep''
     else
       kbind deliver (\<lambda>_.
       kbind (modcur (\<lambda>p. p\<lparr>p_chan := Some ch, p_state := SLEEPING\<rparr>)) (\<lambda>_.
       sched)))"

definition awaken :: "unit kk" where
  "awaken = modcur (\<lambda>p. p\<lparr>p_chan := None\<rparr>)"

definition suspend :: "'a kk \<Rightarrow> 'a kk" where
  "suspend m = (\<lambda>s. case m s of
     Ret x t \<Rightarrow> kbind deliver (\<lambda>_. kret x) t
   | Panic e \<Rightarrow> Panic e
   | Block ch t \<Rightarrow> if ch = ChanSched then Block ch t else kbind (sleep ch) (\<lambda>_. kpanic ''unreachable'') t)"

definition forkret :: "unit kk" where
  "forkret =
     kbind (kget first) (\<lambda>f.
     if f then
       kbind (kmod (\<lambda>s. s\<lparr>first := False\<rparr>)) (\<lambda>_.
       kbind (iinit ROOTDEV) (\<lambda>_.
       initlog ROOTDEV))
     else kret ())"

subsection \<open>Exit, wait and kill\<close>

fun close_files :: "nat \<Rightarrow> nat \<Rightarrow> nat option list \<Rightarrow> unit kk" where
  "close_files c fd [] = kret ()"
| "close_files c fd (None # fs) = close_files c (Suc fd) fs"
| "close_files c fd (Some f # fs) =
     kbind (fileclose f) (\<lambda>_.
     kbind (modproc c (\<lambda>p. p\<lparr>p_ofile := (p_ofile p)[fd := None]\<rparr>)) (\<lambda>_.
     close_files c (Suc fd) fs))"

definition wakeup_proc :: "nat option \<Rightarrow> proc list \<Rightarrow> proc list" where
  "wakeup_proc q ps = (case q of None \<Rightarrow> ps | Some i \<Rightarrow> wakeup1 (ChanProc i) ps)"

text \<open>Passing the children of \<open>c\<close> to \<open>init\<close>, slot by slot.\<close>

fun reparent :: "nat \<Rightarrow> nat option \<Rightarrow> nat list \<Rightarrow> proc list \<Rightarrow> proc list" where
  "reparent c ini [] ps = ps"
| "reparent c ini (i # is) ps =
     (if p_parent (ps ! i) = Some c then
        (let ps' = ps[i := (ps ! i)\<lparr>p_parent := ini\<rparr>] in
         reparent c ini is (if p_state (ps ! i) = ZOMBIE then wakeup_proc ini ps' else ps'))
      else reparent c ini is ps)"

definition exit :: "unit kk" where
  "exit =
     kbind myproc (\<lambda>c.
     kbind (kget initproc) (\<lambda>ini.
     if ini = Some c then kpanic ''init exiting''
     else
       kbind (getproc c) (\<lambda>p.
       kbind (close_files c 0 (p_ofile p)) (\<lambda>_.
       kbind begin_op (\<lambda>_.
       kbind (case p_cwd p of None \<Rightarrow> kpanic ''undefined: null pointer'' | Some k \<Rightarrow> iput k) (\<lambda>_.
       kbind end_op (\<lambda>_.
       kbind (modproc c (\<lambda>p. p\<lparr>p_cwd := None\<rparr>)) (\<lambda>_.
       kbind deliver (\<lambda>_.
       kbind (kmod (\<lambda>s. s\<lparr>ptable := wakeup_proc (p_parent (ptable s ! c)) (ptable s)\<rparr>)) (\<lambda>_.
       kbind (kmod (\<lambda>s. s\<lparr>ptable := reparent c ini [0..<length (ptable s)] (ptable s)\<rparr>)) (\<lambda>_.
       kbind (modproc c (\<lambda>p. p\<lparr>p_state := ZOMBIE\<rparr>)) (\<lambda>_.
       kbind sched (\<lambda>_.
       kpanic ''zombie exit'')))))))))))))"

definition reap :: "nat \<Rightarrow> int kk" where
  "reap i =
     kbind (getproc i) (\<lambda>p.
     kbind (kfree (p_kstack p)) (\<lambda>_.
     kbind (modproc i (\<lambda>p. p\<lparr>p_kstack := 0\<rparr>)) (\<lambda>_.
     kbind (freevm (p_pgdir p)) (\<lambda>_.
     kbind (modproc i (\<lambda>p. p\<lparr>p_state := UNUSED, p_pid := 0, p_parent := None, p_name := (p_name p)[0 := 0], p_killed := False\<rparr>)) (\<lambda>_.
     kret (p_pid p))))))"

text \<open>The scan of \<open>wait\<close> from the slots \<open>is\<close> on: the child to reap, or whether there are children at all.\<close>

fun wait_scan :: "nat \<Rightarrow> proc list \<Rightarrow> nat list \<Rightarrow> bool \<Rightarrow> nat option \<times> bool" where
  "wait_scan c ps [] kids = (None, kids)"
| "wait_scan c ps (i # is) kids =
     (if p_parent (ps ! i) \<noteq> Some c then wait_scan c ps is kids
      else if p_state (ps ! i) = ZOMBIE then (Some i, True)
      else wait_scan c ps is True)"

definition wait :: "int kk" where
  "wait =
     kbind myproc (\<lambda>c.
     kbind (kget ptable) (\<lambda>ps.
     case wait_scan c ps [0..<length ps] False of
       (Some i, _) \<Rightarrow> reap i
     | (None, kids) \<Rightarrow> if \<not> kids \<or> p_killed (ps ! c) then kret (-1) else ksleep (ChanProc c)))"

definition kill :: "int \<Rightarrow> int kk" where
  "kill pid =
     kbind (kget ptable) (\<lambda>ps.
     case find_idx (\<lambda>p. p_pid p = pid) ps of
       None \<Rightarrow> kret (-1)
     | Some i \<Rightarrow>
         kbind (modproc i (\<lambda>p. p\<lparr>p_killed := True, p_state := (if p_state p = SLEEPING then RUNNABLE else p_state p)\<rparr>)) (\<lambda>_.
         kret 0))"

subsection \<open>The scheduler\<close>

text \<open>
  One pass of \<open>scheduler\<close> over the table. \<open>run i\<close> is what process \<open>i\<close> does between the switch to it and its
  switch back. The result lists the processes run; \<open>ran\<close> is that it is not empty.
\<close>

fun sched_round :: "(nat \<Rightarrow> unit kk) \<Rightarrow> nat list \<Rightarrow> nat list kk" where
  "sched_round run [] = kret []"
| "sched_round run (i # is) =
     kbind (getproc i) (\<lambda>p.
     if p_state p \<noteq> RUNNABLE then sched_round run is
     else
       kbind (kmod (\<lambda>s. s\<lparr>curproc := Some i\<rparr>)) (\<lambda>_.
       kbind (switchuvm i) (\<lambda>_.
       kbind (modproc i (\<lambda>p. p\<lparr>p_state := RUNNING\<rparr>)) (\<lambda>_.
       kbind (run i) (\<lambda>_.
       kbind switchkvm (\<lambda>_.
       kbind (kmod (\<lambda>s. s\<lparr>curproc := None\<rparr>)) (\<lambda>_.
       kbind (sched_round run is) (\<lambda>js.
       kret (i # js)))))))))"

definition scheduler_pass :: "(nat \<Rightarrow> unit kk) \<Rightarrow> bool kk" where
  "scheduler_pass run = kbind (kget ptable) (\<lambda>ps. kbind (sched_round run [0..<length ps]) (\<lambda>js. kret (js \<noteq> [])))"

end
