(* ===== verification/Syscall.thy ===== *)
theory Syscall
  imports Proc
begin

text \<open>
  System-call arguments, \<open>syscall.c\<close>, and the calls on processes, \<open>sysproc.c\<close>. A routine that stores its result through
  a pointer and returns \<open>-1\<close> on failure returns an option here; a string argument is fetched as its characters.
\<close>

definition or_fail :: "'a option kk \<Rightarrow> ('a \<Rightarrow> int kk) \<Rightarrow> int kk" where
  "or_fail m k = kbind m (\<lambda>r. case r of None \<Rightarrow> kret (-1) | Some x \<Rightarrow> k x)"

subsection \<open>Arguments\<close>

definition fetchint :: "32 word \<Rightarrow> 32 word option kk" where
  "fetchint addr =
     kbind curp (\<lambda>p.
     if addr \<ge> p_sz p \<or> addr + 4 > p_sz p then kret None
     else kbind (copy_in addr 4) (\<lambda>bs. kret (Some (dec32 bs))))"

text \<open>The loop of \<open>fetchstr\<close>, with \<open>n\<close> bytes up to the end of the process.\<close>

fun fetchstr_loop :: "32 word \<Rightarrow> nat \<Rightarrow> byte list option kk" where
  "fetchstr_loop s 0 = kret None"
| "fetchstr_loop s (Suc n) =
     kbind (ldub s) (\<lambda>c.
     if c = 0 then kret (Some [])
     else kbind (fetchstr_loop (s + 1) n) (\<lambda>r. kret (map_option (Cons c) r)))"

definition fetchstr :: "32 word \<Rightarrow> byte list option kk" where
  "fetchstr addr =
     kbind curp (\<lambda>p.
     if addr \<ge> p_sz p then kret None else fetchstr_loop addr (unat (p_sz p - addr)))"

definition argint :: "32 word \<Rightarrow> 32 word option kk" where
  "argint n = kbind curp (\<lambda>p. fetchint (tf_esp (p_tf p) + 4 + 4 * n))"

definition argptr :: "32 word \<Rightarrow> 32 word \<Rightarrow> 32 word option kk" where
  "argptr n sz =
     kbind (argint n) (\<lambda>r.
     case r of None \<Rightarrow> kret None
     | Some i \<Rightarrow>
         kbind curp (\<lambda>p. if i \<ge> p_sz p \<or> i + sz > p_sz p then kret None else kret (Some i)))"

definition argstr :: "32 word \<Rightarrow> byte list option kk" where
  "argstr n =
     kbind (argint n) (\<lambda>r.
     case r of None \<Rightarrow> kret None | Some a \<Rightarrow> fetchstr a)"

subsection \<open>Calls on processes\<close>

definition sys_fork :: "32 word \<Rightarrow> int kk" where
  "sys_fork fr = fork fr"

definition sys_exit :: "int kk" where
  "sys_exit = kbind exit (\<lambda>_. kret 0)"

definition sys_wait :: "int kk" where
  "sys_wait = wait"

definition sys_kill :: "int kk" where
  "sys_kill = or_fail (argint 0) (\<lambda>pid. kill (sint pid))"

definition sys_getpid :: "int kk" where
  "sys_getpid = kbind curp (\<lambda>p. kret (p_pid p))"

definition sys_sbrk :: "int kk" where
  "sys_sbrk =
     or_fail (argint 0) (\<lambda>n.
     kbind curp (\<lambda>p.
     kbind (growproc (sint n)) (\<lambda>r.
     if r < 0 then kret (-1) else kret (sint (p_sz p)))))"

text \<open>The test of the loop of \<open>sys_sleep\<close>: the difference is unsigned, so \<open>n\<close> is compared as unsigned too.\<close>

definition sleep_until :: "32 word \<Rightarrow> 32 word \<Rightarrow> int kk" where
  "sleep_until ticks0 n =
     kbind (kget ticks) (\<lambda>t.
     if t - ticks0 < n then
       kbind curp (\<lambda>p. if p_killed p then kret (-1) else ksleep ChanTicks)
     else kret 0)"

definition sys_sleep :: "int kk" where
  "sys_sleep = or_fail (argint 0) (\<lambda>n. kbind (kget ticks) (\<lambda>t0. sleep_until t0 n))"

definition sys_uptime :: "int kk" where
  "sys_uptime = kbind (kget ticks) (\<lambda>t. kret (sint t))"

definition sys_print_free_frame_cnt :: "int kk" where
  "sys_print_free_frame_cnt =
     kbind (kget free_frame_cnt) (\<lambda>n.
     kbind (cprintf (''free-frames %d'' @ [CHR 0x0A]) [pint (word_of_int n)]) (\<lambda>_.
     kret 0))"

definition sys_set_page_allocator :: "int kk" where
  "sys_set_page_allocator =
     or_fail (argint 0) (\<lambda>a.
     if a \<noteq> 0 \<and> a \<noteq> 1 then
       kbind (cprintf (''Invalid allocator type: %d'' @ [CHR 0x0A]) [pint a]) (\<lambda>_. kret (-1))
     else
       kbind (modcur (\<lambda>p. p\<lparr>p_page_allocator_type := sint a\<rparr>)) (\<lambda>_.
       kbind curp (\<lambda>p.
       kbind (cprintf (''Process %d: Page allocator type set to: %s'' @ [CHR 0x0A])
         [pint (word_of_int (p_pid p)), pstr (str (if a = 0 then ''Default'' else ''Lazy''))]) (\<lambda>_.
       kret 0))))"

definition sys_shmget :: "int kk" where
  "sys_shmget =
     or_fail (argint 0) (\<lambda>_.
     kbind (cprintf (''Your shared memory mechanism has not been implemented!'' @ [CHR 0x0A]) []) (\<lambda>_. kret 0))"

definition sys_shmdel :: "int kk" where
  "sys_shmdel =
     or_fail (argint 0) (\<lambda>_.
     kbind (cprintf (''Your shared memory mechanims has not been implemented!'' @ [CHR 0x0A]) []) (\<lambda>_. kret 0))"

end
