(* ===== verification/Exec.thy ===== *)
theory Exec
  imports Proc
begin

text \<open>
  Loading a program: the headers of \<open>elf.h\<close>, \<open>loaduvm\<close> of \<open>vm.c\<close> and \<open>exec.c\<close>. The path and the arguments are the characters
  of their strings. A jump to \<open>bad\<close> is the result None of the part it leaves.
\<close>

definition ELF_MAGIC :: "32 word" where "ELF_MAGIC = 0x464C457F"
definition ELF_PROG_LOAD :: "32 word" where "ELF_PROG_LOAD = 1"

record elfhdr =
  e_magic :: "32 word"
  e_elf :: "byte list"
  e_type :: "16 word"
  e_machine :: "16 word"
  e_version :: "32 word"
  e_entry :: "32 word"
  e_phoff :: "32 word"
  e_shoff :: "32 word"
  e_flags :: "32 word"
  e_ehsize :: "16 word"
  e_phentsize :: "16 word"
  e_phnum :: "16 word"
  e_shentsize :: "16 word"
  e_shnum :: "16 word"
  e_shstrndx :: "16 word"

record proghdr =
  ph_type :: "32 word"
  ph_off :: "32 word"
  ph_vaddr :: "32 word"
  ph_paddr :: "32 word"
  ph_filesz :: "32 word"
  ph_memsz :: "32 word"
  ph_flags :: "32 word"
  ph_align :: "32 word"

definition elfhdr_of :: "byte list \<Rightarrow> elfhdr" where
  "elfhdr_of b = \<lparr>e_magic = load32 b 0, e_elf = bslice 4 12 b, e_type = load16 b 16, e_machine = load16 b 18,
     e_version = load32 b 20, e_entry = load32 b 24, e_phoff = load32 b 28, e_shoff = load32 b 32, e_flags = load32 b 36,
     e_ehsize = load16 b 40, e_phentsize = load16 b 42, e_phnum = load16 b 44, e_shentsize = load16 b 46,
     e_shnum = load16 b 48, e_shstrndx = load16 b 50\<rparr>"

definition proghdr_of :: "byte list \<Rightarrow> proghdr" where
  "proghdr_of b = \<lparr>ph_type = load32 b 0, ph_off = load32 b 4, ph_vaddr = load32 b 8, ph_paddr = load32 b 12,
     ph_filesz = load32 b 16, ph_memsz = load32 b 20, ph_flags = load32 b 24, ph_align = load32 b 28\<rparr>"

subsection \<open>Loading a segment\<close>

function loaduvm_loop :: "32 word \<Rightarrow> 32 word \<Rightarrow> nat \<Rightarrow> 32 word \<Rightarrow> nat \<Rightarrow> nat \<Rightarrow> int kk" where
  "loaduvm_loop pgdir addr ip offset sz i =
     (if i < sz then
        kbind (walkpgdir pgdir (addr + of_nat i) False) (\<lambda>pte.
        if pte = 0 then kpanic ''loaduvm: address should exist''
        else
          kbind (ldl pte) (\<lambda>e.
          (let n = (if sz - i < PGSIZE then sz - i else PGSIZE) in
           kbind (readi kdevsw ip (unat (offset + of_nat i)) n) (\<lambda>(r, bs).
           kbind (put_bytes (p2v (PTE_ADDR e)) bs) (\<lambda>_.
           if r \<noteq> int n then kret (-1)
           else loaduvm_loop pgdir addr ip offset sz (i + PGSIZE))))))
      else kret 0)"
  by pat_completeness auto
termination
  by (relation "measure (\<lambda>(pgdir, addr, ip, offset, sz, i). sz - i)") (auto simp: PGSIZE_def)

declare loaduvm_loop.simps [simp del]

definition loaduvm :: "32 word \<Rightarrow> 32 word \<Rightarrow> nat \<Rightarrow> 32 word \<Rightarrow> 32 word \<Rightarrow> int kk" where
  "loaduvm pgdir addr ip offset sz =
     (if unat addr mod PGSIZE \<noteq> 0 then kpanic ''loaduvm: addr must be page aligned''
      else loaduvm_loop pgdir addr ip offset (unat sz) 0)"

text \<open>The loop of \<open>exec\<close> over \<open>n\<close> program headers from file offset \<open>off\<close>; the result is the size of the image.\<close>

fun load_segments :: "32 word \<Rightarrow> nat \<Rightarrow> nat \<Rightarrow> 32 word \<Rightarrow> 32 word \<Rightarrow> 32 word option kk" where
  "load_segments pgdir ip 0 off sz = kret (Some sz)"
| "load_segments pgdir ip (Suc n) off sz =
     kbind (readi kdevsw ip (unat off) 32) (\<lambda>(r, bs).
     if r \<noteq> 32 then kret None
     else
       (let ph = proghdr_of bs in
        if ph_type ph \<noteq> ELF_PROG_LOAD then load_segments pgdir ip n (off + 32) sz
        else if ph_memsz ph < ph_filesz ph then kret None
        else
          kbind (allocuvm pgdir sz (ph_vaddr ph + ph_memsz ph)) (\<lambda>sz.
          if sz = 0 then kret None
          else
            kbind (loaduvm pgdir (ph_vaddr ph) ip (ph_off ph) (ph_filesz ph)) (\<lambda>r.
            if r < 0 then kret None
            else load_segments pgdir ip n (off + 32) sz))))"

subsection \<open>The stack\<close>

text \<open>The arguments from number \<open>argc\<close> on: the stack pointer below them and the words \<open>ustack[3+argc]\<close> and up.\<close>

fun push_args :: "32 word \<Rightarrow> 32 word \<Rightarrow> byte list list \<Rightarrow> nat \<Rightarrow> (32 word \<times> 32 word list) option kk" where
  "push_args pgdir sp [] argc = kret (Some (sp, []))"
| "push_args pgdir sp (a # as) argc =
     (if argc \<ge> MAXARG then kret None
      else
        (let sp = (sp - of_nat (length a + 1)) AND NOT 3 in
         kbind (copyout pgdir sp (a @ [0])) (\<lambda>r.
         if r < 0 then kret None
         else
           kbind (push_args pgdir sp as (Suc argc)) (\<lambda>x.
           kret (map_option (\<lambda>(sp', us). (sp', sp # us)) x)))))"

definition ustack :: "32 word \<Rightarrow> 32 word list \<Rightarrow> byte list" where
  "ustack sp us =
     (let argc = of_nat (length us) in
      concat (map enc32 ([0xffffffff, argc, sp - (argc + 1) * 4] @ us @ [0])))"

text \<open>The last element of the path: what follows its last slash.\<close>

definition last_elem :: "byte list \<Rightarrow> byte list" where
  "last_elem path = rev (takeWhile (\<lambda>c. c \<noteq> slash) (rev path))"

text \<open>The image in \<open>pgdir\<close>, of size \<open>sz\<close>, gets its stack; the result is its final size and the stack pointer.\<close>

definition build_stack :: "32 word \<Rightarrow> 32 word \<Rightarrow> byte list list \<Rightarrow> (32 word \<times> 32 word) option kk" where
  "build_stack pgdir sz argv =
     (let sz = PGROUNDUP sz in
      kbind (allocuvm pgdir sz (sz + 2 * of_nat PGSIZE)) (\<lambda>sz.
      if sz = 0 then kret None
      else
        kbind (clearpteu pgdir (sz - 2 * of_nat PGSIZE)) (\<lambda>_.
        kbind (push_args pgdir sz argv 0) (\<lambda>r.
        case r of None \<Rightarrow> kret None
        | Some (sp, us) \<Rightarrow>
            (let sp' = sp - (3 + of_nat (length us) + 1) * 4 in
             kbind (copyout pgdir sp' (ustack sp us)) (\<lambda>r.
             if r < 0 then kret None else kret (Some (sz, sp'))))))))"

definition install_image :: "byte list \<Rightarrow> 32 word \<Rightarrow> 32 word \<Rightarrow> 32 word \<Rightarrow> 32 word \<Rightarrow> int kk" where
  "install_image path pgdir sz entry sp =
     kbind myproc (\<lambda>c.
     kbind (getproc c) (\<lambda>p.
     kbind (modproc c (\<lambda>p. p\<lparr>p_name := name_copy (p_name p) (last_elem path), p_pgdir := pgdir, p_sz := sz,
       p_tf := (p_tf p)\<lparr>tf_eip := entry, tf_esp := sp\<rparr>\<rparr>)) (\<lambda>_.
     kbind (switchuvm c) (\<lambda>_.
     kbind (freevm (p_pgdir p)) (\<lambda>_.
     kret 0)))))"

text \<open>The working directory for a path; only a relative path needs it.\<close>

definition kcwd :: "byte list \<Rightarrow> nat kk" where
  "kcwd path = kbind curp (\<lambda>p. case p_cwd p of Some k \<Rightarrow> kret k
     | None \<Rightarrow> if path \<noteq> [] \<and> hd path = slash then kret 0 else kpanic ''undefined: null pointer'')"

definition exec_bad :: "32 word \<Rightarrow> nat option \<Rightarrow> int kk" where
  "exec_bad pgdir ip =
     kbind (if pgdir \<noteq> 0 then freevm pgdir else kret ()) (\<lambda>_.
     kbind (case ip of Some k \<Rightarrow> kbind (iunlockput k) (\<lambda>_. end_op) | None \<Rightarrow> kret ()) (\<lambda>_.
     kret (-1)))"

text \<open>
  The first comparison of \<open>exec\<close> is between an int and a \<open>sizeof\<close>, so it is unsigned and the result \<open>-1\<close> of \<open>readi\<close> passes it, with
  the header left uninitialised.
\<close>

definition exec :: "byte list \<Rightarrow> byte list list \<Rightarrow> int kk" where
  "exec path argv =
     kbind begin_op (\<lambda>_.
     kbind (kcwd path) (\<lambda>cwd.
     kbind (namei kdevsw cwd path) (\<lambda>ipo.
     case ipo of None \<Rightarrow> kbind end_op (\<lambda>_. kret (-1))
     | Some ip \<Rightarrow>
         kbind (ilock ip) (\<lambda>_.
         kbind (readi kdevsw ip 0 52) (\<lambda>(r, bs).
         if as_uint r < 52 then exec_bad 0 (Some ip)
         else if r < 0 then kpanic ''undefined: uninitialised header''
         else
           (let elf = elfhdr_of bs in
            if e_magic elf \<noteq> ELF_MAGIC then exec_bad 0 (Some ip)
            else
              kbind setupkvm (\<lambda>pgdir.
              if pgdir = 0 then exec_bad 0 (Some ip)
              else
                kbind (load_segments pgdir ip (unat (e_phnum elf)) (e_phoff elf) 0) (\<lambda>szo.
                case szo of None \<Rightarrow> exec_bad pgdir (Some ip)
                | Some sz \<Rightarrow>
                    kbind (iunlockput ip) (\<lambda>_.
                    kbind end_op (\<lambda>_.
                    kbind (build_stack pgdir sz argv) (\<lambda>st.
                    case st of None \<Rightarrow> exec_bad pgdir None
                    | Some (sz, sp) \<Rightarrow> install_image path pgdir sz (e_entry elf) sp)))))))))))"

end
