(* ===== verification/Sysfile.thy ===== *)
theory Sysfile
  imports Syscall Exec
begin

text \<open>
  The system calls on files, \<open>sysfile.c\<close>. A failure of an argument check is the result \<open>-1\<close>; a jump to \<open>bad\<close> is a call of the
  routine that holds the code behind that label.
\<close>

definition O_RDONLY :: "32 word" where "O_RDONLY = 0x000"
definition O_WRONLY :: "32 word" where "O_WRONLY = 0x001"
definition O_RDWR :: "32 word" where "O_RDWR = 0x002"
definition O_CREATE :: "32 word" where "O_CREATE = 0x200"

definition argfd :: "32 word \<Rightarrow> (nat \<times> nat) option kk" where
  "argfd n =
     kbind (argint n) (\<lambda>r.
     case r of None \<Rightarrow> kret None
     | Some w \<Rightarrow>
         kbind curp (\<lambda>p.
         if sint w < 0 \<or> sint w \<ge> int NOFILE then kret None
         else case p_ofile p ! nat (sint w) of None \<Rightarrow> kret None | Some f \<Rightarrow> kret (Some (nat (sint w), f))))"

definition fdalloc :: "nat \<Rightarrow> nat option kk" where
  "fdalloc f =
     kbind curp (\<lambda>p.
     case find_idx (\<lambda>x. x = None) (p_ofile p) of
       None \<Rightarrow> kret None
     | Some fd \<Rightarrow> kbind (modcur (\<lambda>p. p\<lparr>p_ofile := (p_ofile p)[fd := Some f]\<rparr>)) (\<lambda>_. kret (Some fd)))"

definition clearfd :: "nat \<Rightarrow> unit kk" where
  "clearfd fd = modcur (\<lambda>p. p\<lparr>p_ofile := (p_ofile p)[fd := None]\<rparr>)"

definition sys_dup :: "int kk" where
  "sys_dup =
     or_fail (argfd 0) (\<lambda>(_, f).
     or_fail (fdalloc f) (\<lambda>fd.
     kbind (filedup f) (\<lambda>_.
     kret (int fd))))"

definition sys_read :: "int kk" where
  "sys_read =
     or_fail (argfd 0) (\<lambda>(_, f).
     or_fail (argint 2) (\<lambda>n.
     or_fail (argptr 1 n) (\<lambda>p.
     fileread f p (sint n))))"

definition sys_write :: "int kk" where
  "sys_write =
     or_fail (argfd 0) (\<lambda>(_, f).
     or_fail (argint 2) (\<lambda>n.
     or_fail (argptr 1 n) (\<lambda>p.
     filewrite f p (sint n))))"

definition sys_close :: "int kk" where
  "sys_close =
     or_fail (argfd 0) (\<lambda>(fd, f).
     kbind (clearfd fd) (\<lambda>_.
     kbind (fileclose f) (\<lambda>_.
     kret 0)))"

definition sys_fstat :: "int kk" where
  "sys_fstat =
     or_fail (argfd 0) (\<lambda>(_, f).
     or_fail (argptr 1 20) (\<lambda>st.
     filestat f st))"

subsection \<open>Links\<close>

definition kname :: "byte list \<Rightarrow> nat option kk" where
  "kname path = kbind (kcwd path) (\<lambda>cwd. namei kdevsw cwd path)"

definition kparent :: "byte list \<Rightarrow> (nat \<times> byte list) option kk" where
  "kparent path = kbind (kcwd path) (\<lambda>cwd. nameiparent kdevsw cwd path)"

definition end_with :: "int \<Rightarrow> int kk" where
  "end_with r = kbind end_op (\<lambda>_. kret r)"

definition link_bad :: "nat \<Rightarrow> int kk" where
  "link_bad ip =
     kbind (ilock ip) (\<lambda>_.
     kbind (modinode ip (\<lambda>x. x\<lparr>i_nlink := i_nlink x - 1\<rparr>)) (\<lambda>_.
     kbind (iupdate ip) (\<lambda>_.
     kbind (iunlockput ip) (\<lambda>_.
     end_with (-1)))))"

definition sys_link :: "int kk" where
  "sys_link =
     or_fail (argstr 0) (\<lambda>old.
     or_fail (argstr 1) (\<lambda>new.
     kbind begin_op (\<lambda>_.
     kbind (kname old) (\<lambda>r.
     case r of None \<Rightarrow> end_with (-1)
     | Some ip \<Rightarrow>
         kbind (ilock ip) (\<lambda>_.
         kbind (getinode ip) (\<lambda>x.
         if i_type x = T_DIR then kbind (iunlockput ip) (\<lambda>_. end_with (-1))
         else
           kbind (modinode ip (\<lambda>x. x\<lparr>i_nlink := i_nlink x + 1\<rparr>)) (\<lambda>_.
           kbind (iupdate ip) (\<lambda>_.
           kbind (iunlock ip) (\<lambda>_.
           kbind (kparent new) (\<lambda>r.
           case r of None \<Rightarrow> link_bad ip
           | Some (dp, name) \<Rightarrow>
               kbind (ilock dp) (\<lambda>_.
               kbind (getinode dp) (\<lambda>d.
               kbind (getinode ip) (\<lambda>x.
               kbind (if i_dev d \<noteq> i_dev x then kret (-1) else dirlink kdevsw dp name (i_inum x)) (\<lambda>r.
               if r < 0 then kbind (iunlockput dp) (\<lambda>_. link_bad ip)
               else
                 kbind (iunlockput dp) (\<lambda>_.
                 kbind (iput ip) (\<lambda>_.
                 end_with 0))))))))))))))))"

text \<open>The entries of a directory behind \<open>.\<close> and \<open>..\<close>.\<close>

fun isdirempty_from :: "nat \<Rightarrow> nat list \<Rightarrow> bool kk" where
  "isdirempty_from dp [] = kret True"
| "isdirempty_from dp (off # offs) =
     kbind (readi kdevsw dp off DIRENT) (\<lambda>(r, de).
     if r \<noteq> int DIRENT then kpanic ''isdirempty: readi''
     else if de_inum de \<noteq> 0 then kret False
     else isdirempty_from dp offs)"

definition isdirempty :: "nat \<Rightarrow> bool kk" where
  "isdirempty dp = kbind (getinode dp) (\<lambda>d. isdirempty_from dp (drop 2 (dirent_offs (i_size d))))"

definition unlink_bad :: "nat \<Rightarrow> int kk" where
  "unlink_bad dp = kbind (iunlockput dp) (\<lambda>_. end_with (-1))"

definition sys_unlink :: "int kk" where
  "sys_unlink =
     or_fail (argstr 0) (\<lambda>path.
     kbind begin_op (\<lambda>_.
     kbind (kparent path) (\<lambda>r.
     case r of None \<Rightarrow> end_with (-1)
     | Some (dp, name) \<Rightarrow>
         kbind (ilock dp) (\<lambda>_.
         if namecmp name (str ''.'') = 0 \<or> namecmp name (str ''..'') = 0 then unlink_bad dp
         else
           kbind (dirlookup kdevsw dp name) (\<lambda>r.
           case r of None \<Rightarrow> unlink_bad dp
           | Some (ip, off) \<Rightarrow>
               kbind (ilock ip) (\<lambda>_.
               kbind (getinode ip) (\<lambda>x.
               if sint (i_nlink x) < 1 then kpanic ''unlink: nlink < 1''
               else
                 kbind (if i_type x = T_DIR then isdirempty ip else kret True) (\<lambda>e.
                 if \<not> e then kbind (iunlockput ip) (\<lambda>_. unlink_bad dp)
                 else
                   kbind (writei kdevsw dp (replicate DIRENT 0) off DIRENT) (\<lambda>r.
                   if r \<noteq> int DIRENT then kpanic ''unlink: writei''
                   else
                     kbind
                       (if i_type x = T_DIR then
                          kbind (modinode dp (\<lambda>d. d\<lparr>i_nlink := i_nlink d - 1\<rparr>)) (\<lambda>_. iupdate dp)
                        else kret ()) (\<lambda>_.
                     kbind (iunlockput dp) (\<lambda>_.
                     kbind (modinode ip (\<lambda>x. x\<lparr>i_nlink := i_nlink x - 1\<rparr>)) (\<lambda>_.
                     kbind (iupdate ip) (\<lambda>_.
                     kbind (iunlockput ip) (\<lambda>_.
                     end_with 0))))))))))))))"

subsection \<open>Creating and opening\<close>

text \<open>The entries \<open>.\<close> and \<open>..\<close> of a new directory.\<close>

definition create_dots :: "nat \<Rightarrow> nat \<Rightarrow> unit kk" where
  "create_dots dp ip =
     kbind (modinode dp (\<lambda>d. d\<lparr>i_nlink := i_nlink d + 1\<rparr>)) (\<lambda>_.
     kbind (iupdate dp) (\<lambda>_.
     kbind (getinode ip) (\<lambda>x.
     kbind (getinode dp) (\<lambda>d.
     kbind (dirlink kdevsw ip (str ''.'') (i_inum x)) (\<lambda>r.
     if r < 0 then kpanic ''create dots''
     else
       kbind (dirlink kdevsw ip (str ''..'') (i_inum d)) (\<lambda>r.
       if r < 0 then kpanic ''create dots'' else kret ()))))))"

definition create :: "byte list \<Rightarrow> 16 word \<Rightarrow> 16 word \<Rightarrow> 16 word \<Rightarrow> nat option kk" where
  "create path ty major minor =
     kbind (kparent path) (\<lambda>r.
     case r of None \<Rightarrow> kret None
     | Some (dp, name) \<Rightarrow>
         kbind (ilock dp) (\<lambda>_.
         kbind (dirlookup kdevsw dp name) (\<lambda>r.
         case r of
           Some (ip, _) \<Rightarrow>
             kbind (iunlockput dp) (\<lambda>_.
             kbind (ilock ip) (\<lambda>_.
             kbind (getinode ip) (\<lambda>x.
             if ty = T_FILE \<and> i_type x = T_FILE then kret (Some ip)
             else kbind (iunlockput ip) (\<lambda>_. kret None))))
         | None \<Rightarrow>
             kbind (getinode dp) (\<lambda>d.
             kbind (ialloc (i_dev d) ty) (\<lambda>ip.
             kbind (ilock ip) (\<lambda>_.
             kbind (modinode ip (\<lambda>x. x\<lparr>i_major := major, i_minor := minor, i_nlink := 1\<rparr>)) (\<lambda>_.
             kbind (iupdate ip) (\<lambda>_.
             kbind (if ty = T_DIR then create_dots dp ip else kret ()) (\<lambda>_.
             kbind (getinode ip) (\<lambda>x.
             kbind (dirlink kdevsw dp name (i_inum x)) (\<lambda>r.
             if r < 0 then kpanic ''create: dirlink''
             else
               kbind (iunlockput dp) (\<lambda>_.
               kret (Some ip)))))))))))))"

text \<open>The inode that \<open>sys_open\<close> opens, locked, or None after an error.\<close>

definition open_inode :: "byte list \<Rightarrow> 32 word \<Rightarrow> nat option kk" where
  "open_inode path omode =
     (if omode AND O_CREATE \<noteq> 0 then create path T_FILE 0 0
      else
        kbind (kname path) (\<lambda>r.
        case r of None \<Rightarrow> kret None
        | Some ip \<Rightarrow>
            kbind (ilock ip) (\<lambda>_.
            kbind (getinode ip) (\<lambda>x.
            if i_type x = T_DIR \<and> omode \<noteq> O_RDONLY then kbind (iunlockput ip) (\<lambda>_. kret None)
            else kret (Some ip)))))"

definition sys_open :: "int kk" where
  "sys_open =
     or_fail (argstr 0) (\<lambda>path.
     or_fail (argint 1) (\<lambda>omode.
     kbind begin_op (\<lambda>_.
     kbind (open_inode path omode) (\<lambda>r.
     case r of None \<Rightarrow> end_with (-1)
     | Some ip \<Rightarrow>
         kbind filealloc (\<lambda>fo.
         kbind (case fo of None \<Rightarrow> kret None | Some f \<Rightarrow> fdalloc f) (\<lambda>fdo.
         case (fo, fdo) of
           (Some f, Some fd) \<Rightarrow>
             kbind (iunlock ip) (\<lambda>_.
             kbind end_op (\<lambda>_.
             kbind (modfile f (\<lambda>x. x\<lparr>f_type := FD_INODE, f_ip := ip, f_off := 0, readable := (omode AND O_WRONLY = 0),
               writable := (omode AND O_WRONLY \<noteq> 0 \<or> omode AND O_RDWR \<noteq> 0)\<rparr>)) (\<lambda>_.
             kret (int fd))))
         | _ \<Rightarrow>
             kbind (case fo of Some f \<Rightarrow> fileclose f | None \<Rightarrow> kret ()) (\<lambda>_.
             kbind (iunlockput ip) (\<lambda>_.
             end_with (-1)))))))))"

definition or_end :: "'a option kk \<Rightarrow> ('a \<Rightarrow> int kk) \<Rightarrow> int kk" where
  "or_end m k = kbind m (\<lambda>r. case r of None \<Rightarrow> end_with (-1) | Some x \<Rightarrow> k x)"

definition sys_mkdir :: "int kk" where
  "sys_mkdir =
     kbind begin_op (\<lambda>_.
     or_end (argstr 0) (\<lambda>path.
     or_end (create path T_DIR 0 0) (\<lambda>ip.
     kbind (iunlockput ip) (\<lambda>_.
     end_with 0))))"

definition sys_mknod :: "int kk" where
  "sys_mknod =
     kbind begin_op (\<lambda>_.
     or_end (argstr 0) (\<lambda>path.
     or_end (argint 1) (\<lambda>major.
     or_end (argint 2) (\<lambda>minor.
     or_end (create path T_DEV (ucast major) (ucast minor)) (\<lambda>ip.
     kbind (iunlockput ip) (\<lambda>_.
     end_with 0))))))"

definition sys_chdir :: "int kk" where
  "sys_chdir =
     kbind begin_op (\<lambda>_.
     or_end (argstr 0) (\<lambda>path.
     or_end (kname path) (\<lambda>ip.
     kbind (ilock ip) (\<lambda>_.
     kbind (getinode ip) (\<lambda>x.
     if i_type x \<noteq> T_DIR then kbind (iunlockput ip) (\<lambda>_. end_with (-1))
     else
       kbind (iunlock ip) (\<lambda>_.
       kbind curp (\<lambda>p.
       kbind (case p_cwd p of None \<Rightarrow> kpanic ''undefined: null pointer'' | Some k \<Rightarrow> iput k) (\<lambda>_.
       kbind end_op (\<lambda>_.
       kbind (modcur (\<lambda>p. p\<lparr>p_cwd := Some ip\<rparr>)) (\<lambda>_.
       kret 0))))))))))"

text \<open>The loop of \<open>sys_exec\<close> over the argument vector at \<open>uargv\<close>, with room for \<open>n\<close> more entries.\<close>

fun fetch_args :: "nat \<Rightarrow> 32 word \<Rightarrow> byte list list option kk" where
  "fetch_args 0 uargv = kret None"
| "fetch_args (Suc n) uargv =
     kbind (fetchint uargv) (\<lambda>r.
     case r of None \<Rightarrow> kret None
     | Some uarg \<Rightarrow>
         if uarg = 0 then kret (Some [])
         else
           kbind (fetchstr uarg) (\<lambda>r.
           case r of None \<Rightarrow> kret None
           | Some a \<Rightarrow>
               kbind (fetch_args n (uargv + 4)) (\<lambda>as.
               kret (map_option (Cons a) as))))"

definition sys_exec :: "int kk" where
  "sys_exec =
     or_fail (argstr 0) (\<lambda>path.
     or_fail (argint 1) (\<lambda>uargv.
     or_fail (fetch_args MAXARG uargv) (\<lambda>argv.
     exec path argv)))"

definition sys_pipe :: "int kk" where
  "sys_pipe =
     or_fail (argptr 0 8) (\<lambda>fd.
     or_fail pipealloc (\<lambda>(rf, wf).
     kbind (fdalloc rf) (\<lambda>r0.
     kbind (case r0 of None \<Rightarrow> kret None | Some _ \<Rightarrow> fdalloc wf) (\<lambda>r1.
     case (r0, r1) of
       (Some fd0, Some fd1) \<Rightarrow>
         kbind (copy_to fd (enc32 (of_nat fd0))) (\<lambda>_.
         kbind (copy_to (fd + 4) (enc32 (of_nat fd1))) (\<lambda>_.
         kret 0))
     | _ \<Rightarrow>
         kbind (case r0 of Some fd0 \<Rightarrow> clearfd fd0 | None \<Rightarrow> kret ()) (\<lambda>_.
         kbind (fileclose rf) (\<lambda>_.
         kbind (fileclose wf) (\<lambda>_.
         kret (-1))))))))"

end
