(* ===== verification/Frame.thy ===== *)
theory Frame
  imports Sysfile
begin

text \<open>
  What the lower layers leave alone. A view of the kernel state that does not depend on memory, disk, log, inodes or console is
  kept by every routine of \<open>kalloc.c\<close>, \<open>vm.c\<close>, \<open>bio.c\<close>, \<open>log.c\<close> and \<open>fs.c\<close>, whether it returns or sleeps; none of them
  switches to the scheduler otherwise. The
  lemmas are proved once, for any such view, and used for the process table and for the file table.
\<close>

definition keeps :: "('s \<Rightarrow> 'b) \<Rightarrow> ('s, 'a) kern \<Rightarrow> bool" where
  "keeps f m \<longleftrightarrow> (\<forall>s. case m s of Ret x t \<Rightarrow> f t = f s | Panic e \<Rightarrow> True | Block ch t \<Rightarrow> ch \<noteq> ChanSched \<and> f t = f s)"

named_theorems keeps_intros \<open>rules for routines that keep a view\<close>

lemma keeps_simple [keeps_intros]:
  "keeps f (kret x)" "keeps f (kpanic e)" "keeps f (kget g)" "keeps f (\<lambda>s. Panic e)"
  "keeps f (ksleep (ChanBuf b))" "keeps f (ksleep ChanLog)" "keeps f (ksleep (ChanInode k))" "keeps f (ksleep (ChanPipeRead p))"
  "keeps f (ksleep (ChanPipeWrite p))" "keeps f (ksleep ChanInput)" "keeps f (ksleep ChanTicks)" "keeps f (ksleep (ChanProc i))"
  by (simp_all add: keeps_def kret_apply)

lemma keeps_kmod: "(\<And>s. f (u s) = f s) \<Longrightarrow> keeps f (kmod u)"
  by (simp add: keeps_def)

lemma keeps_kbind [keeps_intros]:
  assumes m: "keeps f m" and k: "\<And>x. keeps f (k x)"
  shows "keeps f (kbind m k)"
  unfolding keeps_def
proof
  fix s
  show "case kbind m k s of Ret x t \<Rightarrow> f t = f s | Panic e \<Rightarrow> True | Block ch t \<Rightarrow> ch \<noteq> ChanSched \<and> f t = f s"
  proof (cases "m s")
    case (Ret x t)
    then have "f t = f s" using m by (auto simp: keeps_def dest: spec [of _ s])
    moreover have "case k x t of Ret y u \<Rightarrow> f u = f t | Panic e \<Rightarrow> True | Block ch u \<Rightarrow> ch \<noteq> ChanSched \<and> f u = f t"
      using k [of x] by (simp add: keeps_def)
    ultimately show ?thesis using Ret by (simp add: kbind_def split: kres.splits)
  next
    case (Block ch t)
    then have "ch \<noteq> ChanSched \<and> f t = f s" using m by (auto simp: keeps_def dest: spec [of _ s])
    then show ?thesis using Block by (simp add: kbind_def)
  qed (simp add: kbind_def)
qed

lemma keeps_if [keeps_intros]:
  "(b \<Longrightarrow> keeps f m) \<Longrightarrow> (\<not> b \<Longrightarrow> keeps f n) \<Longrightarrow> keeps f (if b then m else n)"
  by simp

lemma keeps_option [keeps_intros]:
  "(x = None \<Longrightarrow> keeps f m) \<Longrightarrow> (\<And>y. x = Some y \<Longrightarrow> keeps f (k y)) \<Longrightarrow> keeps f (case x of None \<Rightarrow> m | Some y \<Rightarrow> k y)"
  by (simp split: option.split)

lemma keeps_prod [keeps_intros]:
  "(\<And>a b. x = (a, b) \<Longrightarrow> keeps f (k a b)) \<Longrightarrow> keeps f (case x of (a, b) \<Rightarrow> k a b)"
  by (simp split: prod.split)

lemma keeps_nat [keeps_intros]:
  "keeps f m \<Longrightarrow> (\<And>i. n = Suc i \<Longrightarrow> keeps f (k i)) \<Longrightarrow> keeps f (case n of 0 \<Rightarrow> m | Suc i \<Rightarrow> k i)"
  by (simp split: nat.split)

lemma keeps_Let [keeps_intros]: "keeps f (k v) \<Longrightarrow> keeps f (Let v k)"
  by simp

locale upper_view =
  fixes f :: "kernel_state \<Rightarrow> 'b"
  assumes indep [simp]:
    "\<And>u s. f (wakeups_update u s) = f s" "\<And>u s. f (cons_out_update u s) = f s" "\<And>u s. f (pages_update u s) = f s"
    "\<And>u s. f (use_lock_update u s) = f s" "\<And>u s. f (freelist_update u s) = f s" "\<And>u s. f (free_frame_cnt_update u s) = f s"
    "\<And>u s. f (disk_update u s) = f s" "\<And>u s. f (disk_log_update u s) = f s" "\<And>u s. f (bufs_update u s) = f s"
    "\<And>u s. f (lru_update u s) = f s" "\<And>u s. f (lg_start_update u s) = f s" "\<And>u s. f (lg_size_update u s) = f s"
    "\<And>u s. f (outstanding_update u s) = f s" "\<And>u s. f (committing_update u s) = f s" "\<And>u s. f (lg_dev_update u s) = f s"
    "\<And>u s. f (lh_update u s) = f s" "\<And>u s. f (fs_sb_update u s) = f s" "\<And>u s. f (icache_update u s) = f s"
    "\<And>u s. f (cons_in_update u s) = f s"
begin

lemma keeps_mod [keeps_intros]:
  "keeps f (kmod (set_page p bs))" "keeps f (kmod (\<lambda>s. set_page q (g s) s))"
  "keeps f (kwakeup ch)" "keeps f (consputc c)"
  by (simp_all add: keeps_kmod set_page_def kwakeup_def consputc_def)

lemma keeps_cprintf [keeps_intros]: "keeps f (cprintf fmt args)"
  by (auto simp: cprintf_def keeps_kmod intro!: keeps_intros split: option.split)

lemma keeps_kalloc [keeps_intros]: "keeps f kalloc" "keeps f (kfree v)"
  by (auto simp: kalloc_def kfree_def Let_def intro!: keeps_intros keeps_kmod)

lemma keeps_mem [keeps_intros]:
  "keeps f (ldl a)" "keeps f (stl a w)" "keeps f (zero_page v)" "keeps f (put_bytes v bs)"
  by (auto simp: ldl_def stl_def zero_page_def put_bytes_def intro!: keeps_intros)

lemma keeps_walkpgdir [keeps_intros]: "keeps f (walkpgdir pgdir va al)"
  unfolding walkpgdir_def by (intro keeps_intros)

lemma keeps_mappages [keeps_intros]: "keeps f (mappages_loop pgdir n a pa perm)" "keeps f (mappages pgdir va sz pa perm)"
proof -
  show l: "keeps f (mappages_loop pgdir n a pa perm)" for pgdir n a pa perm
  proof (induction n arbitrary: a pa)
    case 0
    show ?case by (subst mappages_loop.simps) (auto intro!: keeps_intros)
  next
    case (Suc n)
    show ?case by (subst mappages_loop.simps) (auto intro!: keeps_intros Suc)
  qed
  show "keeps f (mappages pgdir va sz pa perm)" by (auto simp: mappages_def Let_def intro!: l keeps_intros)
qed

lemma keeps_setupkvm [keeps_intros]: "keeps f setupkvm"
proof -
  have l: "keeps f (setupkvm_loop pgdir ks)" for pgdir ks
    by (induction pgdir ks rule: setupkvm_loop.induct) (auto intro!: keeps_intros)
  show ?thesis unfolding setupkvm_def by (intro l keeps_intros)
qed

lemma keeps_deallocuvm [keeps_intros]: "keeps f (deallocuvm pgdir old new)"
proof -
  have l: "keeps f (deallocuvm_loop pgdir a old)" for pgdir a old
  proof (induction pgdir a old rule: deallocuvm_loop.induct)
    case (1 pgdir a old)
    show ?case by (subst deallocuvm_loop.simps) (intro keeps_intros 1; assumption)
  qed
  show ?thesis unfolding deallocuvm_def by (intro l keeps_intros)
qed

lemma keeps_allocuvm [keeps_intros]: "keeps f (allocuvm pgdir old new)"
proof -
  have l: "keeps f (allocuvm_loop pgdir a old new)" for pgdir a old new
  proof (induction pgdir a old new rule: allocuvm_loop.induct)
    case (1 pgdir a old new)
    show ?case by (subst allocuvm_loop.simps) (intro keeps_intros 1; assumption)
  qed
  show ?thesis unfolding allocuvm_def by (intro l keeps_intros)
qed

lemma keeps_freevm [keeps_intros]: "keeps f (freevm pgdir)"
proof -
  have l: "keeps f (freevm_loop pgdir is)" for pgdir "is"
    by (induction pgdir "is" rule: freevm_loop.induct) (auto intro!: keeps_intros)
  show ?thesis unfolding freevm_def by (intro l keeps_intros)
qed

lemma keeps_copyuvm [keeps_intros]: "keeps f (copyuvm pgdir sz)"
proof -
  have l: "keeps f (copyuvm_loop pgdir d i sz)" for pgdir d i sz
  proof (induction pgdir d i sz rule: copyuvm_loop.induct)
    case (1 pgdir d i sz)
    show ?case by (subst copyuvm_loop.simps) (intro keeps_intros 1; assumption)
  qed
  show ?thesis unfolding copyuvm_def by (intro l keeps_intros)
qed

lemma keeps_copyout [keeps_intros]: "keeps f (copyout pgdir va buf)"
proof (induction pgdir va buf rule: copyout.induct)
  case (1 pgdir va buf)
  show ?case by (subst copyout.simps) (auto simp: Let_def uva2ka_def intro!: keeps_intros 1)
qed

lemma keeps_uvm [keeps_intros]: "keeps f (inituvm pgdir code)" "keeps f (clearpteu pgdir va)"
  unfolding inituvm_def clearpteu_def by (auto intro!: keeps_intros)

text \<open>Buffers and the log.\<close>

lemma keeps_buf [keeps_intros]: "keeps f (getbuf i)" "keeps f (modbuf i g)" "keeps f (bdata i)" "keeps f (bset i h)"
  by (auto simp: getbuf_def modbuf_def bdata_def bset_def upd_buf_def intro!: keeps_intros keeps_kmod)

lemma keeps_bio [keeps_intros]: "keeps f (bread dev b)" "keeps f (bwrite i)" "keeps f (brelse i)"
  by (auto simp: bread_def bget_def bwrite_def brelse_def iderw_def Let_def upd_buf_def intro!: keeps_intros keeps_kmod)

lemma keeps_log_write [keeps_intros]: "keeps f (log_write i)" "keeps f (readsb dev)"
  by (auto simp: log_write_def readsb_def intro!: keeps_intros keeps_kmod)

lemma keeps_commit [keeps_intros]: "keeps f commit"
proof -
  have i: "keeps f (install_from dev st n bs)" for dev st n bs
    by (induction dev st n bs rule: install_from.induct) (auto intro!: keeps_intros keeps_kmod)
  have w: "keeps f (write_log_from dev st n bs)" for dev st n bs
    by (induction dev st n bs rule: write_log_from.induct) (auto intro!: keeps_intros keeps_kmod)
  show ?thesis
    unfolding commit_def write_log_def install_trans_def write_head_def
    by (auto intro!: i w keeps_intros keeps_kmod)
qed

lemma keeps_op [keeps_intros]: "keeps f begin_op" "keeps f end_op"
  by (auto simp: begin_op_def end_op_def Let_def intro!: keeps_intros keeps_kmod)

text \<open>Inodes.\<close>

lemma keeps_inode [keeps_intros]: "keeps f (getinode k)" "keeps f (modinode k g)"
  by (simp_all add: getinode_def modinode_def keeps_intros keeps_kmod)

lemma keeps_balloc [keeps_intros]: "keeps f (balloc dev)" "keeps f (bfree dev b)"
proof -
  have z: "keeps f (bzero dev b)" for dev b unfolding bzero_def by (intro keeps_intros)
  have l: "keeps f (balloc_from dev sb b)" for dev sb b
  proof (induction dev sb b rule: balloc_from.induct)
    case (1 dev sb b)
    show ?case by (subst balloc_from.simps) (auto intro!: keeps_intros z 1)
  qed
  show "keeps f (balloc dev)" "keeps f (bfree dev b)"
    by (auto simp: balloc_def bfree_def Let_def intro!: l keeps_intros keeps_kmod)
qed

lemma keeps_icache [keeps_intros]:
  "keeps f (iupdate k)" "keeps f (iget dev i)" "keeps f (idup k)" "keeps f (ilock k)" "keeps f (iunlock k)" "keeps f (stati k)"
  by (auto simp: iupdate_def iget_def idup_def ilock_def iunlock_def stati_def intro!: keeps_intros keeps_kmod)

lemma keeps_ialloc [keeps_intros]: "keeps f (ialloc dev ty)"
proof -
  have "keeps f (ialloc_from dev ty sb is)" for dev ty sb "is"
    by (induction dev ty sb "is" rule: ialloc_from.induct) (auto intro!: keeps_intros)
  then show ?thesis unfolding ialloc_def by (intro keeps_intros)
qed

lemma keeps_iput [keeps_intros]: "keeps f (iput k)" "keeps f (iunlockput k)" "keeps f (bmap k bn)"
proof -
  have d: "keeps f (itrunc_direct k is)" for k "is"
    by (induction k "is" rule: itrunc_direct.induct) (auto intro!: keeps_intros)
  have i: "keeps f (itrunc_indirect dev d js)" for dev d js
    by (induction dev d js rule: itrunc_indirect.induct) (auto intro!: keeps_intros)
  have "keeps f (itrunc k)" for k
    unfolding itrunc_def by (auto intro!: d i keeps_intros)
  then show "keeps f (iput k)" "keeps f (iunlockput k)" by (auto simp: iput_def iunlockput_def intro!: keeps_intros)
  show "keeps f (bmap k bn)" by (auto simp: bmap_def Let_def intro!: keeps_intros)
qed

text \<open>The console device, file contents, directories and paths.\<close>

lemma keeps_proc [keeps_intros]: "keeps f myproc" "keeps f (getproc i)" "keeps f curp"
  by (auto simp: myproc_def getproc_def curp_def intro!: keeps_intros)

lemma keeps_consputs [keeps_intros]: "keeps f (consputs cs)"
  by (induction cs) (auto intro!: keeps_intros)

lemma keeps_set_input [keeps_intros]: "keeps f (set_input i)"
  by (simp add: set_input_def keeps_kmod)

lemma keeps_console [keeps_intros]: "keeps f (consoleread k n)" "keeps f (consolewrite k bs n)"
proof -
  have "keeps f (consoleread_loop tg m)" for tg m
    by (induction tg m rule: consoleread_loop.induct) (auto simp: get_input_def intro!: keeps_intros)
  then show "keeps f (consoleread k n)" "keeps f (consolewrite k bs n)"
    by (auto simp: consoleread_def consolewrite_def Let_def intro!: keeps_intros)
qed

lemma keeps_kdevsw:
  "dev_read kdevsw m = Some rd \<Longrightarrow> keeps f (rd k n)" "dev_write kdevsw m = Some wr \<Longrightarrow> keeps f (wr k bs n)"
  by (auto simp: kdevsw_def keeps_intros split: if_splits)

lemma keeps_readi [keeps_intros]: "keeps f (readi kdevsw k off n)"
proof -
  have l: "keeps f (readi_loop k off n)" for k off n
  proof (induction k off n rule: readi_loop.induct)
    case (1 k off n)
    show ?case by (subst readi_loop.simps) (auto simp: Let_def intro!: keeps_intros 1)
  qed
  show ?thesis by (auto simp: readi_def Let_def intro!: l keeps_intros intro: keeps_kdevsw)
qed

lemma keeps_writei [keeps_intros]: "keeps f (writei kdevsw k bs off n)"
proof -
  have l: "keeps f (writei_loop k bs off n)" for k bs off n
  proof (induction k bs off n rule: writei_loop.induct)
    case (1 k bs off n)
    show ?case by (subst writei_loop.simps) (auto simp: Let_def intro!: keeps_intros 1)
  qed
  show ?thesis by (auto simp: writei_def Let_def intro!: l keeps_intros intro: keeps_kdevsw)
qed

lemma keeps_dirlookup [keeps_intros]: "keeps f (dirlookup kdevsw dp name)"
proof -
  have "keeps f (dirlookup_from kdevsw dp name offs)" for dp name offs
    by (induction "kdevsw" dp name offs rule: dirlookup_from.induct) (auto intro!: keeps_intros)
  then show ?thesis by (auto simp: dirlookup_def intro!: keeps_intros)
qed

lemma keeps_dirlink [keeps_intros]: "keeps f (dirlink kdevsw dp name inum)"
proof -
  have "keeps f (dirlink_slot kdevsw dp offs off)" for dp offs off
    by (induction "kdevsw" dp offs off rule: dirlink_slot.induct) (auto intro!: keeps_intros)
  then show ?thesis by (auto simp: dirlink_def intro!: keeps_intros)
qed

lemma keeps_namei [keeps_intros]: "keeps f (namei kdevsw cwd path)" "keeps f (nameiparent kdevsw cwd path)"
proof -
  have l: "keeps f (namex_loop kdevsw parent k path nm)" for parent k path nm
  proof (induction "kdevsw" parent k path nm rule: namex_loop.induct)
    case (1 parent k path nm)
    show ?case by (subst namex_loop.simps) (auto intro!: keeps_intros 1)
  qed
  show "keeps f (namei kdevsw cwd path)" "keeps f (nameiparent kdevsw cwd path)"
    by (auto simp: namei_def nameiparent_def namex_def intro!: l keeps_intros)
qed

lemma keeps_paths [keeps_intros]:
  "keeps f (kcwd path)" "keeps f (kname path)" "keeps f (kparent path)" "keeps f (end_with r)"
  by (auto simp: kcwd_def kname_def kparent_def end_with_def intro!: keeps_intros)

text \<open>The parts of \<open>exec\<close> before it commits, and the work of the file-system calls between the fetching of the arguments and the files.\<close>

lemma keeps_load [keeps_intros]: "keeps f (load_segments pgdir ip n off sz)"
proof -
  have l: "keeps f (loaduvm_loop pgdir addr ip offset sz i)" for pgdir addr ip offset sz i
  proof (induction pgdir addr ip offset sz i rule: loaduvm_loop.induct)
    case (1 pgdir addr ip offset sz i)
    show ?case by (subst loaduvm_loop.simps) (auto simp: Let_def intro!: keeps_intros 1)
  qed
  show ?thesis
    by (induction pgdir ip n off sz rule: load_segments.induct) (auto simp: loaduvm_def Let_def intro!: l keeps_intros)
qed

lemma keeps_stack [keeps_intros]: "keeps f (build_stack pgdir sz argv)" "keeps f (exec_bad pgdir ip)"
proof -
  have "keeps f (push_args pgdir sp as n)" for pgdir sp as n
    by (induction pgdir sp as n rule: push_args.induct) (auto simp: Let_def intro!: keeps_intros)
  then show "keeps f (build_stack pgdir sz argv)" "keeps f (exec_bad pgdir ip)"
    by (auto simp: build_stack_def exec_bad_def Let_def intro!: keeps_intros)
qed

lemma keeps_dirempty [keeps_intros]: "keeps f (isdirempty dp)"
proof -
  have "keeps f (isdirempty_from dp offs)" for dp offs
    by (induction dp offs rule: isdirempty_from.induct) (auto intro!: keeps_intros)
  then show ?thesis by (auto simp: isdirempty_def intro!: keeps_intros)
qed

lemma keeps_create [keeps_intros]:
  "keeps f (create path ty major minor)" "keeps f (open_inode path omode)" "keeps f (link_bad ip)" "keeps f (unlink_bad dp)"
proof -
  show c: "keeps f (create path ty major minor)" for path ty major minor
    unfolding create_def create_dots_def by (intro keeps_intros)
  show "keeps f (open_inode path omode)" "keeps f (link_bad ip)" "keeps f (unlink_bad dp)"
    by (auto simp: open_inode_def link_bad_def unlink_bad_def intro!: c keeps_intros)
qed

lemma keeps_init [keeps_intros]: "keeps f (iinit dev)" "keeps f (initlog dev)"
proof -
  have "keeps f (install_from d st n bs)" for d st n bs
    by (induction d st n bs rule: install_from.induct) (auto intro!: keeps_intros)
  then show "keeps f (iinit dev)" "keeps f (initlog dev)"
    by (auto simp: iinit_def initlog_def recover_from_log_def read_head_def write_head_def install_trans_def
        intro!: keeps_intros keeps_kmod)
qed

end

end
