(* ===== verification/Trap.thy ===== *)
theory Trap
  imports Sysfile
begin

text \<open>
  Traps: the system-call table and its dispatch, \<open>syscall.c\<close>, and the gate descriptors and the handler of \<open>trap.c\<close>. What the
  keyboard and the serial port deliver is an argument, as the characters their \<open>getc\<close> returns. The disk of the model has
  no interrupts (\<open>memide.c\<close>), and acknowledging an interrupt to the local APIC changes no modelled state.
\<close>

subsection \<open>System calls\<close>

definition SYS_fork :: int where "SYS_fork = 1"
definition SYS_exit :: int where "SYS_exit = 2"
definition SYS_wait :: int where "SYS_wait = 3"
definition SYS_pipe :: int where "SYS_pipe = 4"
definition SYS_read :: int where "SYS_read = 5"
definition SYS_kill :: int where "SYS_kill = 6"
definition SYS_exec :: int where "SYS_exec = 7"
definition SYS_fstat :: int where "SYS_fstat = 8"
definition SYS_chdir :: int where "SYS_chdir = 9"
definition SYS_dup :: int where "SYS_dup = 10"
definition SYS_getpid :: int where "SYS_getpid = 11"
definition SYS_sbrk :: int where "SYS_sbrk = 12"
definition SYS_sleep :: int where "SYS_sleep = 13"
definition SYS_uptime :: int where "SYS_uptime = 14"
definition SYS_open :: int where "SYS_open = 15"
definition SYS_write :: int where "SYS_write = 16"
definition SYS_mknod :: int where "SYS_mknod = 17"
definition SYS_unlink :: int where "SYS_unlink = 18"
definition SYS_link :: int where "SYS_link = 19"
definition SYS_mkdir :: int where "SYS_mkdir = 20"
definition SYS_close :: int where "SYS_close = 21"
definition SYS_print_free_frame_cnt :: int where "SYS_print_free_frame_cnt = 23"
definition SYS_set_page_allocator :: int where "SYS_set_page_allocator = 24"
definition SYS_shmget :: int where "SYS_shmget = 25"
definition SYS_shmdel :: int where "SYS_shmdel = 26"

lemmas SYS_defs = SYS_fork_def SYS_exit_def SYS_wait_def SYS_pipe_def SYS_read_def SYS_kill_def SYS_exec_def SYS_fstat_def SYS_chdir_def SYS_dup_def SYS_getpid_def SYS_sbrk_def SYS_sleep_def SYS_uptime_def SYS_open_def SYS_write_def SYS_mknod_def SYS_unlink_def SYS_link_def SYS_mkdir_def SYS_close_def SYS_print_free_frame_cnt_def SYS_set_page_allocator_def SYS_shmget_def SYS_shmdel_def

definition syscalls :: "32 word \<Rightarrow> (int \<times> int kk) list" where
  "syscalls fr =
     [(SYS_fork, sys_fork fr),
      (SYS_exit, sys_exit),
      (SYS_wait, sys_wait),
      (SYS_pipe, sys_pipe),
      (SYS_read, sys_read),
      (SYS_kill, sys_kill),
      (SYS_exec, sys_exec),
      (SYS_fstat, sys_fstat),
      (SYS_chdir, sys_chdir),
      (SYS_dup, sys_dup),
      (SYS_getpid, sys_getpid),
      (SYS_sbrk, sys_sbrk),
      (SYS_sleep, sys_sleep),
      (SYS_uptime, sys_uptime),
      (SYS_open, sys_open),
      (SYS_write, sys_write),
      (SYS_mknod, sys_mknod),
      (SYS_unlink, sys_unlink),
      (SYS_link, sys_link),
      (SYS_mkdir, sys_mkdir),
      (SYS_close, sys_close),
      (SYS_print_free_frame_cnt, sys_print_free_frame_cnt),
      (SYS_set_page_allocator, sys_set_page_allocator),
      (SYS_shmget, sys_shmget),
      (SYS_shmdel, sys_shmdel)]"

definition syscall :: "32 word \<Rightarrow> unit kk" where
  "syscall fr =
     kbind curp (\<lambda>p.
     let num = sint (tf_eax (p_tf p)) in
     case (if num > 0 then map_of (syscalls fr) num else None) of
       Some f \<Rightarrow>
         kbind f (\<lambda>r.
         modcur (\<lambda>p. p\<lparr>p_tf := (p_tf p)\<lparr>tf_eax := word_of_int r\<rparr>\<rparr>))
     | None \<Rightarrow>
         kbind (cprintf (''%d %s: unknown sys call %d'' @ [CHR 0x0A])
           [pint (word_of_int (p_pid p)), pstr (takeWhile (\<lambda>c. c \<noteq> 0) (p_name p)), pint (word_of_int num)]) (\<lambda>_.
         modcur (\<lambda>p. p\<lparr>p_tf := (p_tf p)\<lparr>tf_eax := -1\<rparr>\<rparr>)))"

subsection \<open>Gates\<close>

definition T_PGFLT :: "32 word" where "T_PGFLT = 14"
definition T_SYSCALL :: "32 word" where "T_SYSCALL = 64"
definition T_IRQ0 :: "32 word" where "T_IRQ0 = 32"
definition IRQ_TIMER :: "32 word" where "IRQ_TIMER = 0"
definition IRQ_KBD :: "32 word" where "IRQ_KBD = 1"
definition IRQ_COM1 :: "32 word" where "IRQ_COM1 = 4"
definition IRQ_IDE :: "32 word" where "IRQ_IDE = 14"
definition IRQ_ERROR :: "32 word" where "IRQ_ERROR = 19"
definition IRQ_SPURIOUS :: "32 word" where "IRQ_SPURIOUS = 31"

lemmas trapno_defs = T_PGFLT_def T_SYSCALL_def T_IRQ0_def IRQ_TIMER_def IRQ_KBD_def IRQ_COM1_def IRQ_IDE_def
  IRQ_ERROR_def IRQ_SPURIOUS_def

record gatedesc =
  off_15_0 :: "16 word"
  gd_cs :: "16 word"
  gd_args :: "5 word"
  gd_rsv1 :: "3 word"
  gd_type :: "4 word"
  gd_s :: "1 word"
  gd_dpl :: "2 word"
  gd_p :: "1 word"
  off_31_16 :: "16 word"

definition SETGATE :: "bool \<Rightarrow> 16 word \<Rightarrow> 32 word \<Rightarrow> 2 word \<Rightarrow> gatedesc" where
  "SETGATE istrap sel off d =
     \<lparr>off_15_0 = ucast (off AND 0xffff), gd_cs = sel, gd_args = 0, gd_rsv1 = 0,
      gd_type = (if istrap then STS_TG32 else STS_IG32), gd_s = 0, gd_dpl = d, gd_p = 1,
      off_31_16 = ucast (drop_bit 16 off)\<rparr>"

definition tvinit :: "(nat \<Rightarrow> 32 word) \<Rightarrow> gatedesc list" where
  "tvinit vectors =
     (map (\<lambda>i. SETGATE False (push_bit 3 (of_nat SEG_KCODE)) (vectors i) 0) [0..<256])
       [unat T_SYSCALL := SETGATE True (push_bit 3 (of_nat SEG_KCODE)) (vectors (unat T_SYSCALL)) (ucast DPL_USER)]"

subsection \<open>The handler\<close>

definition trap_exit_killed :: "trapframe \<Rightarrow> unit kk" where
  "trap_exit_killed tf =
     kbind (kget curproc) (\<lambda>c.
     case c of None \<Rightarrow> kret ()
     | Some i \<Rightarrow>
         kbind (getproc i) (\<lambda>p. if p_killed p \<and> tf_cs tf AND 3 = DPL_USER then exit else kret ()))"

definition trap_timer :: "unit kk" where
  "trap_timer =
     kbind (kget cpu_of) (\<lambda>c.
     if c_id c = 0 then kbind (kmod (\<lambda>s. s\<lparr>ticks := ticks s + 1\<rparr>)) (\<lambda>_. wakeup ChanTicks)
     else kret ())"

definition trap_other :: "trapframe \<Rightarrow> unit kk" where
  "trap_other tf =
     kbind (kget cpu_of) (\<lambda>c.
     kbind (kget curproc) (\<lambda>cp.
     if cp = None \<or> tf_cs tf AND 3 = 0 then
       kbind (cprintf (''unexpected trap %d from cpu %d eip %x (cr2=0x%x)'' @ [CHR 0x0A])
         [pint (tf_trapno tf), pint (of_nat (c_id c)), pint (tf_eip tf), pint (c_cr2 c)]) (\<lambda>_.
       kpanic ''trap'')
     else
       kbind curp (\<lambda>p.
       kbind (cprintf (''pid %d %s: trap %d err %d on cpu %d eip 0x%x addr 0x%x--kill proc'' @ [CHR 0x0A])
         [pint (word_of_int (p_pid p)), pstr (takeWhile (\<lambda>c. c \<noteq> 0) (p_name p)), pint (tf_trapno tf), pint (tf_err tf),
          pint (of_nat (c_id c)), pint (tf_eip tf), pint (c_cr2 c)]) (\<lambda>_.
       modcur (\<lambda>p. p\<lparr>p_killed := True\<rparr>)))))"

definition trap_irq :: "trapframe \<Rightarrow> int list \<Rightarrow> int list \<Rightarrow> unit kk" where
  "trap_irq tf kbd com1 =
     (let n = tf_trapno tf in
      if n = T_IRQ0 + IRQ_TIMER then trap_timer
      else if n = T_IRQ0 + IRQ_IDE then kret ()
      else if n = T_IRQ0 + IRQ_IDE + 1 then kret ()
      else if n = T_IRQ0 + IRQ_KBD then consoleintr kbd
      else if n = T_IRQ0 + IRQ_COM1 then consoleintr com1
      else if n = T_IRQ0 + 7 \<or> n = T_IRQ0 + IRQ_SPURIOUS then
        kbind (kget cpu_of) (\<lambda>c.
        cprintf (''cpu%d: spurious interrupt at %x:%x'' @ [CHR 0x0A])
          [pint (of_nat (c_id c)), pint (ucast (tf_cs tf)), pint (tf_eip tf)])
      else trap_other tf)"

definition trap :: "32 word \<Rightarrow> int list \<Rightarrow> int list \<Rightarrow> trapframe \<Rightarrow> unit kk" where
  "trap fr kbd com1 tf =
     (if tf_trapno tf = T_SYSCALL then
        kbind curp (\<lambda>p.
        kbind (if p_killed p then exit else kret ()) (\<lambda>_.
        kbind (modcur (\<lambda>p. p\<lparr>p_tf := tf\<rparr>)) (\<lambda>_.
        kbind (syscall fr) (\<lambda>_.
        kbind curp (\<lambda>p.
        if p_killed p then exit else kret ())))))
      else if tf_trapno tf = T_PGFLT then
        kbind (kget cpu_of) (\<lambda>c. trap_pgflt (c_cr2 c))
      else
        kbind (trap_irq tf kbd com1) (\<lambda>_.
        kbind (trap_exit_killed tf) (\<lambda>_.
        kbind (kget curproc) (\<lambda>c.
        kbind
          (case c of None \<Rightarrow> kret ()
           | Some i \<Rightarrow>
               kbind (getproc i) (\<lambda>p.
               if p_state p = RUNNING \<and> tf_trapno tf = T_IRQ0 + IRQ_TIMER then yield else kret ())) (\<lambda>_.
        trap_exit_killed tf)))))"

end
