(* ===== verification/Procinv.thy ===== *)
theory Procinv
  imports Frame Trap
begin

text \<open>
  The invariant of the process table, and that every trap keeps it: every system call, the handling of interrupts and
  page faults, and the switch away from a process. It says that only the current process is RUNNING, that process identifiers are
  unique, that a sleeping process has a channel, and that the parent of a process is alive, \<open>init\<close> included.
\<close>

definition alive :: "proc \<Rightarrow> bool" where
  "alive p \<longleftrightarrow> p_state p = SLEEPING \<or> p_state p = RUNNABLE \<or> p_state p = RUNNING"

text \<open>What the invariant says of one slot, given the rest of the table.\<close>

definition slot_ok :: "proc list \<Rightarrow> int \<Rightarrow> nat option \<Rightarrow> nat \<Rightarrow> bool" where
  "slot_ok ps n cur i \<longleftrightarrow>
     (p_state (ps ! i) = RUNNING \<longrightarrow> cur = Some i) \<and>
     (p_state (ps ! i) \<noteq> UNUSED \<longrightarrow> 0 < p_pid (ps ! i) \<and> p_pid (ps ! i) < n) \<and>
     (p_state (ps ! i) = SLEEPING \<longrightarrow> p_chan (ps ! i) \<noteq> None) \<and>
     (\<forall>j. p_parent (ps ! i) = Some j \<longrightarrow> p_state (ps ! i) \<noteq> UNUSED \<and> j < length ps \<and> alive (ps ! j))"

definition distinct_pids :: "proc list \<Rightarrow> bool" where
  "distinct_pids ps \<longleftrightarrow> (\<forall>i<length ps. \<forall>j<length ps.
     p_state (ps ! i) \<noteq> UNUSED \<and> p_state (ps ! j) \<noteq> UNUSED \<and> p_pid (ps ! i) = p_pid (ps ! j) \<longrightarrow> i = j)"

definition tab_inv :: "kernel_state \<Rightarrow> bool" where
  "tab_inv s \<longleftrightarrow> length (ptable s) = NPROC \<and> 0 < nextpid s \<and>
     (\<forall>i<NPROC. slot_ok (ptable s) (nextpid s) (curproc s) i) \<and> distinct_pids (ptable s) \<and>
     (\<exists>j<NPROC. initproc s = Some j \<and> alive (ptable s ! j)) \<and>
     (\<forall>c. curproc s = Some c \<longrightarrow> c < NPROC \<and> p_state (ptable s ! c) \<noteq> UNUSED)"

definition run_inv :: "kernel_state \<Rightarrow> bool" where
  "run_inv s \<longleftrightarrow> tab_inv s \<and> (\<exists>c. curproc s = Some c \<and> p_state (ptable s ! c) = RUNNING)"

definition stopped :: "kernel_state \<Rightarrow> bool" where
  "stopped s \<longleftrightarrow> tab_inv s \<and> (\<exists>c. curproc s = Some c \<and> p_state (ptable s ! c) \<noteq> RUNNING)"

subsection \<open>The part of the state it depends on\<close>

definition core :: "proc \<Rightarrow> procstate \<times> int \<times> nat option \<times> chan option" where
  "core p = (p_state p, p_pid p, p_parent p, p_chan p)"

definition pview :: "kernel_state \<Rightarrow> (procstate \<times> int \<times> nat option \<times> chan option) list \<times> nat option \<times> int \<times> nat option" where
  "pview s = (map core (ptable s), curproc s, nextpid s, initproc s)"

lemma core_nth:
  assumes "map core qs = map core ps"
  shows "length qs = length ps"
    "i < length ps \<Longrightarrow> p_state (qs ! i) = p_state (ps ! i) \<and> p_pid (qs ! i) = p_pid (ps ! i) \<and>
      p_parent (qs ! i) = p_parent (ps ! i) \<and> p_chan (qs ! i) = p_chan (ps ! i)"
proof -
  show l: "length qs = length ps" using assms by (metis length_map)
  assume "i < length ps"
  then have "core (qs ! i) = core (ps ! i)" using assms l by (metis nth_map)
  then show "p_state (qs ! i) = p_state (ps ! i) \<and> p_pid (qs ! i) = p_pid (ps ! i) \<and>
      p_parent (qs ! i) = p_parent (ps ! i) \<and> p_chan (qs ! i) = p_chan (ps ! i)" by (simp add: core_def)
qed

text \<open>Two tables that agree, except that in the second one some sleepers are runnable.\<close>

definition woken :: "proc list \<Rightarrow> proc list \<Rightarrow> bool" where
  "woken ps qs \<longleftrightarrow> length qs = length ps \<and> (\<forall>i<length ps.
     p_pid (qs ! i) = p_pid (ps ! i) \<and> p_parent (qs ! i) = p_parent (ps ! i) \<and> p_chan (qs ! i) = p_chan (ps ! i) \<and>
     (p_state (qs ! i) = p_state (ps ! i) \<or> p_state (ps ! i) = SLEEPING \<and> p_state (qs ! i) = RUNNABLE))"

lemma woken_refl: "map core qs = map core ps \<Longrightarrow> woken ps qs"
  using core_nth [of qs ps] by (simp add: woken_def)

lemma woken_trans: "woken ps qs \<Longrightarrow> woken qs rs \<Longrightarrow> woken ps rs"
  unfolding woken_def by (metis procstate.distinct(15))

lemma woken_wakeup1: "woken ps (wakeup1 ch ps)"
  by (auto simp: woken_def wakeup1_def)

lemma woken_alive: "woken ps qs \<Longrightarrow> i < length ps \<Longrightarrow> alive (qs ! i) = alive (ps ! i)"
  unfolding woken_def alive_def by (metis procstate.distinct(15))

lemma tab_inv_woken:
  assumes "tab_inv s" "woken (ptable s) (ptable t)" "curproc t = curproc s" "nextpid t = nextpid s" "initproc t = initproc s"
  shows "tab_inv t" "run_inv s \<Longrightarrow> run_inv t" "stopped s \<Longrightarrow> stopped t"
proof -
  have l: "length (ptable t) = NPROC" "length (ptable s) = NPROC" using assms(1,2) by (simp_all add: tab_inv_def woken_def)
  note w = assms(2) [unfolded woken_def l, THEN conjunct2, rule_format]
  note al = woken_alive [OF assms(2), unfolded l]
  have u: "i < NPROC \<Longrightarrow> p_state (ptable t ! i) = UNUSED \<longleftrightarrow> p_state (ptable s ! i) = UNUSED" for i
    using w [of i] by auto
  have "slot_ok (ptable t) (nextpid t) (curproc t) i" if "i < NPROC" for i
  proof -
    have "slot_ok (ptable s) (nextpid s) (curproc s) i" using assms(1) that by (simp add: tab_inv_def)
    then show ?thesis using w [OF that] u [OF that] al assms(3,4) l by (auto simp: slot_ok_def)
  qed
  moreover have "distinct_pids (ptable t)"
    using assms(1) u w l unfolding distinct_pids_def tab_inv_def by metis
  ultimately show t: "tab_inv t"
    using assms(1,3-5) u al l unfolding tab_inv_def by metis
  have r: "c < NPROC \<Longrightarrow> p_state (ptable t ! c) = RUNNING \<longleftrightarrow> p_state (ptable s ! c) = RUNNING" for c
    using w [of c] by auto
  show "run_inv s \<Longrightarrow> run_inv t" "stopped s \<Longrightarrow> stopped t"
    using t r assms(3) unfolding run_inv_def stopped_def tab_inv_def by metis+
qed

interpretation pv: upper_view pview
  by unfold_locales (simp_all add: pview_def)

lemma pview_inv:
  assumes "pview t = pview s"
  shows "tab_inv s \<Longrightarrow> tab_inv t" "run_inv s \<Longrightarrow> run_inv t" "stopped s \<Longrightarrow> stopped t"
proof -
  have "map core (ptable t) = map core (ptable s)" "curproc t = curproc s" "nextpid t = nextpid s" "initproc t = initproc s"
    using assms by (simp_all add: pview_def)
  note i = tab_inv_woken [OF _ woken_refl [OF this(1)] this(2-4)]
  show "tab_inv s \<Longrightarrow> tab_inv t" "run_inv s \<Longrightarrow> run_inv t" "stopped s \<Longrightarrow> stopped t"
    using i by (auto simp: run_inv_def stopped_def)
qed

lemma keeps_modproc [keeps_intros]: "(\<And>p. core (u p) = core p) \<Longrightarrow> keeps pview (modproc i u)"
proof -
  assume u: "\<And>p. core (u p) = core p"
  have "map core (ps[i := u (ps ! i)]) = map core ps" for ps
  proof (rule nth_equalityI)
    fix j assume "j < length (map core (ps[i := u (ps ! i)]))"
    then show "map core (ps[i := u (ps ! i)]) ! j = map core ps ! j" by (cases "j = i") (simp_all add: u)
  qed simp
  then show ?thesis by (simp add: modproc_def keeps_kmod pview_def)
qed

lemma keeps_modcur [keeps_intros]: "(\<And>p. core (u p) = core p) \<Longrightarrow> keeps pview (modcur u)"
  unfolding modcur_def by (intro keeps_intros)

lemma keeps_kernel [keeps_intros]:
  "keeps pview (getfile k)" "keeps pview (modfile k g)" "keeps pview (getpipe k)" "keeps pview (setpipe k p)" "keeps pview (modcpu h)"
  by (auto simp: getfile_def modfile_def getpipe_def setpipe_def modcpu_def pview_def intro!: keeps_intros keeps_kmod)

subsection \<open>Triples\<close>

text \<open>
  \<open>triple P m Q\<close>: from a state in \<open>P\<close>, if \<open>m\<close> returns, \<open>Q\<close> holds; if it sleeps, the invariant holds with the process
  still RUNNING, and if it switches to the scheduler, with the process in another state.
\<close>

definition after :: "('a \<Rightarrow> kernel_state \<Rightarrow> bool) \<Rightarrow> (kernel_state, 'a) kres \<Rightarrow> bool" where
  "after Q r \<longleftrightarrow> (case r of Ret x t \<Rightarrow> Q x t | Panic e \<Rightarrow> True | Block ch t \<Rightarrow> if ch = ChanSched then stopped t else run_inv t)"

definition triple :: "(kernel_state \<Rightarrow> bool) \<Rightarrow> 'a kk \<Rightarrow> ('a \<Rightarrow> kernel_state \<Rightarrow> bool) \<Rightarrow> bool" where
  "triple P m Q \<longleftrightarrow> (\<forall>s. P s \<longrightarrow> after Q (m s))"

definition psafe :: "'a kk \<Rightarrow> bool" where
  "psafe m \<longleftrightarrow> triple run_inv m (\<lambda>_. run_inv)"

lemma triple_bind:
  assumes "triple P m R" "\<And>x. triple (R x) (k x) Q"
  shows "triple P (kbind m k) Q"
  unfolding triple_def
proof (intro allI impI)
  fix s assume "P s"
  then have "after R (m s)" using assms(1) by (simp add: triple_def)
  then show "after Q (kbind m k s)"
    using assms(2) by (cases "m s") (auto simp: after_def kbind_def triple_def)
qed

lemma triple_conseq:
  assumes "triple P' m Q'" "\<And>s. P s \<Longrightarrow> P' s" "\<And>x s. Q' x s \<Longrightarrow> Q x s"
  shows "triple P m Q"
  unfolding triple_def
proof (intro allI impI)
  fix s assume "P s"
  then have "after Q' (m s)" using assms(1,2) by (simp add: triple_def)
  then show "after Q (m s)" using assms(3) by (cases "m s") (simp_all add: after_def)
qed

lemma triple_keeps:
  assumes "keeps pview m" "\<And>s. P s \<Longrightarrow> run_inv s" "\<And>s t. pview t = pview s \<Longrightarrow> P s \<Longrightarrow> P t"
  shows "triple P m (\<lambda>_. P)"
  unfolding triple_def
proof (intro allI impI)
  fix s assume P: "P s"
  show "after (\<lambda>_. P) (m s)"
  proof (cases "m s")
    case (Ret x t)
    then have "pview t = pview s" using assms(1) by (auto simp: keeps_def dest: spec [of _ s])
    then show ?thesis using assms(3) P Ret by (simp add: after_def)
  next
    case (Block ch t)
    then have "ch \<noteq> ChanSched" "pview t = pview s" using assms(1) by (auto simp: keeps_def dest: spec [of _ s])
    then show ?thesis using assms(2) P Block pview_inv(2) by (auto simp: after_def)
  qed (simp add: after_def)
qed

named_theorems psafe_intros \<open>rules for routines that keep the invariant of the process table\<close>

lemma psafe_keeps: "keeps pview m \<Longrightarrow> psafe m"
  unfolding psafe_def by (rule triple_keeps) (auto dest: pview_inv(2))

lemma psafe_kbind [psafe_intros]: "psafe m \<Longrightarrow> (\<And>x. psafe (k x)) \<Longrightarrow> psafe (kbind m k)"
  unfolding psafe_def by (rule triple_bind)

lemma psafe_if [psafe_intros]: "(b \<Longrightarrow> psafe m) \<Longrightarrow> (\<not> b \<Longrightarrow> psafe n) \<Longrightarrow> psafe (if b then m else n)"
  by simp

lemma psafe_option [psafe_intros]:
  "(x = None \<Longrightarrow> psafe m) \<Longrightarrow> (\<And>y. x = Some y \<Longrightarrow> psafe (k y)) \<Longrightarrow> psafe (case x of None \<Rightarrow> m | Some y \<Rightarrow> k y)"
  by (simp split: option.split)

lemma psafe_prod [psafe_intros]: "(\<And>a b. x = (a, b) \<Longrightarrow> psafe (k a b)) \<Longrightarrow> psafe (case x of (a, b) \<Rightarrow> k a b)"
  by (simp split: prod.split)

lemma psafe_Let [psafe_intros]: "psafe (k v) \<Longrightarrow> psafe (Let v k)"
  by simp

lemma psafe_table: "(\<And>s. woken (ptable s) (g s)) \<Longrightarrow> psafe (kmod (\<lambda>s. s\<lparr>ptable := g s\<rparr>))"
proof -
  assume w: "\<And>s. woken (ptable s) (g s)"
  have "run_inv (s\<lparr>ptable := g s\<rparr>)" if "run_inv s" for s
    using that w tab_inv_woken(2) [of s "s\<lparr>ptable := g s\<rparr>"] by (simp add: run_inv_def)
  then show ?thesis by (simp add: psafe_def triple_def after_def)
qed

lemma woken_fold: "woken ps (fold wakeup1 chs ps)"
proof (induction chs arbitrary: ps)
  case Nil
  then show ?case by (simp add: woken_refl)
next
  case (Cons ch chs)
  then show ?case using woken_trans [OF woken_wakeup1 [of ps ch]] by simp
qed

lemma psafe_wakeup [psafe_intros]: "psafe (wakeup ch)" "psafe deliver"
proof -
  show "psafe (wakeup ch)" by (simp add: wakeup_def psafe_table woken_wakeup1)
  have d: "deliver = kbind (kmod (\<lambda>s. s\<lparr>ptable := fold wakeup1 (rev (wakeups s)) (ptable s)\<rparr>)) (\<lambda>_. kmod (\<lambda>s. s\<lparr>wakeups := []\<rparr>))"
    by (simp add: deliver_def kbind_def fun_eq_iff)
  show "psafe deliver"
    unfolding d by (intro psafe_kbind psafe_table woken_fold psafe_keeps keeps_kmod) (simp add: pview_def)
qed

subsection \<open>User memory, files and pipes\<close>

lemma keeps_user [keeps_intros]:
  "keeps pview (ldub va)" "keeps pview (stub va b)" "keeps pview (copy_in va n)" "keeps pview (copy_to va bs)" "keeps pview (trap_pgflt cr2)"
proof -
  show f: "keeps pview (trap_pgflt cr2)" for cr2
    by (auto simp: trap_pgflt_def Let_def core_def intro!: keeps_intros)
  have t: "keeps pview (touch va)" for va
    by (auto simp: touch_def page_at_def intro!: keeps_intros f)
  show l: "keeps pview (ldub va)" for va
    by (auto simp: ldub_def intro!: keeps_intros t)
  show s: "keeps pview (stub va b)" for va b
    by (auto simp: stub_def intro!: keeps_intros t)
  show "keeps pview (copy_in va n)" by (induction va n rule: copy_in.induct) (auto intro!: keeps_intros l)
  show "keeps pview (copy_to va bs)" by (induction va bs rule: copy_to.induct) (auto intro!: keeps_intros s)
qed

lemma psafe_leaf [psafe_intros]:
  "psafe (kret x)" "psafe (kpanic e)" "psafe (kget g)" "psafe (getpipe k)" "psafe (setpipe k p)" "psafe (getfile fd)" "psafe (modfile fd h)"
  "psafe curp" "psafe myproc" "psafe (getproc i)" "psafe (ldub va)" "psafe (stub va b)" "psafe (copy_in va n)" "psafe (copy_to va bs)"
  "psafe begin_op" "psafe end_op" "psafe (iput ip)" "psafe (ilock ip)" "psafe (iunlock ip)" "psafe (stati ip)"
  "psafe (kfree v)" "psafe kalloc" "psafe (cprintf fmt args)" "psafe (end_with r)" "psafe (iunlockput ip)"
  "psafe (ksleep (ChanPipeRead k))" "psafe (ksleep (ChanPipeWrite k))" "psafe (ksleep ChanTicks)" "psafe (ksleep (ChanProc i))"
  by (intro psafe_keeps keeps_intros)+

lemma psafe_pipe [psafe_intros]: "psafe (pipeclose k wr)" "psafe (pipewrite k va m)" "psafe (piperead k va m)"
proof -
  show "psafe (pipeclose k wr)" by (auto simp: pipeclose_def intro!: psafe_intros)
  have "psafe (pipewrite_loop k va m n)" for k va m n
    by (induction k va m n rule: pipewrite_loop.induct) (auto intro!: psafe_intros)
  then show "psafe (pipewrite k va m)" by (simp add: pipewrite_def)
  have "psafe (piperead_loop k va m i)" for k va m i
    by (induction k va m i rule: piperead_loop.induct) (auto intro!: psafe_intros)
  then show "psafe (piperead k va m)" by (auto simp: piperead_def intro!: psafe_intros)
qed

lemma psafe_file [psafe_intros]:
  "psafe filealloc" "psafe (filedup f)" "psafe (fileclose f)" "psafe (filestat f a)" "psafe (fileread f a n)" "psafe (filewrite f a n)"
  "psafe pipealloc"
proof -
  have adv: "psafe (advance f r)" for f r by (auto simp: advance_def intro!: psafe_intros)
  have rd: "psafe (readi kdevsw k off n)" "psafe (writei kdevsw k bs off n)" for k off n bs
    by (intro psafe_keeps keeps_intros)+
  show fa: "psafe filealloc" by (auto simp: filealloc_def intro!: psafe_intros)
  show "psafe (filedup f)" by (auto simp: filedup_def intro!: psafe_intros)
  show fc: "psafe (fileclose f)" for f by (auto simp: fileclose_def intro!: psafe_intros)
  show "psafe (filestat f a)" by (auto simp: filestat_def put_stat_def intro!: psafe_intros)
  show "psafe (fileread f a n)" by (auto simp: fileread_def intro!: psafe_intros adv rd)
  have "psafe (filewrite_loop f a i n)" for f a i n
  proof (induction f a i n rule: filewrite_loop.induct)
    case (1 f a i n)
    show ?case by (subst filewrite_loop.simps) (auto simp: Let_def intro!: psafe_intros adv rd 1)
  qed
  then show "psafe (filewrite f a n)" by (auto simp: filewrite_def intro!: psafe_intros)
  have "psafe (pipealloc_bad f0 f1)" for f0 f1 by (auto simp: pipealloc_bad_def intro!: psafe_intros fc)
  then show "psafe pipealloc" by (auto simp: pipealloc_def intro!: psafe_intros fa fc)
qed

subsection \<open>Arguments and the calls that leave the table alone\<close>

lemma psafe_or_fail [psafe_intros]: "psafe m \<Longrightarrow> (\<And>x. psafe (k x)) \<Longrightarrow> psafe (or_fail m k)" "psafe m \<Longrightarrow> (\<And>x. psafe (k x)) \<Longrightarrow> psafe (or_end m k)"
  by (auto simp: or_fail_def or_end_def intro!: psafe_intros)

lemma psafe_args [psafe_intros]:
  "psafe (fetchint a)" "psafe (fetchstr a)" "psafe (argint n)" "psafe (argptr n sz)" "psafe (argstr n)" "psafe (argfd n)"
proof -
  have "psafe (fetchstr_loop a n)" for a n by (induction a n rule: fetchstr_loop.induct) (auto intro!: psafe_intros)
  then show fs: "psafe (fetchstr a)" for a by (auto simp: fetchstr_def intro!: psafe_intros)
  show fi: "psafe (fetchint a)" for a by (auto simp: fetchint_def intro!: psafe_intros)
  show ai: "psafe (argint n)" for n by (auto simp: argint_def intro!: psafe_intros fi)
  show "psafe (argptr n sz)" by (auto simp: argptr_def intro!: psafe_intros ai)
  show "psafe (argstr n)" by (auto simp: argstr_def intro!: psafe_intros ai fs)
  show "psafe (argfd n)" by (auto simp: argfd_def intro!: psafe_intros ai)
qed

lemma psafe_fd [psafe_intros]: "psafe (fdalloc f)" "psafe (clearfd fd)"
proof -
  have m: "psafe (modcur (\<lambda>p. p\<lparr>p_ofile := g p\<rparr>))" for g by (intro psafe_keeps keeps_intros) (simp add: core_def)
  show "psafe (fdalloc f)" "psafe (clearfd fd)" by (auto simp: fdalloc_def clearfd_def intro!: psafe_intros m)
qed

lemma psafe_sysfile [psafe_intros]:
  "psafe sys_dup" "psafe sys_read" "psafe sys_write" "psafe sys_close" "psafe sys_fstat" "psafe sys_pipe"
  by (auto simp: sys_dup_def sys_read_def sys_write_def sys_close_def sys_fstat_def sys_pipe_def
      intro!: psafe_intros split: option.splits)

lemma psafe_fs [psafe_intros]:
  "psafe (kname path)" "psafe (kparent path)" "psafe (create path ty major minor)" "psafe (open_inode path omode)" "psafe (link_bad ip)"
  "psafe (unlink_bad dp)" "psafe (getinode ip)" "psafe (modinode ip g)" "psafe (iupdate ip)" "psafe (dirlink kdevsw dp name inum)"
  "psafe (dirlookup kdevsw dp name)" "psafe (isdirempty dp)" "psafe (writei kdevsw dp bs off n)" "psafe (readi kdevsw ip off n)"
  "psafe (kcwd path)" "psafe (namei kdevsw cwd path)" "psafe setupkvm" "psafe (load_segments pgdir ip m off' sz)"
  "psafe (build_stack pgdir sz argv)" "psafe (exec_bad pgdir ipo)" "psafe (freevm pgdir)" "psafe (allocuvm pgdir old new)"
  "psafe (deallocuvm pgdir old new)" "psafe (copyuvm pgdir sz)" "psafe (idup ip)"
  by (intro psafe_keeps keeps_intros)+

lemma psafe_links [psafe_intros]: "psafe sys_link" "psafe sys_unlink"
  by (auto simp: sys_link_def sys_unlink_def intro!: psafe_intros)

lemma psafe_modcur:
  "psafe (modcur (\<lambda>p. p\<lparr>p_cwd := c\<rparr>))" "psafe (modcur (\<lambda>p. p\<lparr>p_page_allocator_type := a\<rparr>))"
  "psafe (modcur (\<lambda>p. p\<lparr>p_killed := k\<rparr>))" "psafe (modcur (\<lambda>p. p\<lparr>p_tf := h p\<rparr>))"
  by (intro psafe_keeps keeps_intros; simp add: core_def)+

lemma psafe_open [psafe_intros]: "psafe sys_open" "psafe sys_mkdir" "psafe sys_mknod" "psafe sys_chdir"
  by (auto simp: sys_open_def sys_mkdir_def sys_mknod_def sys_chdir_def
      intro!: psafe_intros psafe_modcur split: option.splits)

lemma psafe_switchuvm [psafe_intros]: "psafe (switchuvm i)" "psafe switchkvm"
  by (intro psafe_keeps; auto simp: switchuvm_def switchkvm_def intro!: keeps_intros)+

lemma psafe_exec [psafe_intros]: "psafe sys_exec"
proof -
  have m: "psafe (modproc c (\<lambda>p. p\<lparr>p_name := nm p, p_pgdir := d, p_sz := sz, p_tf := tf p\<rparr>))" for c nm d sz tf
    by (intro psafe_keeps keeps_intros) (simp add: core_def)
  have i: "psafe (install_image path pgdir sz entry sp)" for path pgdir sz entry sp
    by (auto simp: install_image_def intro!: psafe_intros m)
  have e: "psafe (exec path argv)" for path argv
    by (auto simp: exec_def Let_def intro!: psafe_intros i)
  have "psafe (fetch_args n uargv)" for n uargv
    by (induction n uargv rule: fetch_args.induct) (auto intro!: psafe_intros)
  then show ?thesis by (auto simp: sys_exec_def intro!: psafe_intros e)
qed

lemma psafe_growproc [psafe_intros]: "psafe (growproc n)"
proof -
  have "psafe (modproc c (\<lambda>p. p\<lparr>p_sz := sz\<rparr>))" for c sz by (intro psafe_keeps keeps_intros) (simp add: core_def)
  then show ?thesis by (auto simp: growproc_def Let_def intro!: psafe_intros)
qed

lemma psafe_kill [psafe_intros]: "psafe (kill pid)"
proof -
  have "psafe (modproc i (\<lambda>p. p\<lparr>p_killed := True, p_state := (if p_state p = SLEEPING then RUNNABLE else p_state p)\<rparr>))" for i
    unfolding modproc_def by (rule psafe_table) (simp add: woken_def nth_upd)
  then show ?thesis by (auto simp: kill_def intro!: psafe_intros)
qed

lemma psafe_sysproc [psafe_intros]:
  "psafe sys_kill" "psafe sys_getpid" "psafe sys_sbrk" "psafe sys_sleep" "psafe sys_uptime" "psafe sys_print_free_frame_cnt"
  "psafe sys_set_page_allocator" "psafe sys_shmget" "psafe sys_shmdel"
  by (auto simp: sys_kill_def sys_getpid_def sys_sbrk_def sys_sleep_def sleep_until_def sys_uptime_def sys_print_free_frame_cnt_def
      sys_set_page_allocator_def sys_shmget_def sys_shmdel_def intro!: psafe_intros psafe_modcur)

subsection \<open>Changing one slot\<close>

lemma tab_inv_upd:
  assumes inv: "tab_inv s" and i: "i < NPROC" and n: "nextpid s \<le> n'"
    and run: "p_state q = RUNNING \<Longrightarrow> curproc s = Some i"
    and pid: "p_state q \<noteq> UNUSED \<Longrightarrow> 0 < p_pid q \<and> p_pid q < n' \<and>
      (\<forall>j<NPROC. j \<noteq> i \<and> p_state (ptable s ! j) \<noteq> UNUSED \<longrightarrow> p_pid (ptable s ! j) \<noteq> p_pid q)"
    and chan: "p_state q = SLEEPING \<Longrightarrow> p_chan q \<noteq> None"
    and par: "\<And>j. p_parent q = Some j \<Longrightarrow> p_state q \<noteq> UNUSED \<and> j < NPROC \<and> (if j = i then alive q else alive (ptable s ! j))"
    and dead: "alive q \<or> (\<forall>k<NPROC. k \<noteq> i \<longrightarrow> p_parent (ptable s ! k) \<noteq> Some i) \<and> initproc s \<noteq> Some i"
    and cur: "curproc s = Some i \<Longrightarrow> p_state q \<noteq> UNUSED"
  shows "tab_inv (s\<lparr>ptable := (ptable s)[i := q], nextpid := n'\<rparr>)"
proof -
  let ?ps = "ptable s" let ?qs = "?ps[i := q]"
  have l: "length ?ps = NPROC" using inv by (simp add: tab_inv_def)
  have nth: "j < NPROC \<Longrightarrow> ?qs ! j = (if j = i then q else ?ps ! j)" for j using l by (simp add: nth_upd)
  have "slot_ok ?qs n' (curproc s) k" if k: "k < NPROC" for k
  proof -
    have ok: "slot_ok ?ps (nextpid s) (curproc s) k" using inv k by (simp add: tab_inv_def)
    show ?thesis
    proof (cases "k = i")
      case True
      then show ?thesis using nth [OF k] nth run pid chan par l i by (auto simp: slot_ok_def split: if_splits)
    next
      case False
      have "alive (?qs ! j)" if "p_parent (?ps ! k) = Some j" for j
        using that ok dead False k nth [of j] l by (cases "j = i") (auto simp: slot_ok_def)
      then show ?thesis using ok nth [OF k] False n l by (auto simp: slot_ok_def)
    qed
  qed
  moreover have "distinct_pids ?qs"
    unfolding distinct_pids_def length_list_update l
  proof (intro allI impI)
    fix a b assume ab: "a < NPROC" "b < NPROC"
      and h: "p_state (?qs ! a) \<noteq> UNUSED \<and> p_state (?qs ! b) \<noteq> UNUSED \<and> p_pid (?qs ! a) = p_pid (?qs ! b)"
    have d: "distinct_pids ?ps" using inv by (simp add: tab_inv_def)
    show "a = b"
    proof (cases "a = i \<or> b = i")
      case True
      then show ?thesis using h pid ab nth by (auto split: if_splits)
    next
      case False
      then show ?thesis using h d ab nth l by (auto simp: distinct_pids_def)
    qed
  qed
  moreover have "\<exists>j<NPROC. initproc s = Some j \<and> alive (?qs ! j)"
  proof -
    obtain j where "j < NPROC" "initproc s = Some j" "alive (?ps ! j)" using inv by (auto simp: tab_inv_def)
    then show ?thesis using dead nth [of j] by auto
  qed
  moreover have "\<forall>c. curproc s = Some c \<longrightarrow> c < NPROC \<and> p_state (?qs ! c) \<noteq> UNUSED"
  proof (intro allI impI)
    fix c assume c: "curproc s = Some c"
    then have "c < NPROC" "p_state (?ps ! c) \<noteq> UNUSED" using inv by (auto simp: tab_inv_def)
    then show "c < NPROC \<and> p_state (?qs ! c) \<noteq> UNUSED" using c cur nth [of c] by simp
  qed
  moreover have "0 < n'" using inv n by (simp add: tab_inv_def)
  ultimately show ?thesis using l by (simp add: tab_inv_def)
qed

lemma tab_inv_upd_same:
  assumes "tab_inv s" "i < NPROC" "p_pid q = p_pid (ptable s ! i)" "p_state (ptable s ! i) \<noteq> UNUSED"
    "p_state q = RUNNING \<Longrightarrow> curproc s = Some i" "p_state q = SLEEPING \<Longrightarrow> p_chan q \<noteq> None"
    "\<And>j. p_parent q = Some j \<Longrightarrow> p_state q \<noteq> UNUSED \<and> j < NPROC \<and> (if j = i then alive q else alive (ptable s ! j))"
    "alive q \<or> (\<forall>k<NPROC. k \<noteq> i \<longrightarrow> p_parent (ptable s ! k) \<noteq> Some i) \<and> initproc s \<noteq> Some i"
    "curproc s = Some i \<Longrightarrow> p_state q \<noteq> UNUSED"
  shows "tab_inv (s\<lparr>ptable := (ptable s)[i := q]\<rparr>)"
proof -
  have l: "length (ptable s) = NPROC" and d: "distinct_pids (ptable s)"
    and ok: "slot_ok (ptable s) (nextpid s) (curproc s) i" using assms(1,2) by (simp_all add: tab_inv_def)
  have "0 < p_pid q \<and> p_pid q < nextpid s" using ok assms(3,4) by (simp add: slot_ok_def)
  moreover have "\<forall>j<NPROC. j \<noteq> i \<and> p_state (ptable s ! j) \<noteq> UNUSED \<longrightarrow> p_pid (ptable s ! j) \<noteq> p_pid q"
    using d assms(2-4) l by (auto simp: distinct_pids_def)
  ultimately have "tab_inv (s\<lparr>ptable := (ptable s)[i := q], nextpid := nextpid s\<rparr>)"
    using assms by (intro tab_inv_upd) auto
  then show ?thesis by simp
qed

subsection \<open>Fork\<close>

text \<open>A slot that \<open>allocproc\<close> has taken and nobody else sees yet.\<close>

definition embryo :: "nat \<Rightarrow> kernel_state \<Rightarrow> bool" where
  "embryo i s \<longleftrightarrow> run_inv s \<and> i < NPROC \<and> p_state (ptable s ! i) = EMBRYO"

definition orphan :: "nat \<Rightarrow> kernel_state \<Rightarrow> bool" where
  "orphan i s \<longleftrightarrow> embryo i s \<and> p_parent (ptable s ! i) = None"

lemma run_invD:
  assumes "run_inv s"
  obtains c where "curproc s = Some c" "c < NPROC" "p_state (ptable s ! c) = RUNNING" "length (ptable s) = NPROC" "tab_inv s"
  using assms by (auto simp: run_inv_def tab_inv_def)

lemma no_child_of_embryo:
  assumes "tab_inv s" "\<not> alive (ptable s ! i)" "k < NPROC"
  shows "p_parent (ptable s ! k) \<noteq> Some i"
proof -
  have "slot_ok (ptable s) (nextpid s) (curproc s) k" using assms(1,3) by (simp add: tab_inv_def)
  then show ?thesis using assms(2) by (auto simp: slot_ok_def)
qed

lemma init_alive: "tab_inv s \<Longrightarrow> \<not> alive (ptable s ! i) \<Longrightarrow> initproc s \<noteq> Some i"
  by (auto simp: tab_inv_def)

lemma pview_embryo:
  assumes "pview t = pview s"
  shows "embryo i s \<Longrightarrow> embryo i t" "orphan i s \<Longrightarrow> orphan i t"
proof -
  have c: "map core (ptable t) = map core (ptable s)" using assms by (simp add: pview_def)
  have l: "embryo i s \<Longrightarrow> i < length (ptable s)" by (simp add: embryo_def run_inv_def tab_inv_def)
  show e: "embryo i s \<Longrightarrow> embryo i t"
    using core_nth(2) [OF c l] pview_inv(2) [OF assms] by (simp add: embryo_def)
  show "orphan i s \<Longrightarrow> orphan i t"
    using core_nth(2) [OF c l] e by (simp add: orphan_def)
qed

lemma triple_embryo: "keeps pview m \<Longrightarrow> triple (embryo i) m (\<lambda>_. embryo i)" "keeps pview m \<Longrightarrow> triple (orphan i) m (\<lambda>_. orphan i)"
  by (rule triple_keeps, assumption, simp add: embryo_def, erule (1) pview_embryo(1))
    (rule triple_keeps, assumption, simp add: orphan_def embryo_def, erule (1) pview_embryo(2))

lemma take_slot:
  assumes "run_inv s" "i < NPROC" "p_state (ptable s ! i) = UNUSED" "p_state q = EMBRYO" "p_pid q = nextpid s"
    "p_parent q = p_parent (ptable s ! i)"
  shows "orphan i (s\<lparr>nextpid := nextpid s + 1, ptable := (ptable s)[i := q]\<rparr>)"
proof -
  obtain c where c: "curproc s = Some c" "c < NPROC" "p_state (ptable s ! c) = RUNNING" "length (ptable s) = NPROC" "tab_inv s"
    using assms(1) by (rule run_invD)
  have na: "\<not> alive (ptable s ! i)" using assms(3) by (simp add: alive_def)
  have ok: "k < NPROC \<Longrightarrow> slot_ok (ptable s) (nextpid s) (curproc s) k" for k using c(5) by (simp add: tab_inv_def)
  have par: "p_parent (ptable s ! i) = None" using ok [OF assms(2)] assms(3) by (cases "p_parent (ptable s ! i)") (auto simp: slot_ok_def)
  have pid: "p_state (ptable s ! j) \<noteq> UNUSED \<Longrightarrow> j < NPROC \<Longrightarrow> p_pid (ptable s ! j) < nextpid s" for j
    using ok [of j] by (simp add: slot_ok_def)
  have pos: "0 < nextpid s" using c(5) by (simp add: tab_inv_def)
  have "s\<lparr>nextpid := nextpid s + 1, ptable := (ptable s)[i := q]\<rparr> = s\<lparr>ptable := (ptable s)[i := q], nextpid := nextpid s + 1\<rparr>"
    by simp
  moreover have "tab_inv (s\<lparr>ptable := (ptable s)[i := q], nextpid := nextpid s + 1\<rparr>)"
    using c(5) assms(2-6) na pos par pid no_child_of_embryo [OF c(5) na] init_alive [OF c(5) na]
    by (intro tab_inv_upd) (auto dest: pid)
  ultimately have "tab_inv (s\<lparr>nextpid := nextpid s + 1, ptable := (ptable s)[i := q]\<rparr>)" by (simp only:)
  moreover have "c \<noteq> i" using c(3) assms(3) by auto
  ultimately show ?thesis using c assms(2,4,6) par by (auto simp: orphan_def embryo_def run_inv_def)
qed

lemma slot_upd:
  assumes "embryo i s" "p_pid q = p_pid (ptable s ! i)"
    "p_state q = EMBRYO \<or> p_state q = RUNNABLE \<or> p_state q = UNUSED \<and> p_parent q = None"
    "p_parent q = p_parent (ptable s ! i) \<or> p_parent q = curproc s"
  shows "run_inv (s\<lparr>ptable := (ptable s)[i := q]\<rparr>)"
proof -
  have i: "i < NPROC" "p_state (ptable s ! i) = EMBRYO" and r: "run_inv s" using assms(1) by (simp_all add: embryo_def)
  obtain c where c: "curproc s = Some c" "c < NPROC" "p_state (ptable s ! c) = RUNNING" "length (ptable s) = NPROC" "tab_inv s"
    using r by (rule run_invD)
  have na: "\<not> alive (ptable s ! i)" and ac: "alive (ptable s ! c)" and ne: "c \<noteq> i" using i(2) c(3) by (auto simp: alive_def)
  have ok: "slot_ok (ptable s) (nextpid s) (curproc s) i" using c(5) i(1) by (simp add: tab_inv_def)
  have par: "p_parent (ptable s ! i) = Some j \<Longrightarrow> j < NPROC \<and> alive (ptable s ! j) \<and> j \<noteq> i" for j
    using ok c(4) na by (auto simp: slot_ok_def)
  have par': "p_parent q = Some j \<Longrightarrow> p_state q \<noteq> UNUSED \<and> j < NPROC \<and> (if j = i then alive q else alive (ptable s ! j))" for j
    using par [of j] assms(3,4) c(1,2) ac ne by auto
  have "tab_inv (s\<lparr>ptable := (ptable s)[i := q]\<rparr>)"
    using c(1,5) i assms(2,3) na ne par' no_child_of_embryo [OF c(5) na] init_alive [OF c(5) na]
    by (intro tab_inv_upd_same) auto
  then show ?thesis using c ne by (auto simp: run_inv_def)
qed

lemma triple_modproc:
  assumes "\<And>s. P s \<Longrightarrow> Q (s\<lparr>ptable := (ptable s)[i := u (ptable s ! i)]\<rparr>)"
  shows "triple P (modproc i u) (\<lambda>_. Q)"
  using assms by (simp add: triple_def modproc_def after_def kmod_def)

lemma triple_drop:
  assumes "\<And>p. p_state (u p) = UNUSED \<and> p_pid (u p) = p_pid p \<and> p_parent (u p) = p_parent p"
  shows "triple (orphan i) (modproc i u) (\<lambda>_. run_inv)"
  using assms by (intro triple_modproc slot_upd) (simp_all add: orphan_def)

lemma triple_ready: "triple (embryo i) (modproc i (\<lambda>q. q\<lparr>p_state := RUNNABLE\<rparr>)) (\<lambda>_. run_inv)"
  by (intro triple_modproc slot_upd) simp_all

lemma triple_adopt:
  assumes "\<And>p. p_state (u p) = p_state p \<and> p_pid (u p) = p_pid p \<and> p_parent (u p) = Some c"
  shows "triple (\<lambda>s. orphan i s \<and> curproc s = Some c) (modproc i u) (\<lambda>_. embryo i)"
proof (rule triple_modproc)
  fix s assume s: "orphan i s \<and> curproc s = Some c"
  then have e: "embryo i s" "i < NPROC" "p_state (ptable s ! i) = EMBRYO" "length (ptable s) = NPROC"
    by (simp_all add: orphan_def embryo_def) (simp add: run_inv_def tab_inv_def)
  then have "run_inv (s\<lparr>ptable := (ptable s)[i := u (ptable s ! i)]\<rparr>)"
    using s assms by (intro slot_upd) simp_all
  then show "embryo i (s\<lparr>ptable := (ptable s)[i := u (ptable s ! i)]\<rparr>)" using e assms by (simp add: embryo_def)
qed

lemma triple_if: "(b \<Longrightarrow> triple P m Q) \<Longrightarrow> (\<not> b \<Longrightarrow> triple P n Q) \<Longrightarrow> triple P (if b then m else n) Q"
  by simp

lemma triple_kret: "(\<And>s. P s \<Longrightarrow> Q x s) \<Longrightarrow> triple P (kret x) Q"
  by (simp add: triple_def after_def kret_def)

lemma triple_kpanic: "triple P (kpanic e) Q"
  by (simp add: triple_def after_def kpanic_def)

lemma triple_pass: "triple P m (\<lambda>_. P) \<Longrightarrow> (\<And>x. triple P (k x) Q) \<Longrightarrow> triple P (kbind m k) Q"
  by (rule triple_bind)

lemmas triple_steps = triple_pass [OF triple_embryo(1)] triple_pass [OF triple_embryo(2)] triple_bind [OF triple_drop]
  triple_if triple_kret triple_kpanic

lemma triple_allocproc: "triple run_inv (allocproc fr) (\<lambda>r. case r of None \<Rightarrow> run_inv | Some i \<Rightarrow> orphan i)"
  unfolding triple_def
proof (intro allI impI)
  fix s assume r: "run_inv s"
  show "after (\<lambda>r. case r of None \<Rightarrow> run_inv | Some i \<Rightarrow> orphan i) (allocproc fr s)"
  proof (cases "find_idx (\<lambda>p. p_state p = UNUSED) (ptable s)")
    case None
    then show ?thesis using r by (simp add: allocproc_def kern_defs after_def)
  next
    case (Some i)
    have i: "i < NPROC" "p_state (ptable s ! i) = UNUSED" "i < length (ptable s)"
      using find_idx_SomeD [OF Some] r by (simp_all add: run_inv_def tab_inv_def)
    let ?q = "(ptable s ! i)\<lparr>p_state := EMBRYO, p_pid := nextpid s, p_heap_start := 0, p_page_allocator_type := 0\<rparr>"
    let ?m = "kbind kalloc (\<lambda>k. kbind (modproc i (\<lambda>p. p\<lparr>p_kstack := k\<rparr>)) (\<lambda>_.
         if k = 0 then kbind (modproc i (\<lambda>p. p\<lparr>p_state := UNUSED\<rparr>)) (\<lambda>_. kret None)
         else kbind (modproc i (\<lambda>p. p\<lparr>p_context := \<lparr>ctx_edi = 0, ctx_esi = 0, ctx_ebx = 0, ctx_ebp = 0, ctx_eip = fr\<rparr>\<rparr>))
           (\<lambda>_. kret (Some i))))"
    have "orphan i (s\<lparr>nextpid := nextpid s + 1, ptable := (ptable s)[i := ?q]\<rparr>)"
      by (rule take_slot [OF r i(1,2)]) simp_all
    moreover have "triple (orphan i) ?m (\<lambda>r. case r of None \<Rightarrow> run_inv | Some i \<Rightarrow> orphan i)"
      by (intro triple_steps keeps_intros pv.keeps_kalloc) (simp_all add: core_def)
    moreover have "allocproc fr s = ?m (s\<lparr>nextpid := nextpid s + 1, ptable := (ptable s)[i := ?q]\<rparr>)"
      using Some i(3) by (simp add: allocproc_def modproc_def kget_def kmod_def kbind_def [of "\<lambda>s. Ret (f s) (g s)" for f g])
    ultimately show ?thesis by (simp add: triple_def)
  qed
qed

lemma keeps_dup_files [keeps_intros]: "keeps pview (dup_files np i fs)"
  by (induction np i fs rule: dup_files.induct) (auto simp: filedup_def core_def intro!: keeps_intros)

text \<open>The slot taken, by the current process \<open>c\<close>.\<close>

abbreviation orphan_of :: "nat \<Rightarrow> nat \<Rightarrow> kernel_state \<Rightarrow> bool" where
  "orphan_of i c s \<equiv> orphan i s \<and> curproc s = Some c"

lemma triple_orphan_of: "keeps pview m \<Longrightarrow> triple (orphan_of i c) m (\<lambda>_. orphan_of i c)"
proof (rule triple_keeps)
  fix s t assume "pview t = pview s" "orphan_of i c s"
  then show "orphan_of i c t" using pview_embryo(2) [of t s i] by (simp add: pview_def)
qed (simp_all add: orphan_def embryo_def)

lemma triple_myproc: "triple (orphan i) myproc (orphan_of i)"
  by (simp add: triple_def myproc_def kern_defs after_def split: option.split)

lemma triple_orphan_drop:
  assumes "\<And>p. p_state (u p) = UNUSED \<and> p_pid (u p) = p_pid p \<and> p_parent (u p) = p_parent p"
  shows "triple (orphan_of i c) (modproc i u) (\<lambda>_. run_inv)"
  by (rule triple_conseq [OF triple_drop [OF assms]]) simp_all

lemmas fork_steps = triple_bind [OF triple_myproc] triple_pass [OF triple_orphan_of] triple_bind [OF triple_orphan_drop]
  triple_bind [OF triple_adopt] triple_pass [OF triple_embryo(1)] triple_bind [OF triple_ready] triple_if triple_kret

lemma triple_slot:
  "triple run_inv n Q \<Longrightarrow> (\<And>i. triple (orphan i) (m i) Q) \<Longrightarrow>
    triple (case np of None \<Rightarrow> run_inv | Some i \<Rightarrow> orphan i) (case np of None \<Rightarrow> n | Some i \<Rightarrow> m i) Q"
  by (cases np) simp_all

lemma psafe_fork [psafe_intros]: "psafe (fork fr)"
  unfolding psafe_def fork_def
  by (intro triple_bind [OF triple_allocproc] triple_slot fork_steps keeps_intros) (simp_all add: core_def)

subsection \<open>Exit\<close>

text \<open>Who runs, and who is \<open>init\<close>: the upper state that closing files keeps, though it may wake other processes.\<close>

definition ids :: "kernel_state \<Rightarrow> nat option \<times> nat option" where
  "ids s = (curproc s, initproc s)"

interpretation iv: upper_view ids
  by unfold_locales (simp_all add: ids_def)

lemma keeps_ids [keeps_intros]:
  "keeps ids (modproc i u)" "keeps ids deliver" "keeps ids (wakeup ch)" "keeps ids (getfile k)" "keeps ids (modfile k g)"
  "keeps ids (getpipe k)" "keeps ids (setpipe k p)"
  by (auto simp: modproc_def deliver_def wakeup_def getfile_def modfile_def getpipe_def setpipe_def ids_def
      intro!: keeps_intros keeps_kmod)

lemma keeps_close_files [keeps_intros]: "keeps ids (close_files c fd fs)"
proof (induction c fd fs rule: close_files.induct)
  case (3 c fd f fs)
  have "keeps ids (fileclose f)" by (auto simp: fileclose_def pipeclose_def intro!: keeps_intros)
  then show ?case using 3 by (auto intro!: keeps_intros)
qed (auto intro!: keeps_intros)

lemma psafe_close_files [psafe_intros]: "psafe (close_files c fd fs)"
  by (induction c fd fs rule: close_files.induct)
    (auto intro!: psafe_intros psafe_keeps [OF keeps_modproc] simp: core_def)

abbreviation running :: "nat \<Rightarrow> nat option \<Rightarrow> kernel_state \<Rightarrow> bool" where
  "running c ini s \<equiv> run_inv s \<and> ids s = (Some c, ini)"

lemma triple_running:
  assumes "psafe m" "keeps ids m"
  shows "triple (running c ini) m (\<lambda>_. running c ini)"
  unfolding triple_def
proof (intro allI impI)
  fix s assume s: "running c ini s"
  then have "after (\<lambda>_. run_inv) (m s)" using assms(1) by (simp add: psafe_def triple_def)
  then show "after (\<lambda>_. running c ini) (m s)"
    using s assms(2) [unfolded keeps_def, rule_format, of s] by (cases "m s") (simp_all add: after_def)
qed

lemma runningD:
  assumes "running c ini s"
  shows "curproc s = Some c" "initproc s = ini" "tab_inv s" "length (ptable s) = NPROC" "c < NPROC" "p_state (ptable s ! c) = RUNNING"
    "i < NPROC \<Longrightarrow> slot_ok (ptable s) (nextpid s) (curproc s) i" "ini = Some j \<Longrightarrow> j < NPROC \<and> alive (ptable s ! j)"
  using assms by (auto simp: ids_def run_inv_def tab_inv_def)

lemma running_intro: "tab_inv s \<Longrightarrow> curproc s = Some c \<Longrightarrow> initproc s = ini \<Longrightarrow> p_state (ptable s ! c) = RUNNING \<Longrightarrow> running c ini s"
  by (auto simp: ids_def run_inv_def)

lemma running_woken: "running c ini s \<Longrightarrow> woken (ptable s) qs \<Longrightarrow> running c ini (s\<lparr>ptable := qs\<rparr>)"
  using tab_inv_woken(2) [of s "s\<lparr>ptable := qs\<rparr>"] by (auto simp: run_inv_def ids_def)

lemma reparent_step:
  assumes "running c (Some j) s" "i < NPROC" "p_parent (ptable s ! i) = Some c"
  shows "running c (Some j) (s\<lparr>ptable := (ptable s)[i := (ptable s ! i)\<lparr>p_parent := Some j\<rparr>]\<rparr>)"
proof -
  note d = runningD [OF assms(1)]
  have st: "p_state (ptable s ! i) \<noteq> UNUSED" using d(7) [OF assms(2)] assms(3) by (simp add: slot_ok_def)
  have "tab_inv (s\<lparr>ptable := (ptable s)[i := (ptable s ! i)\<lparr>p_parent := Some j\<rparr>]\<rparr>)"
    using d(3) assms(2) st d(7) [OF assms(2)] d(8) [of j] no_child_of_embryo [OF d(3), of i] init_alive [OF d(3), of i]
    by (intro tab_inv_upd_same) (auto simp: slot_ok_def alive_def)
  then show ?thesis using d(1,2,4-6) assms(2) by (intro running_intro) (auto simp: nth_upd)
qed

lemma reparent_keeps:
  assumes "running c (Some j) s" "c \<noteq> j" "set is \<subseteq> {..<NPROC}"
  shows "running c (Some j) (s\<lparr>ptable := reparent c (Some j) is (ptable s)\<rparr>) \<and>
    (\<forall>k<NPROC. p_parent (reparent c (Some j) is (ptable s) ! k) = Some c \<longrightarrow> k \<notin> set is \<and> p_parent (ptable s ! k) = Some c)"
  using assms
proof (induction "is" arbitrary: s)
  case Nil
  then show ?case by simp
next
  case (Cons i "is")
  show ?case
  proof (cases "p_parent (ptable s ! i) = Some c")
    case False
    then show ?thesis using Cons.IH [OF Cons.prems(1,2)] Cons.prems(3) by auto
  next
    case True
    let ?q = "(ptable s ! i)\<lparr>p_parent := Some j\<rparr>"
    let ?t = "s\<lparr>ptable := (ptable s)[i := ?q]\<rparr>"
    let ?ps = "(if p_state (ptable s ! i) = ZOMBIE then wakeup1 (ChanProc j) else id) ((ptable s)[i := ?q])"
    have i: "i < NPROC" and l: "length (ptable s) = NPROC" using Cons.prems(1,3) runningD(4) by auto
    have t: "running c (Some j) ?t" by (rule reparent_step [OF Cons.prems(1) i True])
    have w: "woken (ptable ?t) ?ps" by (simp add: woken_wakeup1 woken_refl)
    have u: "running c (Some j) (s\<lparr>ptable := ?ps\<rparr>)" using running_woken [OF t w] by simp
    have par: "k < NPROC \<Longrightarrow> p_parent (?ps ! k) = (if k = i then Some j else p_parent (ptable s ! k))" for k
      using w l by (simp add: woken_def nth_upd)
    have "reparent c (Some j) (i # is) (ptable s) = reparent c (Some j) is ?ps"
      using True by (simp add: Let_def wakeup_proc_def)
    moreover have "set is \<subseteq> {..<NPROC}" using Cons.prems(3) by simp
    ultimately show ?thesis using Cons.IH [OF u Cons.prems(2)] par Cons.prems(2) by (auto split: if_splits)
  qed
qed

lemma triple_kmod: "(\<And>s. P s \<Longrightarrow> Q (g s)) \<Longrightarrow> triple P (kmod g) (\<lambda>_. Q)"
  by (simp add: triple_def kmod_def after_def)

lemma triple_sched: "triple stopped sched Q"
  by (auto simp: triple_def stopped_def sched_def curp_def myproc_def getproc_def kern_defs after_def)

lemma triple_wake_parent:
  "triple (running c ini) (kmod (\<lambda>s. s\<lparr>ptable := wakeup_proc (p_parent (ptable s ! c)) (ptable s)\<rparr>)) (\<lambda>_. running c ini)"
  by (rule triple_kmod, erule running_woken)
    (simp add: wakeup_proc_def woken_wakeup1 woken_refl split: option.split)

text \<open>The exiting process has no children left.\<close>

abbreviation childless :: "nat \<Rightarrow> nat option \<Rightarrow> kernel_state \<Rightarrow> bool" where
  "childless c ini s \<equiv> running c ini s \<and> (\<forall>k<NPROC. p_parent (ptable s ! k) \<noteq> Some c)"

lemma triple_reparent:
  assumes "ini \<noteq> Some c"
  shows "triple (running c ini) (kmod (\<lambda>s. s\<lparr>ptable := reparent c ini [0..<length (ptable s)] (ptable s)\<rparr>)) (\<lambda>_. childless c ini)"
proof (rule triple_kmod)
  fix s assume s: "running c ini s"
  obtain j where j: "ini = Some j" using runningD(2,3) [OF s] by (auto simp: tab_inv_def)
  have "set [0..<length (ptable s)] \<subseteq> {..<NPROC}" using runningD(4) [OF s] by auto
  from reparent_keeps [OF s [unfolded j] _ this] show "childless c ini (s\<lparr>ptable := reparent c ini [0..<length (ptable s)] (ptable s)\<rparr>)"
    using assms j runningD(4) [OF s] by auto
qed

lemma triple_zombie:
  assumes "ini \<noteq> Some c"
  shows "triple (childless c ini) (modproc c (\<lambda>p. p\<lparr>p_state := ZOMBIE\<rparr>)) (\<lambda>_. stopped)"
proof (rule triple_modproc)
  fix s assume s: "childless c ini s"
  then have r: "running c ini s" by simp
  note d = runningD [OF r]
  have "tab_inv (s\<lparr>ptable := (ptable s)[c := (ptable s ! c)\<lparr>p_state := ZOMBIE\<rparr>]\<rparr>)"
    using d(1-6) s assms d(7) [OF d(5)] by (intro tab_inv_upd_same) (auto simp: slot_ok_def)
  then show "stopped (s\<lparr>ptable := (ptable s)[c := (ptable s ! c)\<lparr>p_state := ZOMBIE\<rparr>]\<rparr>)"
    using d(1,4,5) by (auto simp: stopped_def)
qed

lemma triple_who:
  assumes "\<And>c. triple (\<lambda>s. run_inv s \<and> curproc s = Some c) (k c) Q"
  shows "triple run_inv (kbind myproc k) Q"
  by (rule triple_bind [OF _ assms]) (simp add: triple_def myproc_def kern_defs after_def split: option.split)

lemma triple_init:
  assumes "\<And>ini. triple (running c ini) (k ini) Q"
  shows "triple (\<lambda>s. run_inv s \<and> curproc s = Some c) (kbind (kget initproc) k) Q"
  using assms by (auto simp: triple_def kern_defs ids_def)

lemma triple_exit_tail:
  assumes "ini \<noteq> Some c"
  shows "triple (running c ini)
     (kbind (kmod (\<lambda>s. s\<lparr>ptable := wakeup_proc (p_parent (ptable s ! c)) (ptable s)\<rparr>)) (\<lambda>_.
      kbind (kmod (\<lambda>s. s\<lparr>ptable := reparent c ini [0..<length (ptable s)] (ptable s)\<rparr>)) (\<lambda>_.
      kbind (modproc c (\<lambda>p. p\<lparr>p_state := ZOMBIE\<rparr>)) (\<lambda>_. kbind sched k)))) Q"
  by (rule triple_bind triple_wake_parent triple_reparent triple_zombie assms)+
    (rule triple_sched [where Q = "\<lambda>_ _. False"], simp add: triple_def)

lemma psafe_exit [psafe_intros]: "psafe exit"
proof -
  have cl: "psafe (modproc c (\<lambda>p. p\<lparr>p_cwd := None\<rparr>))" for c
    by (intro psafe_keeps keeps_modproc) (simp add: core_def)
  show ?thesis
    unfolding psafe_def exit_def
    by (intro triple_who triple_init triple_if triple_kpanic)
      ((rule triple_exit_tail triple_pass [OF triple_running, rotated -1], assumption?)+, (intro psafe_intros keeps_intros cl)+)
qed

subsection \<open>Wait\<close>

lemma wait_scan_child:
  "wait_scan c ps is kids = (Some i, b) \<Longrightarrow> i \<in> set is \<and> p_parent (ps ! i) = Some c \<and> p_state (ps ! i) = ZOMBIE"
  by (induction c ps "is" kids rule: wait_scan.induct) (auto split: if_splits)

abbreviation corpse :: "nat \<Rightarrow> kernel_state \<Rightarrow> bool" where
  "corpse i s \<equiv> run_inv s \<and> i < NPROC \<and> p_state (ptable s ! i) = ZOMBIE"

lemma triple_corpse: "keeps pview m \<Longrightarrow> triple (corpse i) m (\<lambda>_. corpse i)"
proof (rule triple_keeps)
  fix s t assume e: "pview t = pview s" and c: "corpse i s"
  then have "map core (ptable t) = map core (ptable s)" "i < length (ptable s)" by (simp_all add: pview_def run_inv_def tab_inv_def)
  from core_nth(2) [OF this] show "corpse i t" using c pview_inv(2) [OF e] by simp
qed simp_all

lemma triple_free:
  assumes "\<And>p. p_state (u p) = UNUSED \<and> p_parent (u p) = None"
  shows "triple (corpse i) (modproc i u) (\<lambda>_. run_inv)"
proof (rule triple_modproc)
  fix s assume s: "corpse i s"
  then have "run_inv s" by simp
  then obtain c where c: "curproc s = Some c" "c < NPROC" "p_state (ptable s ! c) = RUNNING" "length (ptable s) = NPROC" "tab_inv s"
    by (rule run_invD)
  have na: "\<not> alive (ptable s ! i)" and ne: "c \<noteq> i" using s c(3) by (auto simp: alive_def)
  have "tab_inv (s\<lparr>ptable := (ptable s)[i := u (ptable s ! i)], nextpid := nextpid s\<rparr>)"
    using s c assms ne no_child_of_embryo [OF c(5) na] init_alive [OF c(5) na] by (intro tab_inv_upd) auto
  then have "tab_inv (s\<lparr>ptable := (ptable s)[i := u (ptable s ! i)]\<rparr>)" by simp
  then show "run_inv (s\<lparr>ptable := (ptable s)[i := u (ptable s ! i)]\<rparr>)" using c ne by (auto simp: run_inv_def)
qed

lemma triple_reap: "triple (corpse i) (reap i) (\<lambda>_. run_inv)"
  unfolding reap_def
  by (rule triple_pass [OF triple_corpse], (intro keeps_intros; simp add: core_def; fail))+
    (rule triple_bind [OF triple_free], simp, simp add: triple_kret)

lemma psafe_wait [psafe_intros]: "psafe wait"
  unfolding psafe_def triple_def
proof (intro allI impI)
  fix s assume r: "run_inv s"
  then obtain c where c: "curproc s = Some c" "length (ptable s) = NPROC" by (auto elim: run_invD)
  obtain x b where x: "wait_scan c (ptable s) [0..<length (ptable s)] False = (x, b)" by fastforce
  have w: "wait s = (case x of Some i \<Rightarrow> reap i | None \<Rightarrow> if \<not> b \<or> p_killed (ptable s ! c) then kret (-1) else ksleep (ChanProc c)) s"
    using c(1) x by (simp add: wait_def myproc_def kern_defs split: option.split)
  show "after (\<lambda>_. run_inv) (wait s)"
  proof (cases x)
    case None
    then show ?thesis unfolding w using r by (simp add: kern_defs after_def)
  next
    case (Some i)
    then have "corpse i s" using wait_scan_child x r c(2) by force
    then show ?thesis unfolding w using Some triple_reap [of i] by (simp add: triple_def)
  qed
qed

subsection \<open>Traps\<close>

lemma triple_stop:
  assumes "\<And>p. p_pid (u p) = p_pid p \<and> p_parent (u p) = p_parent p"
    "\<And>p. p_state (u p) = RUNNABLE \<or> p_state (u p) = SLEEPING \<and> p_chan (u p) \<noteq> None"
  shows "triple run_inv (modcur u) (\<lambda>_. stopped)"
  unfolding modcur_def
proof (rule triple_who, rule triple_modproc)
  fix c s assume "run_inv s \<and> curproc s = Some c"
  then have r: "running c (initproc s) s" by (simp add: ids_def)
  note d = runningD [OF r]
  have al: "alive (u p)" for p using assms(2) [of p] by (auto simp: alive_def)
  have "tab_inv (s\<lparr>ptable := (ptable s)[c := u (ptable s ! c)]\<rparr>)"
    using d(1,3-6) d(7) [OF d(5)] assms(1) assms(2) [of "ptable s ! c"] al by (intro tab_inv_upd_same) (auto simp: slot_ok_def)
  then show "stopped (s\<lparr>ptable := (ptable s)[c := u (ptable s ! c)]\<rparr>)"
    using d(1,4,5) assms(2) [of "ptable s ! c"] by (auto simp: stopped_def)
qed

lemma psafe_yield [psafe_intros]: "psafe yield"
  unfolding psafe_def yield_def by (rule triple_bind [OF triple_stop triple_sched]) simp_all

lemma triple_sleep: "triple run_inv (sleep ch) Q"
proof -
  have "triple run_inv (kbind deliver (\<lambda>_. kbind (modcur (\<lambda>p. p\<lparr>p_chan := Some ch, p_state := SLEEPING\<rparr>)) (\<lambda>_. sched))) Q"
    by (rule triple_bind [OF psafe_wakeup(2) [unfolded psafe_def]], rule triple_bind [OF triple_stop triple_sched]) simp_all
  then show ?thesis
    unfolding sleep_def by (intro triple_pass [OF psafe_leaf(3) [unfolded psafe_def]] triple_if triple_kpanic)
qed

lemma psafe_console [psafe_intros]: "psafe (consoleintr cs)"
proof -
  have si: "psafe (set_input i)" for i
    unfolding set_input_def by (intro psafe_keeps keeps_kmod) (simp add: pview_def)
  have pc: "psafe (consputc c)" for c by (intro psafe_keeps keeps_intros)
  have ps: "psafe (consputs out)" for out by (induction out) (auto intro!: psafe_intros pc)
  have one: "psafe (consoleintr1 c)" for c
    by (auto simp: consoleintr1_def Let_def intro!: psafe_intros si pc ps)
  have l: "psafe (consoleintr_loop cs d)" for d
    by (induction cs arbitrary: d) (auto intro!: psafe_intros one)
  have pp: "psafe (print_pcs as)" for as by (induction as) (auto intro!: psafe_intros)
  have "psafe (procdump_from xs)" for xs
    by (induction xs) (auto intro!: psafe_intros pp)
  then show ?thesis by (auto simp: consoleintr_def procdump_def intro!: psafe_intros l)
qed

lemma psafe_lifecycle [psafe_intros]: "psafe (sys_fork fr)" "psafe sys_exit" "psafe sys_wait"
  by (auto simp: sys_fork_def sys_exit_def sys_wait_def intro!: psafe_intros)

lemma psafe_syscall [psafe_intros]: "psafe (syscall fr)"
proof -
  have "psafe f" if "map_of (syscalls fr) n = Some f" for n f
    using map_of_SomeD [OF that] unfolding syscalls_def by (auto intro: psafe_intros)
  then show ?thesis
    unfolding syscall_def Let_def
    by (intro psafe_intros psafe_modcur; auto split: if_splits)
qed

lemma psafe_trap: "psafe (trap fr kbd com1 tf)"
proof -
  have k: "psafe (trap_exit_killed tf)" by (auto simp: trap_exit_killed_def intro!: psafe_intros)
  have t: "psafe trap_timer"
    unfolding trap_timer_def
    by (intro psafe_intros psafe_keeps [OF keeps_kmod]) (simp add: pview_def)
  have o: "psafe (trap_other tf)" by (auto simp: trap_other_def intro!: psafe_intros psafe_modcur)
  have i: "psafe (trap_irq tf kbd com1)" by (auto simp: trap_irq_def Let_def intro!: psafe_intros t o)
  have f: "psafe (trap_pgflt a)" for a by (intro psafe_keeps keeps_intros)
  show ?thesis unfolding trap_def by (intro psafe_intros psafe_modcur k i f)
qed

end
