(* ===== verification/Schedule.thy ===== *)
theory Schedule
  imports Procinv
begin

text \<open>
  Traps and the scheduler together: a trap keeps the invariant of the process table, down to the switch away from the
  process, and a pass of \<open>scheduler\<close> runs every process that is runnable when the pass starts.
\<close>

subsection \<open>Traps\<close>

lemma suspend_after:
  assumes "psafe m" "run_inv s"
  shows "case suspend m s of Ret x t \<Rightarrow> run_inv t | Panic e \<Rightarrow> True | Block ch t \<Rightarrow> ch = ChanSched \<and> stopped t"
proof -
  have a: "after (\<lambda>_. run_inv) (m s)" using assms by (simp add: psafe_def triple_def)
  show ?thesis
  proof (cases "m s")
    case (Ret x t)
    then have "after (\<lambda>_. run_inv) (deliver t)" using a psafe_wakeup(2) by (simp add: after_def psafe_def triple_def)
    then show ?thesis using Ret by (simp add: suspend_def kern_defs deliver_def after_def)
  next
    case (Block ch t)
    show ?thesis
    proof (cases "ch = ChanSched")
      case False
      then have "run_inv t" using a Block by (simp add: after_def)
      then have s: "after (\<lambda>_ _. False) (sleep ch t)" using triple_sleep [of ch "\<lambda>_ _. False"] by (simp add: triple_def)
      then have "\<exists>u. sleep ch t = Block ChanSched u \<and> stopped u \<or> (\<exists>e. sleep ch t = Panic e)"
        by (cases "sleep ch t") (auto simp: after_def sleep_def sched_def modcur_def modproc_def curp_def myproc_def getproc_def deliver_def kern_defs
          split: option.splits if_splits)
      then show ?thesis using Block False by (auto simp: suspend_def kern_defs)
    qed (use a Block in \<open>simp add: suspend_def after_def\<close>)
  qed (simp add: suspend_def)
qed


text \<open>\<open>init\<close> waits for its child, the process that runs.\<close>

definition two_procs :: kernel_state where
  "two_procs = kernel_example\<lparr>ptable := example_proc\<lparr>p_state := SLEEPING, p_chan := Some (ChanProc 0)\<rparr> #
     example_proc\<lparr>p_pid := 2, p_parent := Some 0\<rparr> # replicate (NPROC - 2) unused_proc,
     nextpid := 3, curproc := Some 1\<rparr>"

lemma two_procs_nth:
  "i < NPROC \<Longrightarrow> ptable two_procs ! i = (if i = 0 then example_proc\<lparr>p_state := SLEEPING, p_chan := Some (ChanProc 0)\<rparr>
     else if i = 1 then example_proc\<lparr>p_pid := 2, p_parent := Some 0\<rparr> else unused_proc)"
  by (cases i; cases "i - 1") (auto simp: two_procs_def NPROC_def)

lemma two_procs_inv: "run_inv two_procs"
proof -
  have l: "length (ptable two_procs) = NPROC" by (simp add: two_procs_def NPROC_def)
  have "slot_ok (ptable two_procs) 3 (Some 1) i" if "i < NPROC" for i
    unfolding slot_ok_def l two_procs_nth [OF that] using two_procs_nth [of 0]
    by (auto simp: example_proc_def unused_proc_def alive_def NPROC_def)
  moreover have "distinct_pids (ptable two_procs)"
    unfolding distinct_pids_def l
    by (intro allI impI) (simp add: two_procs_nth example_proc_def unused_proc_def split: if_splits)
  moreover have "nextpid two_procs = 3" "curproc two_procs = Some 1" "initproc two_procs = Some 0"
    by (simp_all add: two_procs_def kernel_example_def fs_state.defs)
  ultimately show ?thesis using l two_procs_nth [of 0] two_procs_nth [of 1]
    by (simp add: run_inv_def tab_inv_def alive_def example_proc_def unused_proc_def NPROC_def)
qed


subsection \<open>The scheduler\<close>

definition idle_inv :: "kernel_state \<Rightarrow> bool" where
  "idle_inv s \<longleftrightarrow> tab_inv s \<and> curproc s = None"

text \<open>Processes that run, or may be chosen, have an address space.\<close>

definition mapped :: "kernel_state \<Rightarrow> bool" where
  "mapped s \<longleftrightarrow> (\<forall>i<NPROC. alive (ptable s ! i) \<longrightarrow> p_pgdir (ptable s ! i) \<noteq> 0)"

text \<open>
  What a process may do in its turn: it comes back to the scheduler in another state than RUNNING, and the other runnable
  processes still are.
\<close>

definition turn :: "nat \<Rightarrow> kernel_state \<Rightarrow> kernel_state \<Rightarrow> bool" where
  "turn i s t \<longleftrightarrow> stopped t \<and> mapped t \<and> curproc t = Some i \<and>
     (\<forall>j<NPROC. j \<noteq> i \<and> p_state (ptable s ! j) = RUNNABLE \<longrightarrow> p_state (ptable t ! j) = RUNNABLE)"

definition good_turns :: "(nat \<Rightarrow> unit kk) \<Rightarrow> bool" where
  "good_turns run \<longleftrightarrow> (\<forall>i s. run_inv s \<and> mapped s \<and> curproc s = Some i \<longrightarrow> (\<exists>t. run i s = Ret () t \<and> turn i s t))"

lemma dispatch_inv:
  assumes "idle_inv s" "i < NPROC" "p_state (ptable s ! i) = RUNNABLE"
  shows "run_inv (s\<lparr>curproc := Some i, ptable := (ptable s)[i := (ptable s ! i)\<lparr>p_state := RUNNING\<rparr>]\<rparr>)"
proof -
  let ?t = "s\<lparr>curproc := Some i\<rparr>"
  have inv: "tab_inv s" "curproc s = None" using assms(1) by (simp_all add: idle_inv_def)
  have l: "length (ptable s) = NPROC" using inv(1) by (simp add: tab_inv_def)
  have "slot_ok (ptable s) (nextpid s) (Some i) k" if "k < NPROC" for k
  proof -
    have "slot_ok (ptable s) (nextpid s) None k" using inv that by (simp add: tab_inv_def)
    then show ?thesis by (simp add: slot_ok_def)
  qed
  then have t: "tab_inv ?t" using inv(1) assms(2,3) by (simp add: tab_inv_def)
  have "slot_ok (ptable s) (nextpid s) None i" using inv assms(2) by (simp add: tab_inv_def)
  then have "tab_inv (?t\<lparr>ptable := (ptable ?t)[i := (ptable ?t ! i)\<lparr>p_state := RUNNING\<rparr>]\<rparr>)"
    using t assms(2,3) l by (intro tab_inv_upd_same) (auto simp: slot_ok_def alive_def)
  then show ?thesis using l assms(2) by (simp add: run_inv_def)
qed

lemma leave_inv: "stopped s \<Longrightarrow> idle_inv (s\<lparr>curproc := None\<rparr>)"
proof -
  assume "stopped s"
  then obtain c where c: "tab_inv s" "curproc s = Some c" "p_state (ptable s ! c) \<noteq> RUNNING" by (auto simp: stopped_def)
  have "slot_ok (ptable s) (nextpid s) None k" if "k < NPROC" for k
  proof -
    have "slot_ok (ptable s) (nextpid s) (Some c) k" using c that by (simp add: tab_inv_def)
    then show ?thesis using c(3) by (auto simp: slot_ok_def)
  qed
  then show ?thesis using c(1) by (simp add: idle_inv_def tab_inv_def)
qed

lemma pview_cpu [simp]: "pview (s\<lparr>cpu_of := c\<rparr>) = pview s"
  by (simp add: pview_def)

lemma mapped_cpu [simp]: "mapped (s\<lparr>cpu_of := c\<rparr>) = mapped s" "mapped (s\<lparr>curproc := x\<rparr>) = mapped s"
  by (simp_all add: mapped_def)

text \<open>One step of the loop that finds a runnable process.\<close>

lemma sched_turn:
  assumes "good_turns run" "idle_inv s" "mapped s" "i < NPROC" "p_state (ptable s ! i) = RUNNABLE"
  shows "\<exists>t. sched_round run (i # is) s = kbind (sched_round run is) (\<lambda>js. kret (i # js)) t \<and> idle_inv t \<and> mapped t \<and>
    (\<forall>j<NPROC. j \<noteq> i \<and> p_state (ptable s ! j) = RUNNABLE \<longrightarrow> p_state (ptable t ! j) = RUNNABLE)"
proof -
  have pg: "p_pgdir (ptable s ! i) \<noteq> 0" using assms(3-5) by (simp add: mapped_def alive_def)
  have l: "length (ptable s) = NPROC" using assms(2) by (simp add: idle_inv_def tab_inv_def)
  obtain c where c: "switchuvm i (s\<lparr>curproc := Some i\<rparr>) = Ret () (s\<lparr>curproc := Some i, cpu_of := c\<rparr>)"
    using pg by (simp add: switchuvm_def modcpu_def getproc_def curp_def myproc_def kern_defs)
  let ?ps = "(ptable s)[i := (ptable s ! i)\<lparr>p_state := RUNNING\<rparr>]"
  let ?t = "s\<lparr>curproc := Some i, cpu_of := c, ptable := ?ps\<rparr>"
  have "pview ?t = pview (s\<lparr>curproc := Some i, ptable := ?ps\<rparr>)" by (simp add: pview_def)
  then have "run_inv ?t" using dispatch_inv [OF assms(2,4,5)] by (rule pview_inv(2))
  moreover have "mapped ?t" using assms(3) l pg by (simp add: mapped_def nth_upd)
  ultimately have "run_inv ?t \<and> mapped ?t \<and> curproc ?t = Some i" by simp
  from assms(1) [unfolded good_turns_def, rule_format, OF this]
  obtain u where u: "run i ?t = Ret () u" "turn i ?t u" by blast
  let ?v = "u\<lparr>cpu_of := cpu_of u\<lparr>c_cr3 := v2p (kpgdir u)\<rparr>, curproc := None\<rparr>"
  have "sched_round run (i # is) s = kbind (sched_round run is) (\<lambda>js. kret (i # js)) ?v"
    using assms(5) c u(1) by (simp add: switchkvm_def modcpu_def modproc_def getproc_def kbind_def kget_def kmod_def)
  moreover have "idle_inv ?v" using u(2) leave_inv [OF pview_inv(3) [OF pview_cpu]] by (simp add: turn_def)
  moreover have "mapped ?v" using u(2) by (simp add: turn_def)
  moreover have "p_state (ptable ?v ! j) = RUNNABLE" if "j < NPROC" "j \<noteq> i" "p_state (ptable s ! j) = RUNNABLE" for j
    using u(2) that l by (simp add: turn_def)
  ultimately show ?thesis by blast
qed

lemma sched_round_runs:
  assumes "good_turns run" "idle_inv s" "mapped s" "sorted is" "distinct is" "set is \<subseteq> {..<NPROC}"
  shows "\<exists>js t. sched_round run is s = Ret js t \<and> idle_inv t \<and> mapped t \<and> sorted js \<and> distinct js \<and> set js \<subseteq> set is \<and>
    {i \<in> set is. p_state (ptable s ! i) = RUNNABLE} \<subseteq> set js"
  using assms(2-)
proof (induction "is" arbitrary: s)
  case Nil
  then show ?case by (simp add: kret_def)
next
  case (Cons i "is")
  note rest = Cons.prems(3-5)
  show ?case
  proof (cases "p_state (ptable s ! i) = RUNNABLE")
    case False
    then have "sched_round run (i # is) s = sched_round run is s" by (simp add: getproc_def kern_defs)
    then show ?thesis using Cons.IH [OF Cons.prems(1,2)] rest False by fastforce
  next
    case True
    have i: "i < NPROC" "set is \<subseteq> {..<NPROC}" "i \<notin> set is" using rest by auto
    obtain t where t: "sched_round run (i # is) s = kbind (sched_round run is) (\<lambda>js. kret (i # js)) t" "idle_inv t" "mapped t"
      and keep: "\<And>j. j < NPROC \<Longrightarrow> j \<noteq> i \<Longrightarrow> p_state (ptable s ! j) = RUNNABLE \<Longrightarrow> p_state (ptable t ! j) = RUNNABLE"
      using sched_turn [OF assms(1) Cons.prems(1,2) i(1) True] by metis
    obtain js u where js: "sched_round run is t = Ret js u" "idle_inv u" "mapped u" "sorted js" "distinct js" "set js \<subseteq> set is"
      "{i \<in> set is. p_state (ptable t ! i) = RUNNABLE} \<subseteq> set js"
      using Cons.IH [OF t(2,3)] rest by auto
    have "sched_round run (i # is) s = Ret (i # js) u" using t(1) js(1) by (simp add: kern_defs)
    moreover have "sorted (i # js)" "distinct (i # js)" using js(4-6) rest i(3) by auto
    moreover have "{k \<in> set (i # is). p_state (ptable s ! k) = RUNNABLE} \<subseteq> set (i # js)"
      using js(7) keep i by auto
    ultimately show ?thesis using js by auto
  qed
qed

text \<open>
  C2. A pass of the scheduler over the table leaves no runnable process out. If every turn of a process ends (\<open>good_turns\<close>: the
  process reaches \<open>sched\<close>, and the processes that were runnable still are), the pass ends, nobody is current and the invariant of
  the table holds, and every process that was RUNNABLE when the pass began has had its turn, once, in the order of the table.
\<close>

theorem scheduler_pass_fair:
  assumes "good_turns run" "idle_inv s" "mapped s"
  shows "\<exists>js t. sched_round run [0..<NPROC] s = Ret js t \<and> scheduler_pass run s = Ret (js \<noteq> []) t \<and> idle_inv t \<and> sorted js \<and> distinct js \<and>
    {i. i < NPROC \<and> p_state (ptable s ! i) = RUNNABLE} \<subseteq> set js"
proof -
  have l: "length (ptable s) = NPROC" using assms(2) by (simp add: idle_inv_def tab_inv_def)
  obtain js t where "sched_round run [0..<NPROC] s = Ret js t" "idle_inv t" "sorted js" "distinct js"
    "{i \<in> set [0..<NPROC]. p_state (ptable s ! i) = RUNNABLE} \<subseteq> set js"
    using sched_round_runs [OF assms, of "[0..<NPROC]"] by (auto simp: lessThan_atLeast0)
  then show ?thesis using l by (intro exI [of _ js] exI [of _ t]) (auto simp: scheduler_pass_def kern_defs)
qed

text \<open>A process that does nothing but yield; both processes of the example are runnable.\<close>

lemma yield_turns: "good_turns (\<lambda>i. modproc i (\<lambda>p. p\<lparr>p_state := RUNNABLE\<rparr>))"
  unfolding good_turns_def
proof (intro allI impI)
  fix i s assume s: "run_inv s \<and> mapped s \<and> curproc s = Some i"
  let ?t = "s\<lparr>ptable := (ptable s)[i := (ptable s ! i)\<lparr>p_state := RUNNABLE\<rparr>]\<rparr>"
  have "after (\<lambda>_. stopped) (modcur (\<lambda>p. p\<lparr>p_state := RUNNABLE\<rparr>) s)"
    using triple_stop [of "\<lambda>p. p\<lparr>p_state := RUNNABLE\<rparr>"] s by (simp add: triple_def)
  then have "stopped ?t" using s by (simp add: modcur_def modproc_def myproc_def kern_defs after_def)
  moreover have "length (ptable s) = NPROC" "i < NPROC" "alive (ptable s ! i)"
    using s by (auto simp: run_inv_def tab_inv_def alive_def)
  ultimately have "turn i s ?t" using s by (simp add: turn_def mapped_def nth_upd)
  then show "\<exists>t. modproc i (\<lambda>p. p\<lparr>p_state := RUNNABLE\<rparr>) s = Ret () t \<and> turn i s t"
    by (simp add: modproc_def kmod_def)
qed

definition two_runnable :: kernel_state where
  "two_runnable = kernel_example\<lparr>ptable := example_proc\<lparr>p_state := RUNNABLE\<rparr> #
     example_proc\<lparr>p_state := RUNNABLE, p_pid := 2, p_parent := Some 0\<rparr> # replicate (NPROC - 2) unused_proc,
     nextpid := 3, curproc := None\<rparr>"

lemma two_runnable_nth:
  "i < NPROC \<Longrightarrow> ptable two_runnable ! i = (if i = 0 then example_proc\<lparr>p_state := RUNNABLE\<rparr>
     else if i = 1 then example_proc\<lparr>p_state := RUNNABLE, p_pid := 2, p_parent := Some 0\<rparr> else unused_proc)"
  by (cases i; cases "i - 1") (auto simp: two_runnable_def NPROC_def)

lemma two_runnable_inv: "idle_inv two_runnable" "mapped two_runnable"
proof -
  have l: "length (ptable two_runnable) = NPROC" by (simp add: two_runnable_def NPROC_def)
  have "slot_ok (ptable two_runnable) 3 None i" if "i < NPROC" for i
    unfolding slot_ok_def l two_runnable_nth [OF that] using two_runnable_nth [of 0]
    by (auto simp: example_proc_def unused_proc_def alive_def NPROC_def)
  moreover have "distinct_pids (ptable two_runnable)"
    unfolding distinct_pids_def l
    by (intro allI impI) (simp add: two_runnable_nth example_proc_def unused_proc_def split: if_splits)
  moreover have "nextpid two_runnable = 3" "curproc two_runnable = None" "initproc two_runnable = Some 0"
    by (simp_all add: two_runnable_def kernel_example_def fs_state.defs)
  ultimately show "idle_inv two_runnable" using l two_runnable_nth [of 0] two_runnable_nth [of 1]
    by (simp add: idle_inv_def tab_inv_def alive_def example_proc_def unused_proc_def NPROC_def)
  show "mapped two_runnable"
    unfolding mapped_def by (simp add: two_runnable_nth example_proc_def unused_proc_def alive_def)
qed

theorem scheduler_pass_fair_witness:
  "\<exists>js t. sched_round (\<lambda>i. modproc i (\<lambda>p. p\<lparr>p_state := RUNNABLE\<rparr>)) [0..<NPROC] two_runnable = Ret js t \<and> {0, 1} \<subseteq> set js \<and> idle_inv t"
proof -
  have "{0, 1} \<subseteq> {i. i < NPROC \<and> p_state (ptable two_runnable ! i) = RUNNABLE}"
    using two_runnable_nth [of 0] two_runnable_nth [of 1] by (simp add: NPROC_def)
  then show ?thesis using scheduler_pass_fair [OF yield_turns two_runnable_inv] by blast
qed

end
