(* ===== verification/Typing.thy ===== *)
theory Typing
  imports Schedule
begin

text \<open>
  The tables of the kernel keep their type: as many processes, descriptors and files as the arrays of the code have entries, every descriptor
  an index into the file table, and the current process an index into the process table. Every trap keeps this, so no
  access of the kernel to these tables, by a descriptor or a process, is outside their bounds.
\<close>

definition ofile_ok :: "nat option list \<Rightarrow> bool" where
  "ofile_ok fds \<longleftrightarrow> length fds = NOFILE \<and> (\<forall>f. Some f \<in> set fds \<longrightarrow> f < NFILE)"

definition tables_ok :: "kernel_state \<Rightarrow> bool" where
  "tables_ok s \<longleftrightarrow> length (ptable s) = NPROC \<and> (\<forall>p\<in>set (ptable s). ofile_ok (p_ofile p)) \<and>
     length (ftable s) = NFILE \<and> (\<forall>c. curproc s = Some c \<longrightarrow> c < NPROC)"

text \<open>\<open>yields m Q\<close>: the routine \<open>m\<close> keeps the tables well typed, whether it returns or gives up the processor, and \<open>Q\<close> holds of its result.\<close>

definition yields :: "'a kk \<Rightarrow> ('a \<Rightarrow> bool) \<Rightarrow> bool" where
  "yields m Q \<longleftrightarrow> (\<forall>s. tables_ok s \<longrightarrow> (case m s of Ret x t \<Rightarrow> tables_ok t \<and> Q x | Panic e \<Rightarrow> True | Block ch t \<Rightarrow> tables_ok t))"

abbreviation tsafe :: "'a kk \<Rightarrow> bool" where
  "tsafe m \<equiv> yields m (\<lambda>_. True)"

named_theorems tsafe_intros \<open>routines that keep the tables well typed\<close>

lemma yields_kbind:
  assumes m: "yields m Q" and k: "\<And>x. Q x \<Longrightarrow> yields (k x) R"
  shows "yields (kbind m k) R"
  unfolding yields_def
proof (intro allI impI)
  fix s assume s: "tables_ok s"
  show "case kbind m k s of Ret x t \<Rightarrow> tables_ok t \<and> R x | Panic e \<Rightarrow> True | Block ch t \<Rightarrow> tables_ok t"
  proof (cases "m s")
    case (Ret x t)
    then have "tables_ok t" "Q x" using m s by (auto simp: yields_def)
    then show ?thesis using Ret k [of x] by (simp add: yields_def kbind_def)
  next
    case (Block ch t)
    then show ?thesis using m s by (auto simp: yields_def kbind_def)
  qed (simp add: kbind_def)
qed

lemma yields_if [tsafe_intros]: "(b \<Longrightarrow> yields m Q) \<Longrightarrow> (\<not> b \<Longrightarrow> yields n Q) \<Longrightarrow> yields (if b then m else n) Q"
  by simp

lemma yields_option [tsafe_intros]:
  "(x = None \<Longrightarrow> yields m Q) \<Longrightarrow> (\<And>y. x = Some y \<Longrightarrow> yields (k y) Q) \<Longrightarrow> yields (case x of None \<Rightarrow> m | Some y \<Rightarrow> k y) Q"
  by (cases x) simp_all

lemma yields_prod [tsafe_intros]: "(\<And>a b. x = (a, b) \<Longrightarrow> yields (k a b) Q) \<Longrightarrow> yields (case x of (a, b) \<Rightarrow> k a b) Q"
  by (cases x) simp

lemma yields_Let [tsafe_intros]: "yields (k v) Q \<Longrightarrow> yields (Let v k) Q"
  by simp

lemma yields_kret [tsafe_intros]: "Q x \<Longrightarrow> yields (kret x) Q" "yields (kpanic e) Q" "tsafe (kget g)" "yields (ksleep ch) Q"
  by (simp_all add: yields_def kern_defs)

lemmas tsafe_kbind [tsafe_intros] = yields_kbind [where Q = "\<lambda>_. True"]

subsection \<open>What leaves the tables alone\<close>

definition tview :: "kernel_state \<Rightarrow> nat option list list \<times> nat \<times> nat option" where
  "tview s = (map p_ofile (ptable s), length (ftable s), curproc s)"

interpretation tv: upper_view tview
  by unfold_locales (simp_all add: tview_def)

lemma tview_ok: "tview t = tview s \<Longrightarrow> tables_ok s \<Longrightarrow> tables_ok t"
proof -
  assume t: "tview t = tview s" and s: "tables_ok s"
  then have m: "map p_ofile (ptable t) = map p_ofile (ptable s)" by (simp add: tview_def)
  have "length (ptable t) = length (ptable s)" using map_eq_imp_length_eq [OF m] .
  moreover have "p_ofile ` set (ptable t) = p_ofile ` set (ptable s)" using arg_cong [OF m, of set] by simp
  then have "\<forall>p\<in>set (ptable t). ofile_ok (p_ofile p)" using s unfolding tables_ok_def by (metis imageE image_eqI)
  ultimately show ?thesis using t s by (simp add: tables_ok_def tview_def)
qed

lemma tsafe_keeps: "keeps tview m \<Longrightarrow> tsafe m"
  unfolding yields_def
proof (intro allI impI)
  fix s assume k: "keeps tview m" and s: "tables_ok s"
  then show "case m s of Ret x t \<Rightarrow> tables_ok t \<and> True | Panic e \<Rightarrow> True | Block ch t \<Rightarrow> tables_ok t"
    using spec [OF k [unfolded keeps_def], of s] tview_ok by (cases "m s") auto
qed

lemma map_upd_same: "(\<And>p. f (u p) = f p) \<Longrightarrow> map f (ps[i := u (ps ! i)]) = map f ps"
  by (rule nth_equalityI) (auto simp: nth_upd)

lemma keeps_tview [keeps_intros]:
  "(\<And>p. p_ofile (u p) = p_ofile p) \<Longrightarrow> keeps tview (modproc i u)" "(\<And>p. p_ofile (u p) = p_ofile p) \<Longrightarrow> keeps tview (modcur u)"
  "keeps tview (getfile k)" "keeps tview (modfile k g)" "keeps tview (getpipe k)" "keeps tview (setpipe k p)" "keeps tview (modcpu h)"
  "keeps tview (wakeup ch)" "keeps tview deliver"
proof -
  show m: "keeps tview (modproc i u)" if "\<And>p. p_ofile (u p) = p_ofile p" for i u
    using that map_upd_same [of p_ofile u] by (simp add: modproc_def keeps_kmod tview_def)
  show "keeps tview (modcur u)" if "\<And>p. p_ofile (u p) = p_ofile p" for u
    unfolding modcur_def using that by (intro keeps_intros m)
  have w: "map p_ofile (wakeup1 ch ps) = map p_ofile ps" for ch ps by (simp add: wakeup1_def)
  show "keeps tview (wakeup ch)" by (simp add: wakeup_def keeps_kmod tview_def w)
  have "map p_ofile (fold wakeup1 chs ps) = map p_ofile ps" for chs ps by (induction chs arbitrary: ps) (simp_all add: w)
  then show "keeps tview deliver" by (simp add: deliver_def keeps_kmod tview_def)
qed (auto simp: getfile_def modfile_def getpipe_def setpipe_def modcpu_def tview_def intro!: keeps_intros keeps_kmod)

lemma keeps_tview_user [keeps_intros]:
  "keeps tview (ldub va)" "keeps tview (stub va b)" "keeps tview (copy_in va n)" "keeps tview (copy_to va bs)" "keeps tview (trap_pgflt cr2)"
proof -
  show f: "keeps tview (trap_pgflt cr2)" for cr2
    by (auto simp: trap_pgflt_def Let_def intro!: keeps_intros)
  have t: "keeps tview (touch va)" for va
    by (auto simp: touch_def page_at_def intro!: keeps_intros f)
  show l: "keeps tview (ldub va)" for va
    by (auto simp: ldub_def intro!: keeps_intros t)
  show s: "keeps tview (stub va b)" for va b
    by (auto simp: stub_def intro!: keeps_intros t)
  show "keeps tview (copy_in va n)" by (induction va n rule: copy_in.induct) (auto intro!: keeps_intros l)
  show "keeps tview (copy_to va bs)" by (induction va bs rule: copy_to.induct) (auto intro!: keeps_intros s)
qed

lemma tsafe_leaf [tsafe_intros]:
  "tsafe (getpipe k)" "tsafe (setpipe k p)" "tsafe (getfile fd)" "tsafe (modfile fd h)"
  "tsafe myproc" "tsafe (getproc i)" "tsafe (ldub va)" "tsafe (stub va b)" "tsafe (copy_in va n)" "tsafe (copy_to va bs)"
  "tsafe begin_op" "tsafe end_op" "tsafe (iput ip)" "tsafe (ilock ip)" "tsafe (iunlock ip)" "tsafe (stati ip)"
  "tsafe (kfree v)" "tsafe kalloc" "tsafe (cprintf fmt args)" "tsafe (end_with r)" "tsafe (iunlockput ip)" "tsafe (wakeup ch)" "tsafe deliver"
  "tsafe (kname path)" "tsafe (kparent path)" "tsafe (create path ty major minor)" "tsafe (open_inode path omode)" "tsafe (link_bad ip)"
  "tsafe (unlink_bad dp)" "tsafe (getinode ip)" "tsafe (modinode ip g)" "tsafe (iupdate ip)" "tsafe (dirlink kdevsw dp name inum)"
  "tsafe (dirlookup kdevsw dp name)" "tsafe (isdirempty dp)" "tsafe (writei kdevsw dp bs off n)" "tsafe (readi kdevsw ip off n)"
  "tsafe (kcwd path)" "tsafe (namei kdevsw cwd path)" "tsafe setupkvm" "tsafe (load_segments pgdir ip m off' sz)"
  "tsafe (build_stack pgdir sz argv)" "tsafe (exec_bad pgdir ipo)" "tsafe (freevm pgdir)" "tsafe (allocuvm pgdir old new)"
  "tsafe (deallocuvm pgdir old new)" "tsafe (copyuvm pgdir sz)" "tsafe (idup ip)"
  by (intro tsafe_keeps keeps_intros)+

subsection \<open>Descriptors\<close>

lemma yields_curp: "yields curp (\<lambda>p. ofile_ok (p_ofile p))"
  by (auto simp: yields_def curp_def myproc_def getproc_def kern_defs tables_ok_def split: option.split)

lemma tsafe_curp [tsafe_intros]: "tsafe curp"
  by (intro tsafe_keeps keeps_intros)

lemma tables_ok_modproc:
  assumes "tables_ok s" "\<And>p. ofile_ok (p_ofile p) \<Longrightarrow> ofile_ok (p_ofile (u p))"
  shows "tables_ok (s\<lparr>ptable := (ptable s)[i := u (ptable s ! i)]\<rparr>)"
proof (cases "i < length (ptable s)")
  case True
  then have "ofile_ok (p_ofile (u (ptable s ! i)))" using assms by (simp add: tables_ok_def)
  then show ?thesis using assms(1) set_update_subset_insert [of "ptable s" i] by (auto simp: tables_ok_def)
qed (use assms in \<open>simp add: tables_ok_def list_update_beyond\<close>)

lemma tsafe_modproc:
  "(\<And>p. ofile_ok (p_ofile p) \<Longrightarrow> ofile_ok (p_ofile (u p))) \<Longrightarrow> tsafe (modproc i u)"
  by (simp add: yields_def modproc_def kern_defs tables_ok_modproc)

lemma ofile_ok_upd: "ofile_ok fds \<Longrightarrow> (\<And>f. x = Some f \<Longrightarrow> f < NFILE) \<Longrightarrow> ofile_ok (fds[i := x])"
  using set_update_subset_insert [of fds i x] by (auto simp: ofile_ok_def)

lemma tsafe_set_fd:
  "(\<And>f. x = Some f \<Longrightarrow> f < NFILE) \<Longrightarrow> tsafe (modproc c (\<lambda>p. p\<lparr>p_ofile := (p_ofile p)[i := x]\<rparr>))"
  "(\<And>f. x = Some f \<Longrightarrow> f < NFILE) \<Longrightarrow> tsafe (modcur (\<lambda>p. p\<lparr>p_ofile := (p_ofile p)[i := x]\<rparr>))"
  by (auto simp: modcur_def intro!: tsafe_intros tsafe_modproc ofile_ok_upd)

lemma tsafe_fd [tsafe_intros]: "f < NFILE \<Longrightarrow> tsafe (fdalloc f)" "tsafe (clearfd fd)"
  by (auto simp: fdalloc_def clearfd_def intro!: tsafe_intros tsafe_set_fd)

lemma tsafe_pipe [tsafe_intros]: "tsafe (pipeclose k wr)" "tsafe (pipewrite k va m)" "tsafe (piperead k va m)"
proof -
  show "tsafe (pipeclose k wr)" by (auto simp: pipeclose_def intro!: tsafe_intros)
  have "tsafe (pipewrite_loop k va m n)" for k va m n
    by (induction k va m n rule: pipewrite_loop.induct) (auto intro!: tsafe_intros)
  then show "tsafe (pipewrite k va m)" by (simp add: pipewrite_def)
  have "tsafe (piperead_loop k va m i)" for k va m i
    by (induction k va m i rule: piperead_loop.induct) (auto intro!: tsafe_intros)
  then show "tsafe (piperead k va m)" by (auto simp: piperead_def intro!: tsafe_intros)
qed

lemma tsafe_file [tsafe_intros]:
  "tsafe (fileclose f)" "tsafe (filestat f a)" "tsafe (fileread f a n)" "tsafe (filewrite f a n)"
proof -
  have adv: "tsafe (advance f r)" for f r by (auto simp: advance_def intro!: tsafe_intros)
  show "tsafe (fileclose f)" by (auto simp: fileclose_def intro!: tsafe_intros)
  show "tsafe (filestat f a)" by (auto simp: filestat_def put_stat_def intro!: tsafe_intros)
  show "tsafe (fileread f a n)" by (auto simp: fileread_def intro!: tsafe_intros adv)
  have "tsafe (filewrite_loop f a i n)" for f a i n
  proof (induction f a i n rule: filewrite_loop.induct)
    case (1 f a i n)
    show ?case by (subst filewrite_loop.simps) (auto simp: Let_def intro!: tsafe_intros adv 1)
  qed
  then show "tsafe (filewrite f a n)" by (auto simp: filewrite_def intro!: tsafe_intros)
qed

text \<open>The routines that give out files: what they return is in the file table.\<close>

lemma yields_filealloc: "yields filealloc (\<lambda>r. \<forall>f. r = Some f \<longrightarrow> f < NFILE)"
proof -
  have "find_idx P (ftable s) = Some f \<Longrightarrow> tables_ok s \<Longrightarrow> f < NFILE" for P s f
    using find_idx_SomeD(1) by (fastforce simp: tables_ok_def)
  then show ?thesis
    by (auto simp: yields_def filealloc_def modfile_def kern_defs tables_ok_def split: option.split)
qed

lemma yields_filedup: "yields (filedup f) (\<lambda>g. g = f)" "tsafe (filedup f)"
  by (auto simp: filedup_def intro!: tsafe_intros)

lemma yields_pipealloc: "yields pipealloc (\<lambda>r. \<forall>f g. r = Some (f, g) \<longrightarrow> f < NFILE \<and> g < NFILE)"
proof -
  have "yields (pipealloc_bad f0 f1) (\<lambda>r. \<forall>f g. r = Some (f, g) \<longrightarrow> f < NFILE \<and> g < NFILE)" for f0 f1
    by (auto simp: pipealloc_bad_def intro!: tsafe_intros)
  then show ?thesis
    unfolding pipealloc_def by (auto intro!: yields_kbind [OF yields_filealloc] tsafe_intros)
qed

lemma tsafe_or_fail [tsafe_intros]: "tsafe m \<Longrightarrow> (\<And>x. tsafe (k x)) \<Longrightarrow> tsafe (or_fail m k)" "tsafe m \<Longrightarrow> (\<And>x. tsafe (k x)) \<Longrightarrow> tsafe (or_end m k)"
  by (auto simp: or_fail_def or_end_def intro!: tsafe_intros)

lemma tsafe_args [tsafe_intros]:
  "tsafe (fetchint a)" "tsafe (fetchstr a)" "tsafe (argint n)" "tsafe (argptr n sz)" "tsafe (argstr n)" "tsafe (argfd n)"
proof -
  have "tsafe (fetchstr_loop a n)" for a n by (induction a n rule: fetchstr_loop.induct) (auto intro!: tsafe_intros)
  then show fs: "tsafe (fetchstr a)" for a by (auto simp: fetchstr_def intro!: tsafe_intros)
  show fi: "tsafe (fetchint a)" for a by (auto simp: fetchint_def intro!: tsafe_intros)
  show ai: "tsafe (argint n)" for n by (auto simp: argint_def intro!: tsafe_intros fi)
  show "tsafe (argptr n sz)" by (auto simp: argptr_def intro!: tsafe_intros ai)
  show "tsafe (argstr n)" by (auto simp: argstr_def intro!: tsafe_intros ai fs)
  show "tsafe (argfd n)" by (auto simp: argfd_def intro!: tsafe_intros ai)
qed

lemma yields_argfd: "yields (argfd n) (\<lambda>r. \<forall>fd f. r = Some (fd, f) \<longrightarrow> fd < NOFILE \<and> f < NFILE)"
proof -
  have nth: "ofile_ok fds \<Longrightarrow> \<not> int NOFILE \<le> i \<Longrightarrow> fds ! nat i = Some f \<Longrightarrow> f < NFILE" for fds i f
    using nth_mem [of "nat i" fds] by (auto simp: ofile_ok_def NOFILE_def)
  show ?thesis
    unfolding argfd_def by (auto intro!: tsafe_intros yields_kbind [OF yields_curp] dest: nth)
qed

subsection \<open>System calls and traps\<close>

lemma yields_or_fail: "yields m Q \<Longrightarrow> (\<And>x. Q (Some x) \<Longrightarrow> tsafe (k x)) \<Longrightarrow> tsafe (or_fail m k)"
  unfolding or_fail_def by (erule yields_kbind) (auto intro!: tsafe_intros split: option.split)

lemma tsafe_sysfile [tsafe_intros]:
  "tsafe sys_dup" "tsafe sys_read" "tsafe sys_write" "tsafe sys_close" "tsafe sys_fstat" "tsafe sys_pipe"
proof -
  show "tsafe sys_dup" "tsafe sys_pipe"
    by (auto simp: sys_dup_def sys_pipe_def intro!: yields_or_fail [OF yields_argfd] yields_or_fail [OF yields_pipealloc]
        tsafe_intros yields_filedup(2) split: option.splits)
qed (auto simp: sys_read_def sys_write_def sys_close_def sys_fstat_def intro!: tsafe_intros)

lemma tsafe_links [tsafe_intros]: "tsafe sys_link" "tsafe sys_unlink"
  by (auto simp: sys_link_def sys_unlink_def intro!: tsafe_intros)

lemma tsafe_modcur:
  "(\<And>p. p_ofile (u p) = p_ofile p) \<Longrightarrow> tsafe (modcur u)" "(\<And>p. p_ofile (u p) = p_ofile p) \<Longrightarrow> tsafe (modproc i u)"
  by (intro tsafe_keeps keeps_intros; simp)+

lemma tsafe_open [tsafe_intros]: "tsafe sys_open" "tsafe sys_mkdir" "tsafe sys_mknod" "tsafe sys_chdir"
  by (auto simp: sys_open_def sys_mkdir_def sys_mknod_def sys_chdir_def
      intro!: yields_kbind [OF yields_filealloc] tsafe_intros tsafe_modcur split: option.splits)

lemma tsafe_exec [tsafe_intros]: "tsafe sys_exec"
proof -
  have sw: "tsafe (switchuvm i)" for i by (intro tsafe_keeps; auto simp: switchuvm_def intro!: keeps_intros)
  have i: "tsafe (install_image path pgdir sz entry sp)" for path pgdir sz entry sp
    by (auto simp: install_image_def intro!: tsafe_intros tsafe_modcur sw)
  have e: "tsafe (exec path argv)" for path argv
    by (auto simp: exec_def Let_def intro!: tsafe_intros i)
  have "tsafe (fetch_args n uargv)" for n uargv
    by (induction n uargv rule: fetch_args.induct) (auto intro!: tsafe_intros)
  then show ?thesis by (auto simp: sys_exec_def intro!: tsafe_intros e)
qed

lemma tsafe_sysproc [tsafe_intros]:
  "tsafe sys_kill" "tsafe sys_getpid" "tsafe sys_sbrk" "tsafe sys_sleep" "tsafe sys_uptime" "tsafe sys_print_free_frame_cnt"
  "tsafe sys_set_page_allocator" "tsafe sys_shmget" "tsafe sys_shmdel"
proof -
  have sw: "tsafe (switchuvm i)" for i by (intro tsafe_keeps; auto simp: switchuvm_def intro!: keeps_intros)
  have g: "tsafe (growproc n)" for n by (auto simp: growproc_def Let_def intro!: tsafe_intros tsafe_modcur sw)
  show "tsafe sys_sbrk" by (auto simp: sys_sbrk_def intro!: tsafe_intros g)
  have k: "tsafe (kill pid)" for pid by (auto simp: kill_def intro!: tsafe_intros tsafe_modcur)
  show "tsafe sys_kill" by (auto simp: sys_kill_def intro!: tsafe_intros k)
qed (auto simp: sys_getpid_def sys_sleep_def sleep_until_def sys_uptime_def sys_print_free_frame_cnt_def
    sys_set_page_allocator_def sys_shmget_def sys_shmdel_def Let_def intro!: tsafe_intros tsafe_modcur)

lemma tsafe_dup_files: "(\<And>f. Some f \<in> set fs \<Longrightarrow> f < NFILE) \<Longrightarrow> tsafe (dup_files np i fs)"
  by (induction np i fs rule: dup_files.induct)
    (auto intro!: yields_kbind [OF yields_filedup(1)] tsafe_intros tsafe_set_fd)

lemma yields_getproc: "yields myproc (\<lambda>c. c < NPROC)" "c < NPROC \<Longrightarrow> yields (getproc c) (\<lambda>p. ofile_ok (p_ofile p))"
  by (auto simp: yields_def myproc_def getproc_def kern_defs tables_ok_def split: option.split)

lemma tsafe_kmod: "(\<And>s. tables_ok s \<Longrightarrow> tables_ok (u s)) \<Longrightarrow> tsafe (kmod u)"
  by (simp add: yields_def)

lemma tsafe_fork [tsafe_intros]: "tsafe (fork fr)"
proof -
  have n: "tsafe (kmod (\<lambda>s. s\<lparr>nextpid := n\<rparr>))" for n by (rule tsafe_kmod) (simp add: tables_ok_def)
  have a: "tsafe (allocproc fr)"
    by (auto simp: allocproc_def intro!: tsafe_intros tsafe_modcur n)
  show ?thesis
    unfolding fork_def
    by (rule tsafe_kbind [OF a], rule yields_option, (simp add: yields_kret),
        rule yields_kbind [OF yields_getproc(1)], rule yields_kbind [OF yields_getproc(2)], assumption)
      (auto intro!: tsafe_intros tsafe_dup_files tsafe_modcur simp: ofile_ok_def)
qed

lemma tsafe_sched [tsafe_intros]: "tsafe sched" "tsafe yield" "tsafe (sleep ch)"
  by (auto simp: sched_def yield_def sleep_def intro!: tsafe_intros tsafe_modcur)

lemma tsafe_exit [tsafe_intros]: "tsafe exit"
proof -
  have cl: "tsafe (close_files c fd fs)" for c fd fs
    by (induction c fd fs rule: close_files.induct) (auto intro!: tsafe_intros tsafe_set_fd)
  have t: "tsafe (kmod (\<lambda>s. s\<lparr>ptable := g s\<rparr>))" if "\<And>s. map p_ofile (g s) = map p_ofile (ptable s)" for g
    by (intro tsafe_keeps keeps_kmod) (simp add: tview_def that)
  have w: "map p_ofile (wakeup_proc x ps) = map p_ofile ps" for x ps by (cases x) (auto simp: wakeup_proc_def wakeup1_def)
  have "map p_ofile (reparent c ini is ps) = map p_ofile ps" for c ini "is" ps
    by (induction c ini "is" ps rule: reparent.induct) (auto simp: Let_def w map_upd_same)
  then show ?thesis
    unfolding exit_def by (auto intro!: tsafe_intros cl t tsafe_modcur simp: w)
qed

lemma tsafe_wait [tsafe_intros]: "tsafe wait"
  by (auto simp: wait_def reap_def intro!: tsafe_intros tsafe_modcur)

lemma tsafe_console [tsafe_intros]: "tsafe (consoleintr cs)"
proof -
  have si: "tsafe (set_input i)" for i by (intro tsafe_keeps keeps_intros)
  have pc: "tsafe (consputc c)" for c by (intro tsafe_keeps keeps_intros)
  have ps: "tsafe (consputs out)" for out by (induction out) (auto intro!: tsafe_intros pc)
  have one: "tsafe (consoleintr1 c)" for c
    by (auto simp: consoleintr1_def Let_def intro!: tsafe_intros si pc ps)
  have l: "tsafe (consoleintr_loop cs d)" for d
    by (induction cs arbitrary: d) (auto intro!: tsafe_intros one)
  have pp: "tsafe (print_pcs as)" for as by (induction as) (auto intro!: tsafe_intros)
  have "tsafe (procdump_from xs)" for xs
    by (induction xs) (auto intro!: tsafe_intros pp)
  then show ?thesis by (auto simp: consoleintr_def procdump_def intro!: tsafe_intros l)
qed

lemma tsafe_lifecycle [tsafe_intros]: "tsafe (sys_fork fr)" "tsafe sys_exit" "tsafe sys_wait"
  by (auto simp: sys_fork_def sys_exit_def sys_wait_def intro!: tsafe_intros)

lemma tsafe_syscall [tsafe_intros]: "tsafe (syscall fr)"
proof -
  have "tsafe f" if "map_of (syscalls fr) n = Some f" for n f
    using map_of_SomeD [OF that] unfolding syscalls_def by (auto intro: tsafe_intros)
  then show ?thesis
    unfolding syscall_def Let_def
    by (intro tsafe_intros tsafe_modcur; auto split: if_splits)
qed

lemma tsafe_trap: "tsafe (trap fr kbd com1 tf)"
proof -
  have k: "tsafe (trap_exit_killed tf)" by (auto simp: trap_exit_killed_def intro!: tsafe_intros)
  have t: "tsafe trap_timer"
    unfolding trap_timer_def
    by (intro tsafe_intros tsafe_keeps [OF keeps_kmod]) (simp add: tview_def)
  have o: "tsafe (trap_other tf)" by (auto simp: trap_other_def intro!: tsafe_intros tsafe_modcur)
  have i: "tsafe (trap_irq tf kbd com1)" by (auto simp: trap_irq_def Let_def intro!: tsafe_intros t o)
  have f: "tsafe (trap_pgflt a)" for a by (intro tsafe_keeps keeps_intros)
  show ?thesis unfolding trap_def by (intro tsafe_intros k i f tsafe_modcur) simp_all
qed

lemma tsafe_suspend: "tsafe m \<Longrightarrow> tsafe (suspend m)" for m :: "'a kk"
  unfolding yields_def
proof (intro allI impI)
  fix s assume m: "\<forall>s. tables_ok s \<longrightarrow> (case m s of Ret x t \<Rightarrow> tables_ok t \<and> True | Panic e \<Rightarrow> True | Block ch t \<Rightarrow> tables_ok t)"
    and s: "tables_ok s"
  have d: "tsafe (kbind deliver (\<lambda>_. kret x))" "tsafe (kbind (sleep ch) (\<lambda>_. kpanic e) :: 'a kk)" for x :: 'a and ch e
    by (intro tsafe_intros; simp)+
  show "case suspend m s of Ret x t \<Rightarrow> tables_ok t \<and> True | Panic e \<Rightarrow> True | Block ch t \<Rightarrow> tables_ok t"
  proof (cases "m s")
    case (Ret x t)
    then have "tables_ok t" using m [rule_format, OF s] by simp
    then show ?thesis using Ret d(1) [of x, unfolded yields_def, rule_format, of t] by (simp add: suspend_def)
  next
    case (Block ch t)
    then have "tables_ok t" using m [rule_format, OF s] by simp
    then show ?thesis using Block d(2) [of ch "''unreachable''", unfolded yields_def, rule_format, of t] by (simp add: suspend_def)
  qed (simp add: suspend_def)
qed

text \<open>
  C8. Every trap keeps the tables of the kernel well typed. Whatever the trap is and whether the process goes on or gives up the processor, there are still
  \<open>NPROC\<close> processes with \<open>NOFILE\<close> descriptors each, every open descriptor is an index into the file table of \<open>NFILE\<close>
  entries, and the current process is an entry of the process table. A descriptor passed by a program is therefore looked up within the array only, and what it finds
  there is a file.
\<close>

theorem trap_keeps_types:
  assumes "tables_ok s"
  shows "case suspend (trap fr kbd com1 tf) s of Ret x t \<Rightarrow> tables_ok t | Panic e \<Rightarrow> True | Block ch t \<Rightarrow> tables_ok t"
  using tsafe_suspend [OF tsafe_trap, of fr kbd com1 tf, unfolded yields_def, rule_format, OF assms]
  by (cases "suspend (trap fr kbd com1 tf) s") simp_all

theorem trap_keeps_types_witness:
  "\<exists>t. suspend (trap 0 [] [] (zero_tf\<lparr>tf_trapno := T_IRQ0 + IRQ_TIMER\<rparr>)) two_procs = Block ChanSched t \<and> tables_ok t"
proof -
  let ?m = "trap 0 [] [] (zero_tf\<lparr>tf_trapno := T_IRQ0 + IRQ_TIMER\<rparr>)"
  have ok: "tables_ok two_procs"
    by (auto simp: tables_ok_def two_procs_def kernel_example_def fs_state.defs example_proc_def unused_proc_def ofile_ok_def
        NPROC_def NOFILE_def)
  have "\<exists>t. suspend ?m two_procs = Block ChanSched t"
    by (simp add: suspend_def trap_def trap_irq_def trap_timer_def trap_exit_killed_def yield_def sched_def modcur_def modproc_def curp_def
        myproc_def getproc_def wakeup_def wakeup1_def kern_defs two_procs_def kernel_example_def fs_state.defs trapno_defs
        example_proc_def unused_proc_def)
  then show ?thesis using trap_keeps_types [OF ok, of 0 "[]" "[]" "zero_tf\<lparr>tf_trapno := T_IRQ0 + IRQ_TIMER\<rparr>"] by auto
qed

end
