(* ===== verification/Badargs.thy ===== *)
theory Badargs
  imports Typing
begin

text \<open>
  System calls that are refused. The arguments of a call lie on the user stack, where a program may put anything; a call whose first
  argument is of no use returns \<open>-1\<close> and does nothing.
\<close>

text \<open>The first argument: None when its place is outside the process.\<close>

definition first_arg :: "kernel_state \<Rightarrow> proc \<Rightarrow> 32 word option \<Rightarrow> bool" where
  "first_arg s p r \<longleftrightarrow>
     (let a = tf_esp (p_tf p) + 4
      in case r of
        None \<Rightarrow> p_sz p \<le> a \<or> p_sz p < a + 4
      | Some w \<Rightarrow> a < p_sz p \<and> a + 4 \<le> p_sz p \<and> user_bytes s a (enc32 w))"

text \<open>
  A number that is no descriptor of an open file, a pointer outside the process, or an argument that is missing. (\<open>mkdir\<close>, \<open>mknod\<close> and \<open>chdir\<close> begin a
  transaction before they look at their arguments.)
\<close>

definition fd_calls :: "int list" where
  "fd_calls = [SYS_dup, SYS_read, SYS_write, SYS_close, SYS_fstat]"

definition str_calls :: "int list" where
  "str_calls = [SYS_open, SYS_link, SYS_unlink, SYS_exec]"

definition int_calls :: "int list" where
  "int_calls = [SYS_kill, SYS_sbrk, SYS_sleep, SYS_set_page_allocator, SYS_shmget, SYS_shmdel]"

definition refused :: "int \<Rightarrow> proc \<Rightarrow> 32 word option \<Rightarrow> bool" where
  "refused n p r \<longleftrightarrow>
     (case r of
        None \<Rightarrow> n \<in> set (SYS_pipe # fd_calls @ str_calls @ int_calls)
      | Some w \<Rightarrow>
          n \<in> set fd_calls \<and> (sint w < 0 \<or> int NOFILE \<le> sint w \<or> p_ofile p ! nat (sint w) = None) \<or>
          n \<in> set str_calls \<and> p_sz p \<le> w \<or>
          n = SYS_pipe \<and> (p_sz p \<le> w \<or> p_sz p < w + 8))"

lemma argint_first:
  assumes "curproc s = Some c" "first_arg s (ptable s ! c) r"
  shows "argint 0 s = Ret r s"
proof (cases r)
  case None
  then show ?thesis using assms by (auto simp: first_arg_def Let_def argint_def fetchint_def kstep kret_apply)
next
  case (Some w)
  let ?a = "tf_esp (p_tf (ptable s ! c)) + 4"
  have w: "?a < p_sz (ptable s ! c)" "?a + 4 \<le> p_sz (ptable s ! c)" "user_bytes s ?a (enc32 w)"
    using assms(2) Some by (simp_all add: first_arg_def Let_def)
  have "copy_in ?a 4 s = Ret (enc32 w) s" using copy_in_present [OF w(3)] by simp
  then have "fetchint ?a s = Ret (Some w) s" using assms(1) w by (simp add: fetchint_def kstep kbind_def [of "copy_in ?a 4"] kret_apply not_le not_less)
  then show ?thesis using assms(1) Some by (simp add: argint_def kstep)
qed

lemma or_fail_none: "m s = Ret None t \<Longrightarrow> or_fail m k s = Ret (-1) t"
  by (simp add: or_fail_def kbind_def kret_apply)

lemma refused_args:
  assumes "curproc s = Some c" "first_arg s (ptable s ! c) r" "refused n (ptable s ! c) r"
  shows "n \<in> set fd_calls \<Longrightarrow> argfd 0 s = Ret None s" "n \<in> set str_calls \<Longrightarrow> argstr 0 s = Ret None s"
    "n \<in> set int_calls \<Longrightarrow> argint 0 s = Ret None s" "n = SYS_pipe \<Longrightarrow> argptr 0 8 s = Ret None s"
proof -
  note a = argint_first [OF assms(1,2)]
  note d = fd_calls_def str_calls_def int_calls_def SYS_defs
  show "n \<in> set fd_calls \<Longrightarrow> argfd 0 s = Ret None s"
    using a assms(1,3) by (cases r) (auto simp: argfd_def kbind_def [of "argint 0"] kstep kret_apply refused_def d)
  show "n \<in> set str_calls \<Longrightarrow> argstr 0 s = Ret None s"
    using a assms(1,3) by (cases r) (auto simp: argstr_def fetchstr_def kbind_def [of "argint 0"] kstep kret_apply refused_def d)
  show "n \<in> set int_calls \<Longrightarrow> argint 0 s = Ret None s"
    using a assms(3) by (cases r) (auto simp: refused_def d)
  show "n = SYS_pipe \<Longrightarrow> argptr 0 8 s = Ret None s"
    using a assms(1,3) by (cases r) (auto simp: argptr_def kbind_def [of "argint 0"] kstep kret_apply refused_def d)
qed

lemma refused_call:
  assumes "curproc s = Some c" "first_arg s (ptable s ! c) r" "refused n (ptable s ! c) r"
  shows "n > 0 \<and> (\<exists>f. map_of (syscalls fr) n = Some f \<and> f s = Ret (-1) s)"
proof -
  note a = refused_args [OF assms]
  have "n \<in> set (SYS_pipe # fd_calls @ str_calls @ int_calls)" using assms(3) by (auto simp: refused_def split: option.splits)
  then consider "n \<in> set fd_calls" | "n \<in> set str_calls" | "n \<in> set int_calls" | "n = SYS_pipe" by auto
  then show ?thesis
  proof cases
    case 1
    note f = or_fail_none [of "argfd 0", OF a(1) [OF 1]]
    show ?thesis using 1 by (auto simp: fd_calls_def syscalls_def SYS_defs sys_dup_def sys_read_def sys_write_def sys_close_def sys_fstat_def f)
  next
    case 2
    note f = or_fail_none [of "argstr 0", OF a(2) [OF 2]]
    show ?thesis using 2 by (auto simp: str_calls_def syscalls_def SYS_defs sys_open_def sys_link_def sys_unlink_def sys_exec_def f)
  next
    case 3
    note f = or_fail_none [of "argint 0", OF a(3) [OF 3]]
    show ?thesis using 3
      by (auto simp: int_calls_def syscalls_def SYS_defs sys_kill_def sys_sbrk_def sys_sleep_def sys_set_page_allocator_def sys_shmget_def sys_shmdel_def f)
  next
    case 4
    note f = or_fail_none [of "argptr 0 8", OF a(4) [OF 4]]
    show ?thesis using 4 by (simp add: syscalls_def SYS_defs sys_pipe_def f)
  qed
qed



end
