(* ===== verification/Shell.thy ===== *)
theory Shell
  imports Sysfile
begin

text \<open>
  The shell, \<open>sh.c\<close>. The command line is the list of its bytes before the terminator, pointers into it are positions, and \<open>es\<close> is its
  length; a command is a tree whose strings are pairs of positions, as in the code. \<open>malloc\<close> is taken to succeed.
  The parser calls itself through \<open>parseblock\<close>; its definition counts the depth of calls (None when the count runs out), and a
  depth of four calls for each character is shown to be enough. What \<open>runcmd\<close> does is a tree of system calls, in which the
  results the code tests for choose the branch.
\<close>

section \<open>Parsing\<close>

definition MAXARGS :: nat where "MAXARGS = 10"

type_synonym span = "nat \<times> nat"

datatype 's cmd =
    ExecCmd "'s list"
  | RedirCmd "'s cmd" 's "32 word" nat
  | PipeCmd "'s cmd" "'s cmd"
  | ListCmd "'s cmd" "'s cmd"
  | BackCmd "'s cmd"

type_synonym pcmd = "span cmd"

definition whitespace :: "byte list" where "whitespace = [32, 9, 13, 10, 11]"
definition symbols :: "byte list" where "symbols = str ''<|>&;()''"

text \<open>The byte at a position; at \<open>es\<close> it is the terminator.\<close>

definition ch :: "byte list \<Rightarrow> nat \<Rightarrow> byte" where
  "ch b s = (if s < length b then b ! s else 0)"

function skip_ws :: "byte list \<Rightarrow> nat \<Rightarrow> nat" where
  "skip_ws b s = (if s < length b \<and> ch b s \<in> set whitespace then skip_ws b (s + 1) else s)"
  by pat_completeness auto
termination by (relation "measure (\<lambda>(b, s). length b - s)") auto

function skip_word :: "byte list \<Rightarrow> nat \<Rightarrow> nat" where
  "skip_word b s =
     (if s < length b \<and> ch b s \<notin> set whitespace \<and> ch b s \<notin> set symbols then skip_word b (s + 1) else s)"
  by pat_completeness auto
termination by (relation "measure (\<lambda>(b, s). length b - s)") auto

declare skip_ws.simps [simp del] skip_word.simps [simp del]

text \<open>A token, where it begins and ends, and the position after it.\<close>

definition gettoken :: "byte list \<Rightarrow> nat \<Rightarrow> byte \<times> span \<times> nat" where
  "gettoken b s =
     (let q = skip_ws b s; c = ch b q;
          (ret, e) =
            (if c = 0 then (0, q)
             else if c \<in> set (str ''|();&<'') then (c, q + 1)
             else if c = of_char CHR ''>'' then
               (if ch b (q + 1) = of_char CHR ''>'' then (of_char CHR ''+'', q + 2) else (c, q + 1))
             else (of_char CHR ''a'', skip_word b q))
      in (ret, (q, e), skip_ws b e))"

definition peek :: "byte list \<Rightarrow> nat \<Rightarrow> string \<Rightarrow> bool \<times> nat" where
  "peek b s toks = (let s = skip_ws b s in (ch b s \<noteq> 0 \<and> ch b s \<in> set (str toks), s))"

text \<open>Results: None when the depth is used up, the message of \<open>panic\<close>, or a value and the position after it.\<close>

type_synonym 'a parsed = "(string + 'a \<times> nat) option"

definition pret :: "'a \<Rightarrow> nat \<Rightarrow> 'a parsed" where "pret x s = Some (Inr (x, s))"
definition ppanic :: "string \<Rightarrow> 'a parsed" where "ppanic e = Some (Inl e)"
definition pbind :: "'a parsed \<Rightarrow> ('a \<Rightarrow> nat \<Rightarrow> 'b parsed) \<Rightarrow> 'b parsed" where
  "pbind m f = (case m of None \<Rightarrow> None | Some (Inl e) \<Rightarrow> Some (Inl e) | Some (Inr (x, s)) \<Rightarrow> f x s)"

lemmas parsed_defs = pret_def ppanic_def pbind_def

subsection \<open>Positions move forward\<close>

lemma skip_ws_ge: "s \<le> skip_ws b s"
  by (induction b s rule: skip_ws.induct) (subst skip_ws.simps, auto)

lemma skip_word_ge: "s \<le> skip_word b s"
  by (induction b s rule: skip_word.induct) (subst skip_word.simps, auto)

lemma skip_ws_le: "s \<le> length b \<Longrightarrow> skip_ws b s \<le> length b"
  by (induction b s rule: skip_ws.induct) (subst skip_ws.simps, auto)

lemma skip_word_le: "s \<le> length b \<Longrightarrow> skip_word b s \<le> length b"
  by (induction b s rule: skip_word.induct) (subst skip_word.simps, auto)

lemma skip_ws_stop: "skip_ws b s < length b \<Longrightarrow> ch b (skip_ws b s) \<notin> set whitespace"
  by (induction b s rule: skip_ws.induct) (subst skip_ws.simps, subst (asm) skip_ws.simps, auto)

lemma skip_ws_idem [simp]: "skip_ws b (skip_ws b s) = skip_ws b s"
  using skip_ws_stop [of b s] by (subst skip_ws.simps) auto

lemma ch_in: "ch b s \<noteq> 0 \<Longrightarrow> s < length b"
  by (simp add: ch_def split: if_splits)

text \<open>A token that is there is not empty; it lies in the line and the position after it is behind it.\<close>

lemma gettoken_span:
  assumes "gettoken b s = (tok, (q, e), s')"
  shows "s \<le> q" "q \<le> e" "e \<le> s'" "tok \<noteq> 0 \<Longrightarrow> q < e" "s \<le> length b \<Longrightarrow> s' \<le> length b"
proof -
  have q: "q = skip_ws b s" "s' = skip_ws b e" using assms by (auto simp: gettoken_def Let_def split: if_splits)
  show "s \<le> q" by (simp add: q skip_ws_ge)
  have w: "q < skip_word b q" if "ch b q \<noteq> 0" "ch b q \<notin> set (str ''|();&<'')" "ch b q \<noteq> of_char CHR ''>''"
  proof -
    have "ch b q \<notin> set symbols" using that by (auto simp: symbols_def str_def)
    moreover have "q < length b" by (rule ch_in [OF that(1)])
    moreover have "ch b q \<notin> set whitespace" using skip_ws_stop [of b s] \<open>q < length b\<close> q(1) by simp
    ultimately show ?thesis using skip_word_ge [of "q + 1" b] by (subst skip_word.simps) simp
  qed
  show "q \<le> e" "tok \<noteq> 0 \<Longrightarrow> q < e"
    using assms w skip_word_ge [of q b] by (auto simp: gettoken_def Let_def q(1) [symmetric] split: if_splits)
  show "e \<le> s'" by (simp add: q skip_ws_ge)
  assume s: "s \<le> length b"
  have "e \<le> length b"
    using assms skip_ws_le [OF s] skip_word_le [of q b] ch_in [of b q] ch_in [of b "q + 1"]
    by (auto simp: gettoken_def Let_def q(1) [symmetric] split: if_splits)
  then show "s' \<le> length b" by (simp add: q skip_ws_le)
qed

lemma peek_token:
  assumes "peek b s toks = (True, s')" "gettoken b s' = (tok, (q, e), s'')"
  shows "s \<le> s'" "s' < length b" "s' < s''" "q = s'" "tok \<noteq> 0"
proof -
  have s': "s' = skip_ws b s" "ch b s' \<noteq> 0" using assms(1) by (auto simp: peek_def Let_def)
  show "s \<le> s'" "s' < length b" using s' skip_ws_ge ch_in by auto
  show q: "q = s'" using assms(2) s'(1) by (auto simp: gettoken_def Let_def split: if_splits)
  show t: "tok \<noteq> 0" using assms(2) s' by (auto simp: gettoken_def Let_def split: if_splits)
  show "s' < s''" using gettoken_span(3,4) [OF assms(2)] t q by simp
qed

lemma peek_step:
  "(True, s') = peek b s toks \<Longrightarrow> (tok, (q, e), s'') = gettoken b s' \<Longrightarrow> s < length b \<and> s < s''"
  using peek_token [of b s toks s' tok q e s''] by simp

lemma gettoken_ge: "(tok, (q, e), s') = gettoken b s \<Longrightarrow> s \<le> s'"
  using gettoken_span(1-3) [of b s tok q e s'] by simp

lemma redir_step:
  "(True, s') = peek b s toks \<Longrightarrow> (tok, (q, e), s'') = gettoken b s' \<Longrightarrow> (tok', (q', e'), s3) = gettoken b s'' \<Longrightarrow> s < length b \<and> s < s3"
  using peek_step [of s' b s toks tok q e s''] gettoken_ge [of tok' q' e' s3 b s''] by simp

lemma peek_ge: "peek b s toks = (p, s') \<Longrightarrow> s \<le> s'" "peek b s toks = (p, s') \<Longrightarrow> s \<le> length b \<Longrightarrow> s' \<le> length b"
  by (auto simp: peek_def Let_def skip_ws_ge skip_ws_le)

lemma pbind_cong [fundef_cong]:
  "m = m' \<Longrightarrow> (\<And>x s. m' = Some (Inr (x, s)) \<Longrightarrow> f x s = f' x s) \<Longrightarrow> pbind m f = pbind m' f'"
  by (auto simp: pbind_def split: option.split sum.split)

lemma pbind_simps [simp]: "pbind (pret x s) f = f x s" "pbind (ppanic e) f = ppanic e" "pbind None f = None"
  by (simp_all add: parsed_defs)

lemma pbind_ret: "pbind m f = Some (Inr r) \<longleftrightarrow> (\<exists>x s. m = Some (Inr (x, s)) \<and> f x s = Some (Inr r))"
  by (auto simp: pbind_def split: option.split sum.split)

subsection \<open>The parser\<close>

text \<open>The loops over \<open>&\<close> and over redirections. A redirection is the file, the mode and the descriptor.\<close>

function back_loop :: "byte list \<Rightarrow> nat \<Rightarrow> pcmd \<Rightarrow> pcmd \<times> nat" where
  "back_loop b s c =
     (case peek b s ''&'' of (p, s) \<Rightarrow>
        if p then (case gettoken b s of (tok, qe, s) \<Rightarrow> back_loop b s (BackCmd c)) else (c, s))"
  by pat_completeness auto
termination
  by (relation "measure (\<lambda>(b, s, c). length b - s)") (auto dest: peek_step)

type_synonym 's redir = "'s \<times> 32 word \<times> nat"

definition redir_of :: "byte \<Rightarrow> span \<Rightarrow> span redir list" where
  "redir_of tok qe =
     (if tok = of_char CHR ''<'' then [(qe, O_RDONLY, 0)]
      else if tok = of_char CHR ''>'' then [(qe, O_WRONLY OR O_CREATE, 1)]
      else if tok = of_char CHR ''+'' then [(qe, O_WRONLY OR O_CREATE, 1)]
      else [])"

function parseredirs :: "byte list \<Rightarrow> nat \<Rightarrow> span redir list parsed" where
  "parseredirs b s =
     (case peek b s ''<>'' of (p, s) \<Rightarrow>
        if p then
          (case gettoken b s of (tok, _, s) \<Rightarrow>
           case gettoken b s of (tok', qe, s) \<Rightarrow>
             if tok' \<noteq> of_char CHR ''a'' then ppanic ''missing file for redirection''
             else pbind (parseredirs b s) (\<lambda>rs s. pret (redir_of tok qe @ rs) s))
        else pret [] s)"
  by pat_completeness auto
termination
  by (relation "measure (\<lambda>(b, s). length b - s)") (auto dest: redir_step)

definition redircmds :: "'s cmd \<Rightarrow> 's redir list \<Rightarrow> 's cmd" where
  "redircmds c rs = foldl (\<lambda>c (qe, mode, fd). RedirCmd c qe mode fd) c rs"

declare back_loop.simps [simp del] parseredirs.simps [simp del]

lemma parseredirs_ge: "parseredirs b s = Some (Inr (rs, s')) \<Longrightarrow> s \<le> s' \<and> (s \<le> length b \<longrightarrow> s' \<le> length b)"
proof (induction b s arbitrary: rs s' rule: parseredirs.induct)
  case (1 b s)
  obtain p s1 where p: "peek b s ''<>'' = (p, s1)" by fastforce
  obtain tok q e s2 where t: "gettoken b s1 = (tok, (q, e), s2)" by (metis prod.exhaust)
  obtain tok' q' e' s3 where t': "gettoken b s2 = (tok', (q', e'), s3)" by (metis prod.exhaust)
  have g: "s \<le> s1" "s1 \<le> s2" "s2 \<le> s3" "s \<le> length b \<Longrightarrow> s3 \<le> length b" "s \<le> length b \<Longrightarrow> s1 \<le> length b"
    using peek_ge [OF p] gettoken_span(1-3,5) [OF t] gettoken_span(1-3,5) [OF t'] by auto
  show ?case
  proof (cases "p \<and> tok' = of_char CHR ''a''")
    case True
    then obtain rs' where r: "parseredirs b s3 = Some (Inr (rs', s'))"
      using 1(2) p t t' by (subst (asm) parseredirs.simps) (auto simp: pbind_ret pret_def)
    have "s3 \<le> s' \<and> (s3 \<le> length b \<longrightarrow> s' \<le> length b)"
      using True p t t' r by (intro 1(1)) auto
    then show ?thesis using g by auto
  next
    case False
    then show ?thesis using 1(2) p t t' g by (subst (asm) parseredirs.simps) (auto simp: parsed_defs split: if_splits)
  qed
qed

text \<open>The loop of \<open>parseexec\<close>: the arguments, and the redirections between them.\<close>

function parseargs :: "byte list \<Rightarrow> nat \<Rightarrow> nat \<Rightarrow> (span list \<times> span redir list) parsed" where
  "parseargs b argc s =
     (case peek b s ''|)&;'' of (p, s) \<Rightarrow>
        if p then pret ([], []) s
        else
          case gettoken b s of (tok, qe, s) \<Rightarrow>
            if tok = 0 then pret ([], []) s
            else if tok \<noteq> of_char CHR ''a'' then ppanic ''syntax''
            else if argc + 1 \<ge> MAXARGS then ppanic ''too many args''
            else
              pbind (parseredirs b s) (\<lambda>rs s.
              pbind (parseargs b (argc + 1) s) (\<lambda>(as, rs') s.
              pret (qe # as, rs @ rs') s)))"
  by pat_completeness auto
termination
  by (relation "measure (\<lambda>(b, argc, s). MAXARGS - argc)") auto

declare parseargs.simps [simp del]

fun parseline :: "nat \<Rightarrow> byte list \<Rightarrow> nat \<Rightarrow> pcmd parsed"
and parsepipe :: "nat \<Rightarrow> byte list \<Rightarrow> nat \<Rightarrow> pcmd parsed"
and parseexec :: "nat \<Rightarrow> byte list \<Rightarrow> nat \<Rightarrow> pcmd parsed"
and parseblock :: "nat \<Rightarrow> byte list \<Rightarrow> nat \<Rightarrow> pcmd parsed" where
  "parseline 0 b s = None"
| "parseline (Suc n) b s =
     pbind (parsepipe n b s) (\<lambda>c s.
     case back_loop b s c of (c, s) \<Rightarrow>
     case peek b s '';'' of (p, s) \<Rightarrow>
       if p then
         (case gettoken b s of (tok, qe, s) \<Rightarrow> pbind (parseline n b s) (\<lambda>d s. pret (ListCmd c d) s))
       else pret c s)"
| "parsepipe 0 b s = None"
| "parsepipe (Suc n) b s =
     pbind (parseexec n b s) (\<lambda>c s.
     case peek b s ''|'' of (p, s) \<Rightarrow>
       if p then
         (case gettoken b s of (tok, qe, s) \<Rightarrow> pbind (parsepipe n b s) (\<lambda>d s. pret (PipeCmd c d) s))
       else pret c s)"
| "parseexec 0 b s = None"
| "parseexec (Suc n) b s =
     (case peek b s ''('' of (p, s) \<Rightarrow>
        if p then parseblock n b s
        else
          pbind (parseredirs b s) (\<lambda>rs s.
          pbind (parseargs b 0 s) (\<lambda>(as, rs') s.
          pret (redircmds (ExecCmd as) (rs @ rs')) s)))"
| "parseblock 0 b s = None"
| "parseblock (Suc n) b s =
     (case peek b s ''('' of (p, s) \<Rightarrow>
        if \<not> p then ppanic ''parseblock''
        else
          case gettoken b s of (tok, qe, s) \<Rightarrow>
            pbind (parseline n b s) (\<lambda>c s.
            case peek b s '')'' of (p, s) \<Rightarrow>
              if \<not> p then ppanic ''syntax - missing )''
              else
                case gettoken b s of (tok, qe, s) \<Rightarrow>
                  pbind (parseredirs b s) (\<lambda>rs s. pret (redircmds c rs) s)))"

text \<open>Terminating the strings in the buffer, which includes the terminator of the line.\<close>

fun nulterminate :: "pcmd \<Rightarrow> byte list \<Rightarrow> byte list" where
  "nulterminate (ExecCmd as) buf = foldl (\<lambda>buf (q, e). buf[e := 0]) buf as"
| "nulterminate (RedirCmd c (q, e) mode fd) buf = (nulterminate c buf)[e := 0]"
| "nulterminate (PipeCmd c d) buf = nulterminate d (nulterminate c buf)"
| "nulterminate (ListCmd c d) buf = nulterminate d (nulterminate c buf)"
| "nulterminate (BackCmd c) buf = nulterminate c buf"

text \<open>The result: the command and the buffer it points into, or what the shell prints before it exits.\<close>

definition parse_depth :: "byte list \<Rightarrow> nat" where
  "parse_depth b = 4 * length b + 4"

definition parsecmd :: "byte list \<Rightarrow> (byte list + pcmd \<times> byte list) option" where
  "parsecmd b =
     (case parseline (parse_depth b) b 0 of
        None \<Rightarrow> None
      | Some (Inl e) \<Rightarrow> Some (Inl (str e @ [10]))
      | Some (Inr (c, s)) \<Rightarrow>
          (case peek b s [] of (_, s) \<Rightarrow>
             if s \<noteq> length b then Some (Inl (str ''leftovers: '' @ drop s b @ [10] @ str ''syntax'' @ [10]))
             else Some (Inr (c, nulterminate c (b @ [0])))))"

section \<open>The parser ends, and its strings are the words of the line\<close>

definition plain :: "byte \<Rightarrow> bool" where
  "plain c \<longleftrightarrow> c \<noteq> 0 \<and> c \<notin> set whitespace \<and> c \<notin> set symbols"

definition is_word :: "byte list \<Rightarrow> span \<Rightarrow> bool" where
  "is_word b = (\<lambda>(q, e). q < e \<and> e \<le> length b \<and> (\<forall>i. q \<le> i \<and> i < e \<longrightarrow> plain (ch b i)) \<and> \<not> plain (ch b e))"

fun spans :: "pcmd \<Rightarrow> span list" where
  "spans (ExecCmd as) = as"
| "spans (RedirCmd c qe mode fd) = qe # spans c"
| "spans (PipeCmd c d) = spans c @ spans d"
| "spans (ListCmd c d) = spans c @ spans d"
| "spans (BackCmd c) = spans c"

fun argc_ok :: "'s cmd \<Rightarrow> bool" where
  "argc_ok (ExecCmd as) = (length as < MAXARGS)"
| "argc_ok (RedirCmd c qe mode fd) = argc_ok c"
| "argc_ok (PipeCmd c d) = (argc_ok c \<and> argc_ok d)"
| "argc_ok (ListCmd c d) = (argc_ok c \<and> argc_ok d)"
| "argc_ok (BackCmd c) = argc_ok c"

definition cmd_ok :: "byte list \<Rightarrow> pcmd \<Rightarrow> bool" where
  "cmd_ok b c \<longleftrightarrow> (\<forall>qe\<in>set (spans c). is_word b qe) \<and> argc_ok c"

definition good :: "byte list \<Rightarrow> nat \<Rightarrow> ('a \<Rightarrow> bool) \<Rightarrow> 'a parsed \<Rightarrow> bool" where
  "good b s Q r = (case r of None \<Rightarrow> False | Some (Inl e) \<Rightarrow> True | Some (Inr (x, s')) \<Rightarrow> s \<le> s' \<and> s' \<le> length b \<and> Q x)"

lemma good_pret [intro!]: "s \<le> s' \<Longrightarrow> s' \<le> length b \<Longrightarrow> Q x \<Longrightarrow> good b s Q (pret x s')"
  by (simp add: good_def pret_def)

lemma good_ppanic [intro!]: "good b s Q (ppanic e)"
  by (simp add: good_def ppanic_def)

lemma good_mono: "good b s Q r \<Longrightarrow> s0 \<le> s \<Longrightarrow> good b s0 Q r"
  by (auto simp: good_def split: option.splits sum.splits)

lemma good_bind:
  assumes "good b s Q m" "\<And>x s'. Q x \<Longrightarrow> s \<le> s' \<Longrightarrow> s' \<le> length b \<Longrightarrow> good b s' R (f x s')"
  shows "good b s R (pbind m f)"
proof (cases m)
  case (Some r)
  show ?thesis
  proof (cases r)
    case (Inr v)
    obtain x s' where v: "v = (x, s')" by (cases v)
    have g: "s \<le> s'" "s' \<le> length b" "Q x" using assms(1) Some Inr v by (simp_all add: good_def)
    from assms(2) [OF g(3,1,2)] have "good b s R (f x s')" by (rule good_mono) (rule g(1))
    then show ?thesis using Some Inr v by (simp add: pbind_def)
  qed (use Some in \<open>simp add: good_def pbind_def\<close>)
qed (use assms(1) in \<open>simp add: good_def\<close>)


lemma ch_nz: "0 \<notin> set b \<Longrightarrow> s < length b \<Longrightarrow> ch b s \<noteq> 0"
  by (auto simp: ch_def in_set_conv_nth)

lemma skip_word_in: "0 \<notin> set b \<Longrightarrow> q \<le> i \<Longrightarrow> i < skip_word b q \<Longrightarrow> plain (ch b i)"
proof (induction b q rule: skip_word.induct)
  case (1 b s)
  then have c: "s < length b \<and> ch b s \<notin> set whitespace \<and> ch b s \<notin> set symbols" by (subst (asm) skip_word.simps) (auto split: if_splits)
  then have "skip_word b s = skip_word b (s + 1)" by (subst skip_word.simps) simp
  then show ?case using 1 c by (cases "i = s") (auto simp: plain_def ch_nz)
qed

lemma skip_word_stop: "\<not> plain (ch b (skip_word b q))"
proof (induction b q rule: skip_word.induct)
  case (1 b s)
  then show ?case by (subst skip_word.simps) (auto simp: plain_def ch_def)
qed

lemma gettoken_word:
  assumes "gettoken b s = (of_char CHR ''a'', (q, e), s')" "0 \<notin> set b" "s \<le> length b"
  shows "is_word b (q, e)"
proof -
  have e: "e = skip_word b q"
    using assms(1) by (auto simp: gettoken_def Let_def str_def split: if_splits)
  have "q < e" "e \<le> length b" using gettoken_span [OF assms(1)] assms(3) by auto
  then show ?thesis using skip_word_in [OF assms(2), of q] skip_word_stop [of b q] by (auto simp: is_word_def e)
qed

definition redirs_ok :: "byte list \<Rightarrow> span redir list \<Rightarrow> bool" where
  "redirs_ok b rs \<longleftrightarrow> (\<forall>qe\<in>fst ` set rs. is_word b qe)"

lemma redirs_ok_simps [simp]:
  "redirs_ok b []" "redirs_ok b (rs @ rs') \<longleftrightarrow> redirs_ok b rs \<and> redirs_ok b rs'" "is_word b qe \<Longrightarrow> redirs_ok b (redir_of tok qe)"
  by (auto simp: redirs_ok_def redir_of_def)

lemma good_redirs:
  assumes "0 \<notin> set b"
  shows "s \<le> length b \<Longrightarrow> good b s (redirs_ok b) (parseredirs b s)"
proof (induction "length b - s" arbitrary: s rule: less_induct)
  case less
  obtain p s1 where p: "peek b s ''<>'' = (p, s1)" by fastforce
  obtain tok q e s2 where t: "gettoken b s1 = (tok, (q, e), s2)" by (metis prod.exhaust)
  obtain tok' q' e' s3 where t': "gettoken b s2 = (tok', (q', e'), s3)" by (metis prod.exhaust)
  have g: "s \<le> s1" "s1 \<le> s2" "s2 \<le> s3" "s3 \<le> length b" "s1 \<le> length b" "s2 \<le> length b"
    using less(2) peek_ge [OF p] gettoken_span(1-3,5) [OF t] gettoken_span(1-3,5) [OF t'] by auto
  show ?case
  proof (cases "p \<and> tok' = of_char CHR ''a''")
    case True
    have w: "is_word b (q', e')" using gettoken_word t' True assms g(6) by blast
    have "length b - s3 < length b - s" using redir_step [of s1 b s "''<>''" tok q e s2 tok' q' e' s3] p t t' True by auto
    then have "good b s3 (redirs_ok b) (parseredirs b s3)" using less(1) g(4) by simp
    then have "good b s (redirs_ok b) (parseredirs b s3)" using g by (elim good_mono) simp
    then show ?thesis using True p t t' w
      by (subst parseredirs.simps) (auto intro!: good_bind [OF _ good_pret])
  next
    case False
    then show ?thesis using p t t' g by (subst parseredirs.simps) (auto split: if_splits)
  qed
qed

lemma good_args:
  assumes "0 \<notin> set b"
  shows "s \<le> length b \<Longrightarrow> argc < MAXARGS \<Longrightarrow>
    good b s (\<lambda>(as, rs). (\<forall>qe\<in>set as. is_word b qe) \<and> redirs_ok b rs \<and> argc + length as < MAXARGS) (parseargs b argc s)"
proof (induction "MAXARGS - argc" arbitrary: argc s rule: less_induct)
  case less
  obtain p s1 where p: "peek b s ''|)&;'' = (p, s1)" by fastforce
  obtain tok q e s2 where t: "gettoken b s1 = (tok, (q, e), s2)" by (metis prod.exhaust)
  have g: "s \<le> s1" "s1 \<le> s2" "s1 \<le> length b" "s2 \<le> length b"
    using less(2) peek_ge [OF p] gettoken_span(1-3,5) [OF t] by auto
  show ?case
  proof (cases "\<not> p \<and> tok = of_char CHR ''a'' \<and> argc + 1 < MAXARGS")
    case True
    then have w: "is_word b (q, e)" using gettoken_word t assms g(3) by blast
    have ih: "good b s' (\<lambda>(as, rs). (\<forall>qe\<in>set as. is_word b qe) \<and> redirs_ok b rs \<and> (argc + 1) + length as < MAXARGS)
        (parseargs b (argc + 1) s')" if "s' \<le> length b" for s'
      using less(1) [of "argc + 1" s'] that True by auto
    have "good b s (redirs_ok b) (parseredirs b s2)"
      using good_redirs [OF assms g(4)] g by (elim good_mono) simp
    then have "good b s (\<lambda>(as, rs). (\<forall>qe\<in>set as. is_word b qe) \<and> redirs_ok b rs \<and> argc + length as < MAXARGS)
        (pbind (parseredirs b s2) (\<lambda>rs s. pbind (parseargs b (argc + 1) s) (\<lambda>(as, rs') s. pret ((q, e) # as, rs @ rs') s)))"
    proof (rule good_bind)
      fix rs :: "span redir list" and s' assume rs: "redirs_ok b rs" and s': "s' \<le> length b"
      show "good b s' (\<lambda>(as, rs). (\<forall>qe\<in>set as. is_word b qe) \<and> redirs_ok b rs \<and> argc + length as < MAXARGS)
        (pbind (parseargs b (argc + 1) s') (\<lambda>(as, rs') s. pret ((q, e) # as, rs @ rs') s))"
        using ih [OF s'] by (rule good_bind) (use rs w in auto)
    qed
    then show ?thesis using True p t by (subst parseargs.simps) simp
  next
    case False
    then show ?thesis using p t g less(3) by (subst parseargs.simps) (auto split: if_splits)
  qed
qed

lemma spans_redircmds: "set (spans (redircmds c rs)) = set (spans c) \<union> fst ` set rs" "argc_ok (redircmds c rs) = argc_ok c"
  by (induction rs arbitrary: c) (auto simp: redircmds_def)

lemma cmd_ok_simps [simp]:
  "cmd_ok b (redircmds c rs) \<longleftrightarrow> cmd_ok b c \<and> redirs_ok b rs"
  "cmd_ok b (ExecCmd as) \<longleftrightarrow> (\<forall>qe\<in>set as. is_word b qe) \<and> length as < MAXARGS"
  "cmd_ok b (PipeCmd c d) \<longleftrightarrow> cmd_ok b c \<and> cmd_ok b d" "cmd_ok b (ListCmd c d) \<longleftrightarrow> cmd_ok b c \<and> cmd_ok b d"
  "cmd_ok b (BackCmd c) \<longleftrightarrow> cmd_ok b c"
  by (auto simp: cmd_ok_def spans_redircmds redirs_ok_def)

lemma back_loop_ok:
  "s \<le> length b \<Longrightarrow> cmd_ok b c \<Longrightarrow> back_loop b s c = (c', s') \<Longrightarrow> s \<le> s' \<and> s' \<le> length b \<and> cmd_ok b c'"
proof (induction b s c rule: back_loop.induct)
  case (1 b s c)
  obtain p s1 where p: "peek b s ''&'' = (p, s1)" by fastforce
  obtain tok q e s2 where t: "gettoken b s1 = (tok, (q, e), s2)" by (metis prod.exhaust)
  have g: "s \<le> s1" "s1 \<le> s2" "s1 \<le> length b" "s2 \<le> length b"
    using 1(2) peek_ge [OF p] gettoken_span(1-3,5) [OF t] by auto
  show ?case
  proof (cases p)
    case True
    then have "back_loop b s2 (BackCmd c) = (c', s')" using 1(4) p t by (subst (asm) back_loop.simps) simp
    then have "s2 \<le> s' \<and> s' \<le> length b \<and> cmd_ok b c'"
      using True p t g 1(3) by (intro 1(1)) auto
    then show ?thesis using g by auto
  next
    case False
    then show ?thesis using 1(3,4) p g by (subst (asm) back_loop.simps) auto
  qed
qed

text \<open>The depth of calls that is enough from position \<open>s\<close> on.\<close>

abbreviation left :: "byte list \<Rightarrow> nat \<Rightarrow> nat" where
  "left b s \<equiv> 4 * (length b - s)"

lemma next_token:
  assumes "peek b s toks = (True, s1)" "gettoken b s1 = (tok, (q, e), s2)" "s \<le> length b"
  shows "s \<le> s2" "s2 \<le> length b" "left b s2 + 4 \<le> left b s"
  using peek_token [OF assms(1,2)] gettoken_span(5) [OF assms(2)] by auto

lemma good_tail:
  assumes s: "s \<le> length b" and k: "\<And>s'. s \<le> s' \<Longrightarrow> s' \<le> length b \<Longrightarrow> left b s' + 4 \<le> left b s \<Longrightarrow> good b s' (cmd_ok b) (k s')"
    and c: "cmd_ok b c" "\<And>d. cmd_ok b d \<Longrightarrow> cmd_ok b (f d)"
  shows "good b s (cmd_ok b)
      (case peek b s toks of (p, s) \<Rightarrow> if p then (case gettoken b s of (tok, qe, s) \<Rightarrow> pbind (k s) (\<lambda>d s. pret (f d) s)) else pret c s)"
proof -
  obtain p s1 where p: "peek b s toks = (p, s1)" by fastforce
  obtain tok q e s2 where t: "gettoken b s1 = (tok, (q, e), s2)" by (metis prod.exhaust)
  show ?thesis
  proof (cases p)
    case True
    then have n: "s \<le> s2" "s2 \<le> length b" "left b s2 + 4 \<le> left b s" using next_token [OF _ t s] p by auto
    have "good b s2 (cmd_ok b) (pbind (k s2) (\<lambda>d s. pret (f d) s))"
      using k [OF n] by (rule good_bind) (use c(2) in auto)
    then show ?thesis using True p t n(1) by (auto elim: good_mono)
  next
    case False
    then show ?thesis using p peek_ge [OF p] s c(1) by auto
  qed
qed

lemma good_close:
  assumes "0 \<notin> set b" "cmd_ok b c" "s \<le> length b"
  shows "good b s (cmd_ok b) (case peek b s '')'' of (p, s) \<Rightarrow> if \<not> p then ppanic ''syntax - missing )''
    else case gettoken b s of (tok, qe, s) \<Rightarrow> pbind (parseredirs b s) (\<lambda>rs s. pret (redircmds c rs) s))"
proof -
  obtain p s1 where p: "peek b s '')'' = (p, s1)" by fastforce
  obtain tok q e s2 where t: "gettoken b s1 = (tok, (q, e), s2)" by (metis prod.exhaust)
  show ?thesis
  proof (cases p)
    case True
    then have n: "s \<le> s2" "s2 \<le> length b" using next_token [OF _ t assms(3)] p by auto
    have "good b s2 (cmd_ok b) (pbind (parseredirs b s2) (\<lambda>rs s. pret (redircmds c rs) s))"
      using good_redirs [OF assms(1) n(2)] by (rule good_bind) (use assms(2) in auto)
    then show ?thesis using True p t n(1) by (auto elim: good_mono)
  qed (use p in auto)
qed

lemma good_parser:
  assumes b: "0 \<notin> set b"
  shows "s \<le> length b \<Longrightarrow> left b s + 4 \<le> n \<Longrightarrow> good b s (cmd_ok b) (parseline n b s)"
    and "s \<le> length b \<Longrightarrow> left b s + 3 \<le> n \<Longrightarrow> good b s (cmd_ok b) (parsepipe n b s)"
    and "s \<le> length b \<Longrightarrow> left b s + 2 \<le> n \<Longrightarrow> good b s (cmd_ok b) (parseexec n b s)"
    and "s \<le> length b \<Longrightarrow> left b s + 1 \<le> n \<Longrightarrow> good b s (cmd_ok b) (parseblock n b s)"
proof (induction n arbitrary: s)
  case (Suc n)
  {
    case 1
    have "good b s (cmd_ok b) (parsepipe n b s)" using Suc.IH(2) [of s] 1 by simp
    then show ?case unfolding parseline.simps
    proof (rule good_bind)
      fix c s' assume c: "cmd_ok b c" "s \<le> s'" "s' \<le> length b"
      obtain c2 s2 where bl: "back_loop b s' c = (c2, s2)" by fastforce
      have s2: "s' \<le> s2" "s2 \<le> length b" "cmd_ok b c2" using back_loop_ok [OF c(3,1) bl] by auto
      have "good b s2 (cmd_ok b) (case peek b s2 '';'' of (p, s) \<Rightarrow>
         if p then (case gettoken b s of (tok, qe, s) \<Rightarrow> pbind (parseline n b s) (\<lambda>d s. pret (ListCmd c2 d) s)) else pret c2 s)"
        using 1 c s2 by (intro good_tail) (auto intro!: Suc.IH(1))
      then show "good b s' (cmd_ok b) (case back_loop b s' c of (c, s) \<Rightarrow> case peek b s '';'' of (p, s) \<Rightarrow>
         if p then (case gettoken b s of (tok, qe, s) \<Rightarrow> pbind (parseline n b s) (\<lambda>d s. pret (ListCmd c d) s)) else pret c s)"
        using bl s2(1) by (auto elim: good_mono)
    qed
  next
    case 2
    have "good b s (cmd_ok b) (parseexec n b s)" using Suc.IH(3) [of s] 2 by simp
    then show ?case unfolding parsepipe.simps
      by (rule good_bind) (use 2 in \<open>auto intro!: good_tail Suc.IH(2)\<close>)
  next
    case 3
    obtain p s1 where p: "peek b s ''('' = (p, s1)" by fastforce
    have s1: "s \<le> s1" "s1 \<le> length b" "left b s1 \<le> left b s" using peek_ge [OF p] 3(1) by auto
    show ?case
    proof (cases p)
      case True
      then show ?thesis using p Suc.IH(4) [OF s1(2)] s1 3 by (auto elim: good_mono)
    next
      case False
      have "good b s1 (cmd_ok b) (pbind (parseredirs b s1) (\<lambda>rs s. pbind (parseargs b 0 s) (\<lambda>(as, rs') s. pret (redircmds (ExecCmd as) (rs @ rs')) s)))"
        using good_redirs [OF b s1(2)]
      proof (rule good_bind)
        fix rs s' assume rs: "redirs_ok b rs" and s': "s' \<le> length b"
        show "good b s' (cmd_ok b) (pbind (parseargs b 0 s') (\<lambda>(as, rs') s. pret (redircmds (ExecCmd as) (rs @ rs')) s))"
          by (rule good_bind [OF good_args [OF b s', of 0]]) (use rs in \<open>auto simp: MAXARGS_def\<close>)
      qed
      then show ?thesis using False p s1(1) by (auto elim: good_mono)
    qed
  next
    case 4
    obtain p s1 where p: "peek b s ''('' = (p, s1)" by fastforce
    obtain tok q e s2 where t: "gettoken b s1 = (tok, (q, e), s2)" by (metis prod.exhaust)
    show ?case
    proof (cases p)
      case True
      then have n: "s \<le> s2" "s2 \<le> length b" "left b s2 + 4 \<le> left b s" using next_token [OF _ t 4(1)] p by auto
      have "good b s2 (cmd_ok b) (parseline n b s2)" using Suc.IH(1) [OF n(2)] n(3) 4(2) by simp
      then have "good b s2 (cmd_ok b) (pbind (parseline n b s2) (\<lambda>c s.
            case peek b s '')'' of (p, s) \<Rightarrow> if \<not> p then ppanic ''syntax - missing )''
              else case gettoken b s of (tok, qe, s) \<Rightarrow> pbind (parseredirs b s) (\<lambda>rs s. pret (redircmds c rs) s)))"
        by (rule good_bind) (rule good_close [OF b])
      then show ?thesis using True p t n(1) by (auto elim: good_mono)
    qed (use p in auto)
  }
qed simp_all

text \<open>\<open>nulterminate\<close> writes a terminator at the end of each string, and nothing else.\<close>

lemma nulterminate_length [simp]: "length (nulterminate c buf) = length buf"
proof (induction c buf rule: nulterminate.induct)
  case (1 as buf)
  then show ?case by (induction as arbitrary: buf) auto
qed auto

lemma nulterminate_nth:
  "i < length buf \<Longrightarrow> nulterminate c buf ! i = (if i \<in> snd ` set (spans c) then 0 else buf ! i)"
proof (induction c buf rule: nulterminate.induct)
  case (1 as buf)
  then show ?case
  proof (induction as arbitrary: buf)
    case (Cons a as)
    then show ?case by (cases a) (simp add: nth_upd)
  qed simp
qed (simp_all add: nth_upd image_Un)

definition cstring :: "byte list \<Rightarrow> nat \<Rightarrow> byte list" where
  "cstring buf q = takeWhile (\<lambda>x. x \<noteq> 0) (drop q buf)"

definition span_text :: "byte list \<Rightarrow> span \<Rightarrow> byte list" where
  "span_text b = (\<lambda>(q, e). take (e - q) (drop q b))"

lemma cstring_eq:
  assumes "q \<le> e" "e < length buf" "\<And>i. q \<le> i \<Longrightarrow> i < e \<Longrightarrow> buf ! i \<noteq> 0" "buf ! e = 0"
  shows "cstring buf q = take (e - q) (drop q buf)"
proof -
  have "drop q buf = take (e - q) (drop q buf) @ buf ! e # drop (Suc e) buf"
    using assms(1,2) by (metis Cons_nth_drop_Suc append_take_drop_id drop_drop le_add_diff_inverse2)
  moreover have "\<forall>x\<in>set (take (e - q) (drop q buf)). x \<noteq> 0"
    using assms(1-3) by (auto simp: in_set_conv_nth)
  ultimately show ?thesis unfolding cstring_def using assms(4)
    by (metis (mono_tags, lifting) takeWhile_append2 takeWhile.simps(2) append_Nil2)
qed

lemma terminated_word:
  assumes c: "cmd_ok b c" and w: "is_word b (q, e)" and e: "e \<in> snd ` set (spans c)"
  shows "cstring (nulterminate c (b @ [0])) q = span_text b (q, e)"
proof -
  let ?buf = "nulterminate c (b @ [0])"
  have qe: "q < e" "e \<le> length b" and pl: "\<And>i. q \<le> i \<Longrightarrow> i < e \<Longrightarrow> plain (ch b i)" using w by (auto simp: is_word_def)
  have at: "i < e \<Longrightarrow> q \<le> i \<Longrightarrow> ?buf ! i = b ! i \<and> b ! i \<noteq> 0" for i
  proof -
    assume i: "i < e" "q \<le> i"
    have "i \<notin> snd ` set (spans c)" using c pl [OF i(2,1)] by (auto simp: cmd_ok_def is_word_def)
    then show ?thesis using i qe(2) pl [OF i(2,1)] by (simp add: nulterminate_nth nth_append plain_def ch_def)
  qed
  have "cstring ?buf q = take (e - q) (drop q ?buf)"
    using qe at e by (intro cstring_eq) (auto simp: nulterminate_nth)
  also have "\<dots> = take (e - q) (drop q b)" using qe at by (intro nth_equalityI) auto
  finally show ?thesis by (simp add: span_text_def)
qed

text \<open>
  C10. The parser of the shell ends on every line, and hands on only strings of the line. On a line without a terminator inside, \<open>parsecmd\<close> returns: either the
  shell prints a message and exits, or there is a command. In a command, each string is a nonempty word of the line, maximal on its right, and
  after \<open>nulterminate\<close> the C string that starts at its position is exactly that word (terminating one string has not cut another);
  no write is outside the buffer, and no command has more arguments than its array has room for with the final null pointer.
\<close>

theorem parsecmd_safe:
  assumes "0 \<notin> set b"
  shows "\<exists>r. parsecmd b = Some r \<and> (case r of Inl out \<Rightarrow> True
    | Inr (c, buf) \<Rightarrow> length buf = Suc (length b) \<and> argc_ok c \<and>
        (\<forall>(q, e)\<in>set (spans c). q < e \<and> e < length buf \<and> \<not> plain (ch b e) \<and> (\<forall>x\<in>set (span_text b (q, e)). plain x) \<and>
           cstring buf q = span_text b (q, e)))"
proof -
  have "good b 0 (cmd_ok b) (parseline (parse_depth b) b 0)" by (rule good_parser(1) [OF assms]) (simp_all add: parse_depth_def)
  then consider e where "parseline (parse_depth b) b 0 = Some (Inl e)"
    | c s where "parseline (parse_depth b) b 0 = Some (Inr (c, s))" "cmd_ok b c"
    by (auto simp: good_def split: option.splits sum.splits)
  then show ?thesis
  proof cases
    case 2
    have w: "q < e \<and> e \<le> length b \<and> \<not> plain (ch b e) \<and> (\<forall>x\<in>set (span_text b (q, e)). plain x) \<and>
      cstring (nulterminate c (b @ [0])) q = span_text b (q, e)" if "(q, e) \<in> set (spans c)" for q e
    proof -
      have i: "is_word b (q, e)" using 2(2) that by (auto simp: cmd_ok_def)
      then have "plain x" if "x \<in> set (span_text b (q, e))" for x
        using that by (auto simp: span_text_def is_word_def in_set_conv_nth ch_def)
      then show ?thesis using i terminated_word [OF 2(2) i] that by (force simp: is_word_def)
    qed
    show ?thesis using 2 w by (auto simp: parsecmd_def cmd_ok_def less_Suc_eq_le split: prod.split)
  qed (simp add: parsecmd_def)
qed


lemma parse_example:
  "parsecmd (str ''ls >f|wc'') = Some (Inr (PipeCmd (RedirCmd (ExecCmd [(0, 2)]) (4, 5) 0x201 1) (ExecCmd [(6, 8)]),
     str ''ls'' @ [0] @ str ''>f'' @ [0] @ str ''wc'' @ [0]))"
  by code_simp

theorem parsecmd_safe_witness:
  "\<exists>c buf. parsecmd (str ''ls >f|wc'') = Some (Inr (c, buf)) \<and> (4, 5) \<in> set (spans c) \<and> cstring buf 4 = str ''f'' \<and> argc_ok c"
proof -
  have "0 \<notin> set (str ''ls >f|wc'')" by (simp add: str_def)
  from parsecmd_safe [OF this] show ?thesis unfolding parse_example by (simp add: span_text_def str_def)
qed

end
