(* ===== verification/Spelling.thy ===== *)
theory Spelling
  imports Shell
begin

text \<open>
  Every command of the shell can be written: a spelling of command trees as lines, which the parser reads back. The parser is followed over a
  spelling with any text behind it, by induction on the command; that the newline at the end of a typed line makes no difference is a simulation between its runs
  on the two lines.
\<close>

section \<open>Spelling\<close>

definition spell_words :: "byte list list \<Rightarrow> byte list" where
  "spell_words ws = concat (map (\<lambda>w. w @ [32]) ws)"

definition spell_redir :: "byte list redir \<Rightarrow> byte list" where
  "spell_redir = (\<lambda>(f, mode, fd). (if fd = 0 then str ''<'' else str ''>'') @ f @ [32])"

definition parens :: "byte list \<Rightarrow> byte list" where
  "parens t = str ''('' @ t @ str '')''"

fun is_simple :: "'s cmd \<Rightarrow> bool" where
  "is_simple (ExecCmd ws) = True"
| "is_simple (RedirCmd c f mode fd) = True"
| "is_simple c = False"

fun spell :: "byte list cmd \<Rightarrow> byte list" where
  "spell (ExecCmd ws) = spell_words ws"
| "spell (RedirCmd c f mode fd) = (if is_simple c then spell c else parens (spell c)) @ spell_redir (f, mode, fd)"
| "spell (PipeCmd c d) = parens (spell c) @ str ''|'' @ parens (spell d)"
| "spell (ListCmd c d) = parens (spell c) @ str '';'' @ parens (spell d)"
| "spell (BackCmd c) = parens (spell c) @ str ''&''"

text \<open>The commands that have a spelling: words of plain characters, not too many of them, and the modes the parser knows.\<close>

definition word_ok :: "byte list \<Rightarrow> bool" where
  "word_ok w \<longleftrightarrow> w \<noteq> [] \<and> (\<forall>c\<in>set w. plain c)"

definition redir_ok :: "byte list redir \<Rightarrow> bool" where
  "redir_ok = (\<lambda>(f, mode, fd). word_ok f \<and> (mode = O_RDONLY \<and> fd = 0 \<or> mode = O_WRONLY OR O_CREATE \<and> fd = 1))"

fun spellable :: "byte list cmd \<Rightarrow> bool" where
  "spellable (ExecCmd ws) = (length ws < MAXARGS \<and> (\<forall>w\<in>set ws. word_ok w))"
| "spellable (RedirCmd c f mode fd) = (spellable c \<and> redir_ok (f, mode, fd))"
| "spellable (PipeCmd c d) = (spellable c \<and> spellable d)"
| "spellable (ListCmd c d) = (spellable c \<and> spellable d)"
| "spellable (BackCmd c) = spellable c"

section \<open>Tokens at a known position\<close>

lemma ch_at: "ch (u @ v) (length u) = (case v of [] \<Rightarrow> 0 | c # _ \<Rightarrow> c)"
  by (cases v) (simp_all add: ch_def)

text \<open>No white space begins at a position.\<close>

definition dense :: "byte list \<Rightarrow> bool" where
  "dense v \<longleftrightarrow> (case v of [] \<Rightarrow> True | c # _ \<Rightarrow> c \<notin> set whitespace)"

lemma skip_dense: "dense v \<Longrightarrow> skip_ws (u @ v) (length u) = length u"
  by (subst skip_ws.simps) (auto simp: ch_at dense_def split: list.splits)

lemma skip_space: "dense v \<Longrightarrow> skip_ws (u @ 32 # v) (length u) = length u + 1"
proof -
  assume "dense v"
  then have "skip_ws ((u @ [32]) @ v) (length (u @ [32])) = length (u @ [32])" by (rule skip_dense)
  then show ?thesis by (subst skip_ws.simps) (simp add: ch_at whitespace_def)
qed

lemma peek_dense:
  "dense v \<Longrightarrow> peek (u @ v) (length u) toks = ((case v of [] \<Rightarrow> False | c # _ \<Rightarrow> c \<noteq> 0 \<and> c \<in> set (str toks)), length u)"
  by (auto simp: peek_def Let_def skip_dense ch_at split: list.split)

lemma skip_word_at:
  "\<forall>c\<in>set w. plain c \<Longrightarrow> v = [] \<or> hd v \<in> set whitespace \<union> set symbols \<Longrightarrow> skip_word (u @ w @ v) (length u) = length u + length w"
proof (induction w arbitrary: u)
  case Nil
  then show ?case by (subst skip_word.simps) (auto simp: ch_at plain_def split: list.splits)
next
  case (Cons c w)
  have "skip_word ((u @ [c]) @ w @ v) (length (u @ [c])) = length (u @ [c]) + length w" using Cons by (intro Cons.IH) auto
  then show ?case using Cons.prems(1) by (subst skip_word.simps) (simp add: ch_at plain_def)
qed

lemma gettoken_sym:
  assumes "c \<in> set (str ''|();&<'')" "dense v"
  shows "gettoken (u @ c # v) (length u) = (c, (length u, length u + 1), length u + 1)"
proof -
  have "dense (c # v)" "c \<noteq> 0" using assms(1) by (auto simp: dense_def whitespace_def str_def)
  then show ?thesis using assms skip_dense [of "c # v" u] skip_dense [of v "u @ [c]"]
    by (simp add: gettoken_def Let_def ch_at)
qed

lemma gettoken_out:
  assumes "dense v" "v \<noteq> []" "hd v \<noteq> of_char CHR ''>''"
  shows "gettoken (u @ of_char CHR ''>'' # v) (length u) = (of_char CHR ''>'', (length u, length u + 1), length u + 1)"
proof -
  have "dense (of_char CHR ''>'' # v)" by (simp add: dense_def whitespace_def)
  then show ?thesis using assms skip_dense [of "of_char CHR ''>'' # v" u] skip_dense [of v "u @ [of_char CHR ''>'']"] ch_at [of "u @ [of_char CHR ''>'']" v]
    by (cases v) (simp_all add: gettoken_def Let_def ch_at str_def)
qed

lemma gettoken_word_at:
  assumes "word_ok w" "dense v"
  shows "gettoken (u @ w @ 32 # v) (length u) = (of_char CHR ''a'', (length u, length u + length w), length u + length w + 1)"
proof -
  obtain c w' where w: "w = c # w'" "plain c" using assms(1) by (cases w) (auto simp: word_ok_def)
  have "dense (w @ 32 # v)" using w by (simp add: dense_def plain_def)
  moreover have "c \<notin> set (str ''|();&<'')" "c \<noteq> of_char CHR ''>''" "c \<noteq> 0" using w(2) by (auto simp: plain_def symbols_def str_def)
  moreover have "skip_word (u @ w @ 32 # v) (length u) = length u + length w"
    using assms(1) by (intro skip_word_at) (auto simp: word_ok_def plain_def whitespace_def)
  moreover have "skip_ws ((u @ w) @ 32 # v) (length (u @ w)) = length (u @ w) + 1" by (rule skip_space [OF assms(2)])
  ultimately show ?thesis using skip_dense [of "w @ 32 # v" u] by (simp add: gettoken_def Let_def ch_at w(1))
qed

lemma slice_at: "span_text (u @ w @ v) (length u, length u + length w) = w"
  by (simp add: span_text_def)

section \<open>Parsing what was spelled\<close>

abbreviation texts :: "byte list \<Rightarrow> span redir list \<Rightarrow> byte list redir list" where
  "texts b \<equiv> map (apfst (span_text b))"

definition spell_redirs :: "byte list redir list \<Rightarrow> byte list" where
  "spell_redirs rs = concat (map spell_redir rs)"

text \<open>What may follow a list of redirections, and what may follow a command without parentheses.\<close>

definition ends_redirs :: "byte list \<Rightarrow> bool" where
  "ends_redirs v \<longleftrightarrow> dense v \<and> (v = [] \<or> hd v \<notin> set (str ''<>''))"

definition ends_cmd :: "byte list \<Rightarrow> bool" where
  "ends_cmd v \<longleftrightarrow> v = [] \<or> hd v \<in> set (str ''|)&;'')"

lemma ends_cmd_redirs: "ends_cmd v \<Longrightarrow> ends_redirs v"
  by (cases v) (auto simp: ends_cmd_def ends_redirs_def dense_def whitespace_def str_def)

lemma redirs_at:
  "\<forall>r\<in>set rs. redir_ok r \<Longrightarrow> ends_redirs v \<Longrightarrow> b = u @ spell_redirs rs @ v \<Longrightarrow>
   \<exists>rs'. parseredirs b (length u) = pret rs' (length u + length (spell_redirs rs)) \<and> texts b rs' = rs"
proof (induction rs arbitrary: u)
  case Nil
  then have "dense v" "v = [] \<or> hd v \<notin> set (str ''<>'')" by (simp_all add: ends_redirs_def)
  then show ?case using Nil(3) by (subst parseredirs.simps) (auto simp: spell_redirs_def peek_dense split: list.splits)
next
  case (Cons r rs)
  obtain f mode fd where r: "r = (f, mode, fd)" by (cases r)
  have f: "word_ok f" and md: "mode = O_RDONLY \<and> fd = 0 \<or> mode = O_WRONLY OR O_CREATE \<and> fd = 1"
    using Cons.prems(1) r by (auto simp: redir_ok_def)
  define sy :: byte where "sy = (if fd = 0 then of_char CHR ''<'' else of_char CHR ''>'')"
  define v' where "v' = spell_redirs rs @ v"
  have b: "b = u @ sy # f @ 32 # v'" using Cons.prems(3) r by (simp add: spell_redirs_def spell_redir_def sy_def v'_def str_def)
  have "dense v'" using Cons.prems(2) by (cases rs) (auto simp: v'_def spell_redirs_def spell_redir_def ends_redirs_def dense_def whitespace_def str_def split: prod.splits)
  obtain c f' where fc: "f = c # f'" "plain c" using f by (cases f) (auto simp: word_ok_def)
  have df: "dense (f @ 32 # v')" "hd (f @ 32 # v') \<noteq> of_char CHR ''>''" using fc by (auto simp: dense_def plain_def symbols_def str_def)
  have t1: "gettoken b (length u) = (sy, (length u, length u + 1), length u + 1)"
    unfolding b using df gettoken_out [of "f @ 32 # v'" u] gettoken_sym [of sy "f @ 32 # v'" u] fc(1) by (auto simp: sy_def str_def)
  have t2: "gettoken b (length u + 1) = (of_char CHR ''a'', (length u + 1, length u + 1 + length f), length u + 1 + length f + 1)"
    using gettoken_word_at [OF f \<open>dense v'\<close>, of "u @ [sy]"] b by simp
  have pk: "peek b (length u) ''<>'' = (True, length u)"
    unfolding b by (subst peek_dense) (auto simp: dense_def whitespace_def str_def sy_def)
  have "b = (u @ sy # f @ [32]) @ spell_redirs rs @ v" using b by (simp add: v'_def)
  from Cons.IH [OF _ Cons.prems(2) this] obtain rs' where
    ih: "parseredirs b (length u + 1 + length f + 1) = pret rs' (length u + 1 + length f + 1 + length (spell_redirs rs))" "texts b rs' = rs"
    using Cons.prems(1) by auto
  have sl: "span_text b (length u + 1, length u + 1 + length f) = f" using slice_at [of "u @ [sy]" f "32 # v'"] b by simp
  have len: "length (spell_redirs (r # rs)) = Suc (Suc (length f + length (spell_redirs rs)))"
    by (simp add: spell_redirs_def spell_redir_def r str_def)
  have ro: "texts b (redir_of sy (length u + 1, length u + 1 + length f)) = [r]"
    using md sl r by (auto simp: redir_of_def sy_def)
  have "parseredirs b (length u) = pret (redir_of sy (length u + 1, length u + 1 + length f) @ rs') (length u + length (spell_redirs (r # rs)))"
    using len by (subst parseredirs.simps) (simp add: pk t1 t2 [simplified] ih(1) [simplified] add.assoc)
  then show ?case using ro ih(2) by (intro exI [of _ "redir_of sy (length u + 1, length u + 1 + length f) @ rs'"]) simp
qed

lemma dense_redirs: "dense v \<Longrightarrow> dense (spell_redirs rs @ v)"
  by (cases rs) (auto simp: spell_redirs_def spell_redir_def dense_def whitespace_def str_def split: prod.splits)

lemma words_dense:
  "\<forall>w\<in>set ws. word_ok w \<Longrightarrow> ws \<noteq> [] \<Longrightarrow> ends_redirs (spell_words ws @ v)"
  "\<forall>w\<in>set ws. word_ok w \<Longrightarrow> dense v \<Longrightarrow> dense (spell_words ws @ v)"
proof -
  show e: "ends_redirs (spell_words ws @ v)" if w: "\<forall>w\<in>set ws. word_ok w" "ws \<noteq> []"
  proof -
    obtain w ws' where "ws = w # ws'" "word_ok w" using w by (cases ws) auto
    then show ?thesis
      by (cases w) (auto simp: spell_words_def ends_redirs_def dense_def word_ok_def plain_def symbols_def str_def)
  qed
  show "\<forall>w\<in>set ws. word_ok w \<Longrightarrow> dense v \<Longrightarrow> dense (spell_words ws @ v)"
    using e by (cases "ws = []") (auto simp: ends_redirs_def spell_words_def)
qed

lemma stop_at: "ends_cmd v \<Longrightarrow> \<exists>s. parseargs (u @ v) argc (length u) = pret ([], []) (length u)"
proof -
  assume v: "ends_cmd v"
  then have d: "dense v" using ends_cmd_redirs by (simp add: ends_redirs_def)
  show ?thesis
  proof (cases v)
    case Nil
    then show ?thesis using d skip_dense [of "[]" u] peek_dense [of "[]" u]
      by (subst parseargs.simps) (simp add: gettoken_def Let_def ch_def)
  next
    case (Cons c w)
    then have "c \<noteq> 0 \<and> c \<in> set (str ''|)&;'')" using v by (auto simp: ends_cmd_def str_def)
    then show ?thesis using d Cons by (subst parseargs.simps) (simp add: peek_dense)
  qed
qed

lemma args_at:
  assumes "\<forall>w\<in>set ws. word_ok w" "\<forall>r\<in>set rs. redir_ok r" "ends_cmd v" "argc + length ws < MAXARGS" "ws \<noteq> [] \<or> rs = []"
    "b = u @ spell_words ws @ spell_redirs rs @ v"
  shows "\<exists>as rs'. parseargs b argc (length u) = pret (as, rs') (length u + length (spell_words ws) + length (spell_redirs rs)) \<and>
    map (span_text b) as = ws \<and> texts b rs' = rs"
  using assms
proof (induction ws arbitrary: u argc)
  case Nil
  then show ?case using stop_at [OF Nil(3), of u argc] by (simp add: spell_words_def spell_redirs_def)
next
  case (Cons w ws)
  define v' where "v' = spell_words ws @ spell_redirs rs @ v"
  have b: "b = u @ w @ 32 # v'" using Cons.prems(6) by (simp add: spell_words_def v'_def)
  have w: "word_ok w" using Cons.prems(1) by simp
  obtain c w' where wc: "w = c # w'" "plain c" using w by (cases w) (auto simp: word_ok_def)
  have dv: "dense v'"
    using words_dense(2) [of ws "spell_redirs rs @ v"] dense_redirs [of v rs] ends_cmd_redirs [OF Cons.prems(3)] Cons.prems(1)
    by (simp add: v'_def ends_redirs_def)
  have pk: "peek b (length u) ''|)&;'' = (False, length u)"
    unfolding b using wc by (subst peek_dense) (auto simp: dense_def plain_def symbols_def str_def)
  have t: "gettoken b (length u) = (of_char CHR ''a'', (length u, length u + length w), length u + length w + 1)"
    unfolding b by (rule gettoken_word_at [OF w dv])
  have sl: "span_text b (length u, length u + length w) = w" using slice_at [of u w "32 # v'"] b by simp
  have b': "b = (u @ w @ [32]) @ v'" using b by simp
  show ?case
  proof (cases "ws = []")
    case True
    have "ends_redirs v" by (rule ends_cmd_redirs [OF Cons.prems(3)])
    from redirs_at [OF Cons.prems(2) this, of b "u @ w @ [32]"] obtain rs' where
      r: "parseredirs b (length u + length w + 1) = pret rs' (length u + length w + 1 + length (spell_redirs rs))" "texts b rs' = rs"
      using b' True by (auto simp: v'_def spell_words_def)
    have "b = (u @ w @ [32] @ spell_redirs rs) @ v" using b True by (simp add: v'_def spell_words_def)
    then have "parseargs b (argc + 1) (length u + length w + 1 + length (spell_redirs rs)) = pret ([], []) (length u + length w + 1 + length (spell_redirs rs))"
      using stop_at [OF Cons.prems(3), of "u @ w @ [32] @ spell_redirs rs" "argc + 1"] by (simp add: add.assoc)
    then have "parseargs b argc (length u) = pret ([(length u, length u + length w)], rs') (length u + length (spell_words [w]) + length (spell_redirs rs))"
      using Cons.prems(4) by (subst parseargs.simps) (simp add: pk t r(1) [simplified] spell_words_def)
    then show ?thesis using True sl r(2) by (intro exI [of _ "[(length u, length u + length w)]"] exI [of _ rs']) simp
  next
    case False
    have "ends_redirs v'" unfolding v'_def using words_dense(1) Cons.prems(1) False by simp
    from redirs_at [of "[]", OF _ this, of b "u @ w @ [32]"] have r: "parseredirs b (length u + length w + 1) = pret [] (length u + length w + 1)"
      using b' by (auto simp: spell_redirs_def)
    from Cons.IH [of "argc + 1" "u @ w @ [32]"] obtain as rs' where
      ih: "parseargs b (argc + 1) (length u + length w + 1) = pret (as, rs') (length u + length w + 1 + length (spell_words ws) + length (spell_redirs rs))"
        "map (span_text b) as = ws" "texts b rs' = rs"
      using Cons.prems(1-4) False b' by (auto simp: v'_def)
    have "parseargs b argc (length u) = pret ((length u, length u + length w) # as, rs') (length u + length (spell_words (w # ws)) + length (spell_redirs rs))"
      using Cons.prems(4) ih(1) by (subst parseargs.simps) (simp add: pk t r [simplified] spell_words_def add.assoc)
    then show ?thesis using sl ih(2,3) by (intro exI [of _ "(length u, length u + length w) # as"] exI [of _ rs']) simp
  qed
qed


definition reads :: "byte list \<Rightarrow> pcmd parsed \<Rightarrow> byte list cmd \<Rightarrow> nat \<Rightarrow> bool" where
  "reads b m c s \<longleftrightarrow> (\<exists>c'. m = pret c' s \<and> map_cmd (span_text b) c' = c)"

lemma pret_inject [simp]: "pret x s = pret y t \<longleftrightarrow> x = y \<and> s = t"
  by (simp add: pret_def)

lemma map_redircmds: "map_cmd f (redircmds c rs) = redircmds (map_cmd f c) (map (apfst f) rs)"
  by (induction rs arbitrary: c) (auto simp: redircmds_def)

lemma peek_not: "dense v \<Longrightarrow> v = [] \<or> hd v \<notin> set (str toks) \<Longrightarrow> peek (u @ v) (length u) toks = (False, length u)"
  using peek_dense [of v u toks] by (cases v) auto

lemma peek_sym: "dense (c # v) \<Longrightarrow> c \<noteq> 0 \<Longrightarrow> c \<in> set (str toks) \<Longrightarrow> peek (u @ c # v) (length u) toks = (True, length u)"
  by (simp add: peek_dense)

lemma exec_at:
  assumes ws: "\<forall>w\<in>set ws. word_ok w" "length ws < MAXARGS" and rs: "\<forall>r\<in>set rs. redir_ok r" and v: "ends_cmd v"
    and b: "b = u @ spell_words ws @ spell_redirs rs @ v"
  shows "reads b (parseexec (Suc n) b (length u)) (redircmds (ExecCmd ws) rs) (length u + length (spell_words ws @ spell_redirs rs))"
proof -
  let ?v = "spell_words ws @ spell_redirs rs @ v"
  have er: "ends_redirs v" "dense v" using ends_cmd_redirs [OF v] by (simp_all add: ends_redirs_def)
  have d: "dense ?v" using words_dense(2) [OF ws(1) dense_redirs [OF er(2)]] .
  have "?v = [] \<or> hd ?v \<notin> set (str ''('')"
    using ws(1) v by (cases ws; cases rs)
      (auto simp: spell_words_def spell_redirs_def spell_redir_def ends_cmd_def str_def word_ok_def hd_append plain_def symbols_def split: prod.splits if_splits)
  then have pk: "peek b (length u) ''('' = (False, length u)" unfolding b by (intro peek_not d)
  show ?thesis
  proof (cases "ws = []")
    case True
    obtain rs' where r: "parseredirs b (length u) = pret rs' (length u + length (spell_redirs rs))" "texts b rs' = rs"
      using redirs_at [OF rs er(1), of b u] b True by (auto simp: spell_words_def)
    have "parseargs b 0 (length u + length (spell_redirs rs)) = pret ([], []) (length u + length (spell_redirs rs))"
      using stop_at [OF v, of "u @ spell_redirs rs" 0] b True by (simp add: spell_words_def)
    then show ?thesis using pk r True by (auto simp: reads_def spell_words_def map_redircmds)
  next
    case False
    have "parseredirs b (length u) = pret [] (length u)"
      using redirs_at [of "[]" "?v" b u] words_dense(1) [OF ws(1) False] b by (auto simp: spell_redirs_def)
    moreover obtain as rs' where "parseargs b 0 (length u) = pret (as, rs') (length u + length (spell_words ws) + length (spell_redirs rs))"
      "map (span_text b) as = ws" "texts b rs' = rs"
      using args_at [OF ws(1) rs v, of 0 b u] ws(2) False b by auto
    ultimately show ?thesis using pk by (auto simp: reads_def map_redircmds add.assoc)
  qed
qed

lemma block_at:
  assumes b: "b = u @ parens t @ spell_redirs rs @ v" and rs: "\<forall>r\<in>set rs. redir_ok r" and v: "ends_cmd v" and t: "dense (t @ str '')'' @ w)"
    and line: "reads b (parseline n b (length u + 1)) c (length u + 1 + length t)"
  shows "reads b (parseexec (Suc (Suc n)) b (length u)) (redircmds c rs) (length u + length (parens t @ spell_redirs rs))"
proof -
  let ?p = "of_char CHR ''('' :: byte" and ?q = "of_char CHR '')'' :: byte"
  have er: "ends_redirs v" "dense v" using ends_cmd_redirs [OF v] by (simp_all add: ends_redirs_def)
  have dr: "dense (spell_redirs rs @ v)" by (rule dense_redirs [OF er(2)])
  have b1: "b = u @ ?p # t @ ?q # spell_redirs rs @ v" using b by (simp add: parens_def str_def)
  have dt: "dense (t @ ?q # spell_redirs rs @ v)" using t by (cases t) (simp_all add: dense_def str_def)
  have pk: "peek b (length u) ''('' = (True, length u)" unfolding b1 by (rule peek_sym) (simp_all add: dense_def whitespace_def str_def)
  have tk: "gettoken b (length u) = (?p, (length u, length u + 1), length u + 1)" unfolding b1 by (rule gettoken_sym [OF _ dt]) (simp add: str_def)
  obtain c' where c': "parseline n b (length u + 1) = pret c' (length u + 1 + length t)" "map_cmd (span_text b) c' = c" using line by (auto simp: reads_def)
  have b2: "b = (u @ ?p # t) @ ?q # spell_redirs rs @ v" using b1 by simp
  have pk2: "peek b (length u + 1 + length t) '')'' = (True, length u + 1 + length t)"
    using peek_sym [of ?q "spell_redirs rs @ v" "'')''" "u @ ?p # t"] b2 by (simp add: dense_def whitespace_def str_def)
  have tk2: "gettoken b (length u + 1 + length t) = (?q, (length u + 1 + length t, length u + 1 + length t + 1), length u + 1 + length t + 1)"
    using gettoken_sym [OF _ dr, of ?q "u @ ?p # t"] b2 by (simp add: str_def)
  have "b = (u @ parens t) @ spell_redirs rs @ v" using b by simp
  from redirs_at [OF rs er(1) this] obtain rs' where
    r: "parseredirs b (length u + 1 + length t + 1) = pret rs' (length u + length (parens t @ spell_redirs rs))" "texts b rs' = rs"
    by (auto simp: parens_def str_def add.assoc)
  show ?thesis using pk tk c' pk2 tk2 r by (auto simp: reads_def map_redircmds)
qed

lemma pipe_at:
  assumes "reads b (parseexec n b s) c (length u)" "b = u @ v" "dense v" "v = [] \<or> hd v \<notin> set (str ''|'')"
  shows "reads b (parsepipe (Suc n) b s) c (length u)"
  using assms peek_not [OF assms(3,4), of u] by (auto simp: reads_def)

definition ends_line :: "byte list \<Rightarrow> bool" where
  "ends_line v \<longleftrightarrow> v = [] \<or> hd v = of_char CHR '')''"

lemma ends_line_cmd: "ends_line v \<Longrightarrow> ends_cmd v" "ends_line v \<Longrightarrow> dense v"
  by (cases v; auto simp: ends_line_def ends_cmd_def dense_def whitespace_def str_def)+

lemma line_end:
  assumes "reads b (parsepipe n b s) c (length u)" "b = u @ v" "ends_line v"
  shows "reads b (parseline (Suc n) b s) c (length u)"
proof -
  have n: "peek b (length u) ''&'' = (False, length u)" "peek b (length u) '';'' = (False, length u)"
    unfolding assms(2) using assms(3) ends_line_cmd(2) [OF assms(3)] by (auto intro!: peek_not simp: ends_line_def str_def)
  have "back_loop b (length u) c' = (c', length u)" for c' by (subst back_loop.simps) (simp add: n)
  then show ?thesis using assms(1) n by (auto simp: reads_def)
qed


section \<open>Every command has a spelling\<close>

lemma spell_redircmds:
  "rs \<noteq> [] \<Longrightarrow> spell (redircmds c rs) = (if is_simple c then spell c else parens (spell c)) @ spell_redirs rs"
proof (induction rs rule: rev_induct)
  case (snoc r rs)
  obtain f mode fd where r: "r = (f, mode, fd)" by (cases r)
  have "is_simple (redircmds c rs)" if "rs \<noteq> []"
    using that by (induction rs rule: rev_induct) (auto simp: redircmds_def split: prod.split)
  then show ?case using snoc by (cases "rs = []") (auto simp: redircmds_def spell_redirs_def r)
qed simp

lemma spellable_redircmds: "spellable (redircmds c rs) \<longleftrightarrow> spellable c \<and> (\<forall>r\<in>set rs. redir_ok r)"
  by (induction rs arbitrary: c) (auto simp: redircmds_def)

lemma size_redircmds: "size c + length rs \<le> size (redircmds c rs)"
  by (induction rs rule: rev_induct) (auto simp: redircmds_def split: prod.split)

fun is_redir :: "'s cmd \<Rightarrow> bool" where
  "is_redir (RedirCmd c f mode fd) = True"
| "is_redir c = False"

lemma strip_none: "\<not> is_redir c \<Longrightarrow> \<exists>c' rs. c = redircmds c' rs \<and> \<not> is_redir c'"
  by (intro exI [of _ c] exI [of _ "[]"]) (simp add: redircmds_def)

lemma strip_redirs: "\<exists>c' rs. c = redircmds c' rs \<and> \<not> is_redir c'"
proof (induction c)
  case (RedirCmd c f mode fd)
  then obtain c' rs where "c = redircmds c' rs" "\<not> is_redir c'" by blast
  then show ?case by (intro exI [of _ c'] exI [of _ "rs @ [(f, mode, fd)]"]) (simp add: redircmds_def)
qed (rule strip_none, simp)+

lemma spell_dense: "spellable c \<Longrightarrow> dense v \<Longrightarrow> dense (spell c @ v)"
proof (induction c arbitrary: v)
  case (ExecCmd ws)
  then show ?case using words_dense(2) by simp
next
  case (RedirCmd c f mode fd)
  have "dense (spell_redir (f, mode, fd) @ v)" using dense_redirs [OF RedirCmd.prems(2), of "[(f, mode, fd)]"] by (simp add: spell_redirs_def)
  then show ?case using RedirCmd by (auto simp: parens_def dense_def str_def whitespace_def)
qed (simp_all add: parens_def dense_def str_def whitespace_def)

text \<open>What the parser does on the spelling of \<open>c\<close>, at any place where a line may end behind it.\<close>

definition line_reads :: "byte list cmd \<Rightarrow> bool" where
  "line_reads c \<longleftrightarrow> (\<forall>u v n. ends_line v \<and> left (u @ spell c @ v) (length u) + 4 \<le> n \<longrightarrow>
     reads (u @ spell c @ v) (parseline n (u @ spell c @ v) (length u)) c (length u + length (spell c)))"

lemma paren_exec:
  assumes c: "line_reads c" "spellable c" and rs: "\<forall>r\<in>set rs. redir_ok r" and v: "ends_cmd v"
    and b: "b = u @ parens (spell c) @ spell_redirs rs @ v" and n: "left b (length u) + 2 \<le> n"
  shows "reads b (parseexec n b (length u)) (redircmds c rs) (length u + length (parens (spell c) @ spell_redirs rs))"
proof -
  obtain m where m: "n = Suc (Suc m)" using n by (intro that [of "n - 2"]) linarith
  let ?u = "u @ str ''(''" and ?v = "str '')'' @ spell_redirs rs @ v"
  have b': "b = ?u @ spell c @ ?v" using b by (simp add: parens_def)
  have "left b (length ?u) + 4 \<le> m" using n m b' by (simp add: str_def)
  moreover have "ends_line ?v" by (simp add: ends_line_def str_def)
  ultimately have "reads b (parseline m b (length ?u)) c (length ?u + length (spell c))"
    using c(1) [unfolded line_reads_def, rule_format, of ?v ?u m] by (simp only: b')
  then have "reads b (parseline m b (length u + 1)) c (length u + 1 + length (spell c))" by (simp add: str_def)
  moreover have "dense (spell c @ str '')'' @ [])" by (rule spell_dense [OF c(2)]) (simp add: dense_def str_def whitespace_def)
  ultimately show ?thesis unfolding m by (intro block_at [OF b rs v])
qed

lemma paren_pipe:
  assumes c: "line_reads c" "spellable c" and v: "ends_cmd v" "v = [] \<or> hd v \<notin> set (str ''|'')"
    and b: "b = u @ parens (spell c) @ v" and n: "left b (length u) + 3 \<le> n"
  shows "reads b (parsepipe n b (length u)) c (length (u @ parens (spell c)))"
proof -
  obtain m where m: "n = Suc m" using n by (cases n) auto
  have "reads b (parseexec m b (length u)) (redircmds c []) (length u + length (parens (spell c) @ spell_redirs []))"
    using n m b by (intro paren_exec [OF c _ v(1)]) (simp_all add: spell_redirs_def)
  then have "reads b (parseexec m b (length u)) c (length (u @ parens (spell c)))" by (simp add: redircmds_def spell_redirs_def)
  then show ?thesis unfolding m using b v ends_cmd_redirs [OF v(1)] by (intro pipe_at [where v = v]) (simp_all add: ends_redirs_def)
qed

lemma paren_line:
  assumes c: "line_reads c" "spellable c" and v: "ends_line v" and b: "b = u @ parens (spell c) @ v" and n: "left b (length u) + 4 \<le> n"
  shows "reads b (parseline n b (length u)) c (length (u @ parens (spell c)))"
proof -
  obtain m where m: "n = Suc m" using n by (cases n) auto
  have "v = [] \<or> hd v \<notin> set (str ''|'')" using v by (auto simp: ends_line_def str_def)
  then have "reads b (parsepipe m b (length u)) c (length (u @ parens (spell c)))"
    using n m by (intro paren_pipe [OF c ends_line_cmd(1) [OF v] _ b]) simp_all
  then show ?thesis unfolding m using b v by (intro line_end [where v = v]) simp_all
qed

lemma line_reads_intro:
  "(\<And>u v n. ends_line v \<Longrightarrow> left (u @ spell c @ v) (length u) + 4 \<le> n \<Longrightarrow>
     reads (u @ spell c @ v) (parseline n (u @ spell c @ v) (length u)) c (length (u @ spell c))) \<Longrightarrow> line_reads c"
  by (simp add: line_reads_def)

lemma exec_line:
  assumes pe: "\<And>u v b n. ends_cmd v \<Longrightarrow> b = u @ spell c @ v \<Longrightarrow> left b (length u) + 2 \<le> n \<Longrightarrow>
      reads b (parseexec n b (length u)) c (length (u @ spell c))"
  shows "line_reads c"
proof (rule line_reads_intro)
  fix u v n assume v: "ends_line v" and n: "left (u @ spell c @ v) (length u) + 4 \<le> n"
  let ?b = "u @ spell c @ v"
  obtain m where m: "n = Suc (Suc m)" using n by (intro that [of "n - 2"]) linarith
  have "reads ?b (parseexec m ?b (length u)) c (length (u @ spell c))"
    using n m by (intro pe [OF ends_line_cmd(1) [OF v]]) simp_all
  then have "reads ?b (parsepipe (Suc m) ?b (length u)) c (length (u @ spell c))"
    using v ends_line_cmd(2) [OF v] by (intro pipe_at [where v = v]) (auto simp: ends_line_def str_def)
  then show "reads ?b (parseline n ?b (length u)) c (length (u @ spell c))"
    unfolding m using v by (intro line_end [where v = v]) simp_all
qed

lemma pipe_line:
  assumes "line_reads c" "line_reads d" "spellable c" "spellable d"
  shows "line_reads (PipeCmd c d)"
proof (rule line_reads_intro)
  fix u v n assume v: "ends_line v" and n: "left (u @ spell (PipeCmd c d) @ v) (length u) + 4 \<le> n"
  let ?bar = "of_char CHR ''|'' :: byte" and ?u = "u @ parens (spell c) @ str ''|''" and ?v = "str ''|'' @ parens (spell d) @ v"
  define b where "b = u @ spell (PipeCmd c d) @ v"
  have b1: "b = u @ parens (spell c) @ spell_redirs [] @ ?v" "b = (u @ parens (spell c)) @ ?bar # parens (spell d) @ v" "b = ?u @ parens (spell d) @ v"
    by (simp_all add: b_def spell_redirs_def str_def)
  obtain m where m: "n = Suc (Suc m)" using n by (intro that [of "n - 2"]) linarith
  have "reads b (parseexec m b (length u)) (redircmds c []) (length u + length (parens (spell c) @ spell_redirs []))"
    using n m by (intro paren_exec [OF assms(1,3) _ _ b1(1)]) (simp_all add: ends_cmd_def str_def b_def)
  then obtain c' where c': "parseexec m b (length u) = pret c' (length (u @ parens (spell c)))" "map_cmd (span_text b) c' = c"
    by (auto simp: reads_def redircmds_def spell_redirs_def)
  have pk: "peek b (length (u @ parens (spell c))) ''|'' = (True, length (u @ parens (spell c)))"
    unfolding b1(2) by (rule peek_sym) (simp_all add: dense_def whitespace_def str_def)
  have tk: "gettoken b (length (u @ parens (spell c))) = (?bar, (length (u @ parens (spell c)), length (u @ parens (spell c)) + 1), length ?u)"
    unfolding b1(2) by (subst gettoken_sym) (simp_all add: dense_def whitespace_def str_def parens_def)
  have "v = [] \<or> hd v \<notin> set (str ''|'')" using v by (auto simp: ends_line_def str_def)
  then have "reads b (parsepipe m b (length ?u)) d (length (?u @ parens (spell d)))"
    using n m by (intro paren_pipe [OF assms(2,4) ends_line_cmd(1) [OF v] _ b1(3)]) (simp_all add: b_def str_def)
  then obtain d' where d': "parsepipe m b (length ?u) = pret d' (length (?u @ parens (spell d)))" "map_cmd (span_text b) d' = d"
    by (auto simp: reads_def)
  have "parsepipe (Suc m) b (length u) = pret (PipeCmd c' d') (length (u @ spell (PipeCmd c d)))"
    using c'(1) pk tk d'(1) by (simp add: add.assoc)
  then have "reads b (parsepipe (Suc m) b (length u)) (PipeCmd c d) (length (u @ spell (PipeCmd c d)))"
    using c'(2) d'(2) by (simp add: reads_def)
  then show "reads (u @ spell (PipeCmd c d) @ v) (parseline n (u @ spell (PipeCmd c d) @ v) (length u)) (PipeCmd c d) (length (u @ spell (PipeCmd c d)))"
    unfolding m b_def [symmetric] using v by (intro line_end [where v = v]) (simp_all add: b_def)
qed

text \<open>The other operators come after a command in parentheses that \<open>parsepipe\<close> has read.\<close>

lemma operand:
  assumes c: "line_reads c" "spellable c" and x: "x = of_char CHR ''&'' \<or> x = of_char CHR '';''" and v: "dense v"
    and b: "b = u @ parens (spell c) @ x # v" and n: "left b (length u) + 4 \<le> n"
  obtains m c' where "n = Suc m" "parsepipe m b (length u) = pret c' (length (u @ parens (spell c)))" "map_cmd (span_text b) c' = c"
    "gettoken b (length (u @ parens (spell c))) = (x, (length (u @ parens (spell c)), length (u @ parens (spell c)) + 1), length (u @ parens (spell c)) + 1)"
    "peek b (length (u @ parens (spell c))) ''&'' = (x = of_char CHR ''&'', length (u @ parens (spell c)))"
    "peek b (length (u @ parens (spell c))) '';'' = (x = of_char CHR '';'', length (u @ parens (spell c)))"
proof -
  obtain m where m: "n = Suc m" using n by (cases n) auto
  have "reads b (parsepipe m b (length u)) c (length (u @ parens (spell c)))"
    using n m x by (intro paren_pipe [OF c _ _ b]) (auto simp: ends_cmd_def str_def)
  then obtain c' where c': "parsepipe m b (length u) = pret c' (length (u @ parens (spell c)))" "map_cmd (span_text b) c' = c"
    by (auto simp: reads_def)
  have b': "b = (u @ parens (spell c)) @ x # v" using b by simp
  have d: "dense (x # v)" "x \<noteq> 0" using x by (auto simp: dense_def whitespace_def)
  have "gettoken b (length (u @ parens (spell c))) = (x, (length (u @ parens (spell c)), length (u @ parens (spell c)) + 1), length (u @ parens (spell c)) + 1)"
    unfolding b' using x by (intro gettoken_sym v) (auto simp: str_def)
  moreover have "peek b (length (u @ parens (spell c))) [k] = (x = of_char k, length (u @ parens (spell c)))" for k
    unfolding b' using peek_dense [OF d(1), of "u @ parens (spell c)" "[k]"] d(2) by (simp add: str_def)
  ultimately show thesis using that m c' by blast
qed

lemma list_line:
  assumes "line_reads c" "line_reads d" "spellable c" "spellable d"
  shows "line_reads (ListCmd c d)"
proof (rule line_reads_intro)
  fix u v n assume v: "ends_line v" and n: "left (u @ spell (ListCmd c d) @ v) (length u) + 4 \<le> n"
  let ?x = "of_char CHR '';'' :: byte" and ?u = "u @ parens (spell c) @ str '';''"
  define b where "b = u @ spell (ListCmd c d) @ v"
  have b1: "b = u @ parens (spell c) @ ?x # parens (spell d) @ v" "b = ?u @ parens (spell d) @ v" by (simp_all add: b_def str_def)
  have dp: "dense (parens (spell d) @ v)" by (simp add: dense_def parens_def str_def whitespace_def)
  obtain m c' where m: "n = Suc m" and c': "parsepipe m b (length u) = pret c' (length (u @ parens (spell c)))" "map_cmd (span_text b) c' = c"
    and tk: "gettoken b (length (u @ parens (spell c))) = (?x, (length (u @ parens (spell c)), length (u @ parens (spell c)) + 1), length (u @ parens (spell c)) + 1)"
    and pk: "peek b (length (u @ parens (spell c))) ''&'' = (?x = of_char CHR ''&'', length (u @ parens (spell c)))"
      "peek b (length (u @ parens (spell c))) '';'' = (?x = of_char CHR '';'', length (u @ parens (spell c)))"
    by (rule operand [OF assms(1,3) disjI2 [OF refl] dp b1(1) n [folded b_def]])
  have "reads b (parseline m b (length ?u)) d (length (?u @ parens (spell d)))"
    using n m by (intro paren_line [OF assms(2,4) v b1(2)]) (simp add: b_def str_def)
  then obtain d' where d': "parseline m b (length ?u) = pret d' (length (?u @ parens (spell d)))" "map_cmd (span_text b) d' = d"
    by (auto simp: reads_def)
  have bl: "back_loop b (length (u @ parens (spell c))) c' = (c', length (u @ parens (spell c)))"
    using pk by (subst back_loop.simps) simp
  have "parseline (Suc m) b (length u) = pret (ListCmd c' d') (length (u @ spell (ListCmd c d)))"
    using c'(1) bl pk tk d'(1) by (simp add: str_def add.assoc)
  then show "reads (u @ spell (ListCmd c d) @ v) (parseline n (u @ spell (ListCmd c d) @ v) (length u)) (ListCmd c d) (length (u @ spell (ListCmd c d)))"
    unfolding m b_def [symmetric] using c'(2) d'(2) by (simp add: reads_def)
qed

lemma back_line:
  assumes "line_reads c" "spellable c"
  shows "line_reads (BackCmd c)"
proof (rule line_reads_intro)
  fix u v n assume v: "ends_line v" and n: "left (u @ spell (BackCmd c) @ v) (length u) + 4 \<le> n"
  let ?x = "of_char CHR ''&'' :: byte" and ?u = "u @ parens (spell c) @ str ''&''"
  define b where "b = u @ spell (BackCmd c) @ v"
  have b1: "b = u @ parens (spell c) @ ?x # v" "b = ?u @ v" by (simp_all add: b_def str_def)
  have dv: "dense v" by (rule ends_line_cmd(2) [OF v])
  obtain m c' where m: "n = Suc m" and c': "parsepipe m b (length u) = pret c' (length (u @ parens (spell c)))" "map_cmd (span_text b) c' = c"
    and tk: "gettoken b (length (u @ parens (spell c))) = (?x, (length (u @ parens (spell c)), length (u @ parens (spell c)) + 1), length (u @ parens (spell c)) + 1)"
    and pk: "peek b (length (u @ parens (spell c))) ''&'' = (?x = of_char CHR ''&'', length (u @ parens (spell c)))"
      "peek b (length (u @ parens (spell c))) '';'' = (?x = of_char CHR '';'', length (u @ parens (spell c)))"
    by (rule operand [OF assms disjI1 [OF refl] dv b1(1) n [folded b_def]])
  have no: "peek b (length ?u) ''&'' = (False, length ?u)" "peek b (length ?u) '';'' = (False, length ?u)"
    using peek_not [OF dv, of "''&''" ?u] peek_not [OF dv, of "'';''" ?u] v b1(2) by (auto simp: ends_line_def str_def)
  have "back_loop b (length ?u) (BackCmd c') = (BackCmd c', length ?u)" by (subst back_loop.simps) (simp only: no prod.case if_False)
  then have bl: "back_loop b (length (u @ parens (spell c))) c' = (BackCmd c', length ?u)"
    using pk tk by (subst back_loop.simps) (simp add: str_def)
  have "parseline (Suc m) b (length u) = pret (BackCmd c') (length (u @ spell (BackCmd c)))"
    using c'(1) bl no by (simp add: str_def)
  then show "reads (u @ spell (BackCmd c) @ v) (parseline n (u @ spell (BackCmd c) @ v) (length u)) (BackCmd c) (length (u @ spell (BackCmd c)))"
    unfolding m b_def [symmetric] using c'(2) by (simp add: reads_def)
qed

lemma simple_line:
  assumes "spellable (redircmds (ExecCmd ws) rs)"
  shows "line_reads (redircmds (ExecCmd ws) rs)"
proof (rule exec_line)
  let ?c = "redircmds (ExecCmd ws) rs"
  have sp: "spell ?c = spell_words ws @ spell_redirs rs"
    using spell_redircmds [of rs "ExecCmd ws"] by (cases "rs = []") (auto simp: redircmds_def spell_redirs_def)
  fix u v b n assume v: "ends_cmd v" and b: "b = u @ spell ?c @ v" and n: "left b (length u) + 2 \<le> n"
  obtain m where "n = Suc m" using n by (cases n) auto
  then show "reads b (parseexec n b (length u)) ?c (length (u @ spell ?c))"
    using exec_at [of ws rs v b u m] assms v b sp by (simp add: spellable_redircmds)
qed

lemma redirected_line:
  assumes "line_reads c" "spellable (redircmds c rs)" "\<not> is_simple c" "rs \<noteq> []"
  shows "line_reads (redircmds c rs)"
proof (rule exec_line)
  fix u v b n assume v: "ends_cmd v" and b: "b = u @ spell (redircmds c rs) @ v" and n: "left b (length u) + 2 \<le> n"
  have ok: "spellable c" "\<forall>r\<in>set rs. redir_ok r" using assms(2) by (simp_all add: spellable_redircmds)
  have "b = u @ parens (spell c) @ spell_redirs rs @ v" using b spell_redircmds [OF assms(4), of c] assms(3) by simp
  from paren_exec [OF assms(1) ok v this n] show "reads b (parseexec n b (length u)) (redircmds c rs) (length (u @ spell (redircmds c rs)))"
    using spell_redircmds [OF assms(4), of c] assms(3) by simp
qed

lemma spell_reads: "spellable c \<Longrightarrow> line_reads c"
proof (induction "size c" arbitrary: c rule: less_induct)
  case less
  obtain d rs where d: "c = redircmds d rs" "\<not> is_redir d" using strip_redirs by blast
  have ok: "spellable d" using less(2) d(1) spellable_redircmds by auto
  consider ws where "d = ExecCmd ws" | "\<not> is_simple d" "rs = []" | "\<not> is_simple d" "rs \<noteq> []" using d(2) by (cases d) auto
  then show ?case
  proof cases
    case 1
    then show ?thesis using simple_line less(2) d(1) by simp
  next
    case 2
    then have "c = d" using d(1) by (simp add: redircmds_def)
    then show ?thesis using 2(1) d(2) less by (cases d) (auto intro: pipe_line list_line back_line)
  next
    case 3
    have "size d < size c" using size_redircmds [of d rs] d(1) 3(2) by (cases rs) auto
    then show ?thesis using redirected_line [OF less(1) _ 3] ok less(2) d(1) by simp
  qed
qed

lemma spell_plain: "spellable c \<Longrightarrow> 0 \<notin> set (spell c)"
proof (induction c)
  case (RedirCmd c f mode fd)
  then show ?case by (auto simp: parens_def spell_redir_def str_def redir_ok_def word_ok_def plain_def)
qed (auto simp: parens_def spell_words_def str_def word_ok_def plain_def)

section \<open>The newline at the end of a line\<close>

text \<open>A newline behind the line moves the position at the end of the line behind it, and changes nothing else.\<close>

definition past :: "byte list \<Rightarrow> nat \<Rightarrow> nat" where
  "past b s = (if s = length b then Suc s else s)"

definition near :: "byte list \<Rightarrow> nat \<Rightarrow> nat \<Rightarrow> bool" where
  "near b s s' \<longleftrightarrow> s' = s \<or> s' = past b s"

definition past_result :: "byte list \<Rightarrow> 'a parsed \<Rightarrow> 'a parsed" where
  "past_result b = map_option (map_sum id (map_prod id (past b)))"

lemma near_simps [simp]: "near b s s" "near b s (past b s)"
  by (simp_all add: near_def)

lemma past_result_simps [simp]:
  "past_result b (pret x s) = pret x (past b s)" "past_result b (ppanic e) = ppanic e" "past_result b None = None"
  by (simp_all add: past_result_def parsed_defs)

lemma past_result_bind:
  assumes "m' = past_result b m" "\<And>x s. m = pret x s \<Longrightarrow> f' x (past b s) = past_result b (f x s)"
  shows "pbind m' f' = past_result b (pbind m f)"
  using assms by (auto simp: past_result_def parsed_defs split: option.split sum.split)

lemma ch_nl: "ch (b @ [10]) s = (if s = length b then 10 else ch b s)"
  by (auto simp: ch_def nth_append)

lemma ch_past: "ch (b @ [10]) (past b s) = ch b s"
  by (auto simp: ch_def nth_append past_def)

lemma skip_ws_nl0: "skip_ws (b @ [10]) s = past b (skip_ws b s)"
proof (induction b s rule: skip_ws.induct)
  case (1 b s)
  have e: "skip_ws (b @ [10]) (Suc (length b)) = Suc (length b)" by (subst skip_ws.simps) simp
  consider "s < length b" | "s = length b" | "s > length b" by linarith
  then show ?case
  proof cases
    case 1
    then show ?thesis using "1.IH" by (subst skip_ws.simps, subst (2) skip_ws.simps) (auto simp: ch_nl past_def)
  next
    case 2
    then show ?thesis using e by (subst skip_ws.simps, subst (2) skip_ws.simps) (simp add: ch_nl past_def whitespace_def)
  next
    case 3
    then show ?thesis by (subst skip_ws.simps, subst (2) skip_ws.simps) (simp add: past_def)
  qed
qed

lemma skip_ws_nl: "near b s s' \<Longrightarrow> skip_ws (b @ [10]) s' = past b (skip_ws b s)"
proof -
  have "skip_ws b (length b) = length b" "skip_ws b (Suc (length b)) = Suc (length b)" by (subst skip_ws.simps, simp)+
  then show "near b s s' \<Longrightarrow> ?thesis" by (auto simp: near_def skip_ws_nl0 past_def split: if_splits)
qed

lemma skip_word_nl: "skip_word (b @ [10]) s = skip_word b s"
proof (induction b s rule: skip_word.induct)
  case (1 b s)
  consider "s < length b" | "s = length b" | "s > length b" by linarith
  then show ?case
    by cases (subst skip_word.simps, subst (2) skip_word.simps, use 1 in \<open>auto simp: ch_nl whitespace_def\<close>)+
qed

lemma peek_nl: "near b s s' \<Longrightarrow> peek (b @ [10]) s' toks = map_prod id (past b) (peek b s toks)"
  by (simp add: peek_def Let_def skip_ws_nl ch_past)

lemma gettoken_nl:
  assumes "near b s s'" "gettoken b s = (tok, qe, p)"
  obtains qe' where "gettoken (b @ [10]) s' = (tok, qe', past b p)" "tok \<noteq> 0 \<longrightarrow> qe' = qe"
proof -
  let ?q = "skip_ws b s"
  have w: "skip_ws (b @ [10]) s' = past b ?q" by (rule skip_ws_nl [OF assms(1)])
  show ?thesis
  proof (cases "ch b ?q = 0")
    case True
    then show ?thesis using assms(2) w that skip_ws_idem [of b s] by (auto simp: gettoken_def Let_def ch_past skip_ws_nl [of b ?q])
  next
    case False
    then have q: "past b ?q = ?q" "?q \<noteq> length b" using ch_in [of b ?q] by (auto simp: past_def)
    have "ch (b @ [10]) ?q = ch b ?q" "ch (b @ [10]) (?q + 1) = of_char CHR ''>'' \<longleftrightarrow> ch b (?q + 1) = of_char CHR ''>''"
      using q(2) ch_in [of b "length b"] by (auto simp: ch_nl)
    then have "gettoken (b @ [10]) s' = (tok, qe, past b p)"
      using assms(2) unfolding gettoken_def Let_def w q(1) by (auto simp: skip_word_nl skip_ws_nl0 split: if_splits)
    then show ?thesis using that by simp
  qed
qed

lemma back_loop_nl: "near b s s' \<Longrightarrow> back_loop (b @ [10]) s' c = map_prod id (past b) (back_loop b s c)"
proof (induction b s c arbitrary: s' rule: back_loop.induct)
  case (1 b s c)
  obtain p s1 where p: "peek b s ''&'' = (p, s1)" by fastforce
  obtain tok qe s2 where t: "gettoken b s1 = (tok, qe, s2)" by (metis prod.exhaust)
  obtain qe' where t': "gettoken (b @ [10]) (past b s1) = (tok, qe', past b s2)" by (rule gettoken_nl [OF near_simps(2) t])
  show ?case
  proof (cases p)
    case True
    have "back_loop (b @ [10]) (past b s2) (BackCmd c) = map_prod id (past b) (back_loop b s2 (BackCmd c))"
      using True p t by (intro 1(1)) auto
    then show ?thesis using True p t t' peek_nl [OF 1(2), of "''&''"]
      by (subst back_loop.simps, subst (2) back_loop.simps) simp
  next
    case False
    then show ?thesis using p peek_nl [OF 1(2), of "''&''"] by (subst back_loop.simps, subst (2) back_loop.simps) simp
  qed
qed

lemma parseredirs_nl: "near b s s' \<Longrightarrow> parseredirs (b @ [10]) s' = past_result b (parseredirs b s)"
proof (induction b s arbitrary: s' rule: parseredirs.induct)
  case (1 b s)
  obtain p s1 where p: "peek b s ''<>'' = (p, s1)" by fastforce
  obtain tok qe s2 where t: "gettoken b s1 = (tok, qe, s2)" by (metis prod.exhaust)
  obtain qe0 where t': "gettoken (b @ [10]) (past b s1) = (tok, qe0, past b s2)" by (rule gettoken_nl [OF near_simps(2) t])
  obtain tok2 qe2 s3 where u: "gettoken b s2 = (tok2, qe2, s3)" by (metis prod.exhaust)
  obtain qe3 where u': "gettoken (b @ [10]) (past b s2) = (tok2, qe3, past b s3)" "tok2 \<noteq> 0 \<longrightarrow> qe3 = qe2"
    by (rule gettoken_nl [OF near_simps(2) u])
  show ?case
  proof (cases "p \<and> tok2 = of_char CHR ''a''")
    case True
    have "parseredirs (b @ [10]) (past b s3) = past_result b (parseredirs b s3)"
      using True p t u by (intro 1(1)) auto
    then show ?thesis using True p t t' u u' peek_nl [OF 1(2), of "''<>''"]
      by (subst parseredirs.simps, subst (2) parseredirs.simps) (auto intro: past_result_bind)
  next
    case False
    then show ?thesis using p t t' u u' peek_nl [OF 1(2), of "''<>''"]
      by (subst parseredirs.simps, subst (2) parseredirs.simps) auto
  qed
qed

lemma parseargs_nl: "near b s s' \<Longrightarrow> parseargs (b @ [10]) argc s' = past_result b (parseargs b argc s)"
proof (induction b argc s arbitrary: s' rule: parseargs.induct)
  case (1 b argc s)
  obtain p s1 where p: "peek b s ''|)&;'' = (p, s1)" by fastforce
  obtain tok qe s2 where t: "gettoken b s1 = (tok, qe, s2)" by (metis prod.exhaust)
  obtain qe' where t': "gettoken (b @ [10]) (past b s1) = (tok, qe', past b s2)" "tok \<noteq> 0 \<longrightarrow> qe' = qe"
    by (rule gettoken_nl [OF near_simps(2) t])
  note pn = p peek_nl [OF 1(2), of "''|)&;''"]
  show ?case
  proof (cases "\<not> p \<and> tok = of_char CHR ''a'' \<and> \<not> argc + 1 \<ge> MAXARGS")
    case True
    have "parseargs (b @ [10]) (argc + 1) (past b s3) = past_result b (parseargs b (argc + 1) s3)"
      if "parseredirs b s2 = pret rs s3" for rs s3
      using True p t that by (intro 1(1)) (auto simp: pret_def)
    then show ?thesis using True pn t t'
      by (subst parseargs.simps, subst (2) parseargs.simps)
        (auto intro!: past_result_bind parseredirs_nl split: prod.split)
  next
    case False
    then show ?thesis using pn t t' by (subst parseargs.simps, subst (2) parseargs.simps) auto
  qed
qed

lemma case_peek_nl:
  assumes "near b s s'" "\<And>p s. F p (past b s) = past_result b (G p s)"
  shows "(case peek (b @ [10]) s' toks of (p, s) \<Rightarrow> F p s) = past_result b (case peek b s toks of (p, s) \<Rightarrow> G p s)"
  using assms by (simp add: peek_nl split: prod.split)

lemma case_token_nl:
  assumes "\<And>s. F (past b s) = past_result b (G s)"
  shows "(case gettoken (b @ [10]) (past b s) of (tok, qe, s) \<Rightarrow> F s) = past_result b (case gettoken b s of (tok, qe, s) \<Rightarrow> G s)"
proof -
  obtain tok qe s2 where t: "gettoken b s = (tok, qe, s2)" by (metis prod.exhaust)
  obtain qe' where "gettoken (b @ [10]) (past b s) = (tok, qe', past b s2)" by (rule gettoken_nl [OF near_simps(2) t])
  then show ?thesis using t assms by simp
qed

lemma case_back_nl:
  assumes "\<And>c s. F c (past b s) = past_result b (G c s)"
  shows "(case back_loop (b @ [10]) (past b s) c of (c, s) \<Rightarrow> F c s) = past_result b (case back_loop b s c of (c, s) \<Rightarrow> G c s)"
  using assms by (simp add: back_loop_nl [of b s] split: prod.split)

lemma past_result_if: "x = past_result b x' \<Longrightarrow> y = past_result b y' \<Longrightarrow> (if p then x else y) = past_result b (if p then x' else y')"
  by simp

lemma past_result_pair:
  "(\<And>x y. F x y s' = past_result b (G x y s)) \<Longrightarrow> (case z of (x, y) \<Rightarrow> F x y) s' = past_result b ((case z of (x, y) \<Rightarrow> G x y) s)"
  by (cases z) simp

lemma parser_nl:
  "(\<forall>s s'. near b s s' \<longrightarrow> parseline n (b @ [10]) s' = past_result b (parseline n b s)) \<and>
   (\<forall>s s'. near b s s' \<longrightarrow> parsepipe n (b @ [10]) s' = past_result b (parsepipe n b s)) \<and>
   (\<forall>s s'. near b s s' \<longrightarrow> parseexec n (b @ [10]) s' = past_result b (parseexec n b s)) \<and>
   (\<forall>s s'. near b s s' \<longrightarrow> parseblock n (b @ [10]) s' = past_result b (parseblock n b s))"
proof (induction n)
  case (Suc n)
  note ih = conjunct1 [OF Suc] conjunct1 [OF conjunct2 [OF Suc]] conjunct1 [OF conjunct2 [OF conjunct2 [OF Suc]]]
    conjunct2 [OF conjunct2 [OF conjunct2 [OF Suc]]]
  note ih = ih [rule_format]
  show ?case unfolding parseline.simps parsepipe.simps parseexec.simps parseblock.simps
    by (intro conjI allI impI)
      (rule case_peek_nl case_token_nl case_back_nl past_result_if past_result_pair past_result_bind parseredirs_nl parseargs_nl ih near_simps
        past_result_simps [symmetric] | assumption)+
qed simp

section \<open>Reading back a typed line\<close>

lemma parse_line:
  assumes "spellable c"
  shows "\<exists>c' buf. parsecmd (spell c @ [10]) = Some (Inr (c', buf)) \<and> map_cmd (\<lambda>(q, e). cstring buf q) c' = c"
proof -
  let ?b = "spell c" and ?n = "parse_depth (spell c @ [10])"
  have nz: "0 \<notin> set (?b @ [10])" "0 \<notin> set ?b" using spell_plain [OF assms] by simp_all
  have "reads ?b (parseline ?n ?b 0) c (length ?b)"
    using spell_reads [OF assms] unfolding line_reads_def by (elim allE [of _ "[]"] allE [of _ ?n]) (simp add: ends_line_def parse_depth_def)
  then obtain c' where c': "parseline ?n ?b 0 = pret c' (length ?b)" "map_cmd (span_text ?b) c' = c" by (auto simp: reads_def)
  have l: "parseline ?n (?b @ [10]) 0 = pret c' (Suc (length ?b))"
    using conjunct1 [OF parser_nl [of ?b ?n], rule_format, of 0 0] c'(1) by (simp add: past_def)
  have "good ?b 0 (cmd_ok ?b) (parseline ?n ?b 0)" by (rule good_parser(1) [OF nz(2)]) (simp_all add: parse_depth_def)
  then have ok: "cmd_ok ?b c'" using c'(1) by (simp add: good_def pret_def)
  have "good (?b @ [10]) 0 (cmd_ok (?b @ [10])) (parseline ?n (?b @ [10]) 0)" by (rule good_parser(1) [OF nz(1)]) (simp_all add: parse_depth_def)
  then have ok': "cmd_ok (?b @ [10]) c'" using l by (simp add: good_def pret_def)
  let ?buf = "nulterminate c' ((?b @ [10]) @ [0])"
  have "cstring ?buf q = span_text ?b (q, e)" if "(q, e) \<in> set (spans c')" for q e
  proof -
    have "cstring ?buf q = span_text (?b @ [10]) (q, e)"
      using ok' that by (intro terminated_word [OF ok']) (auto simp: cmd_ok_def intro: rev_image_eqI)
    moreover have "e \<le> length ?b" "q < e" using ok that by (auto simp: cmd_ok_def is_word_def)
    ultimately show ?thesis by (simp add: span_text_def)
  qed
  moreover have "set_cmd d = set (spans d)" for d by (induction d) auto
  ultimately have "map_cmd (\<lambda>(q, e). cstring ?buf q) c' = map_cmd (span_text ?b) c'" by (intro cmd.map_cong0) auto
  moreover have "parsecmd (?b @ [10]) = Some (Inr (c', ?buf))"
    using l peek_dense [of "[]" "?b @ [10]" "[]"] by (simp add: parsecmd_def pret_def dense_def)
  ultimately show ?thesis using c'(2) by auto
qed

text \<open>
  C11. Every command can be typed. A command tree of plain words, with fewer arguments than \<open>MAXARGS\<close> and the two kinds of redirections, has a
  spelling as a line, and \<open>parsecmd\<close> reads that line back, with the newline that \<open>gets\<close> leaves at its end: it returns a command whose C strings, in the buffer it leaves, make up
  exactly that tree. The spelling puts the operands of \<open>|\<close>, \<open>;\<close> and \<open>&\<close> in parentheses, so the theorem is about the block, the operators and
  the redirections (of a parenthesised command, and several on one command), and not about the precedence of operators written without parentheses.
\<close>

theorem parse_spell:
  assumes "spellable c"
  shows "\<exists>c' buf. parsecmd (spell c @ [10]) = Some (Inr (c', buf)) \<and> map_cmd (\<lambda>(q, e). cstring buf q) c' = c"
  by (rule parse_line [OF assms])

theorem parse_spell_witness:
  "\<exists>c' buf. parsecmd (str ''(ls -l )|(grep x >f )'' @ [10]) = Some (Inr (c', buf)) \<and>
    map_cmd (\<lambda>(q, e). cstring buf q) c' =
      PipeCmd (ExecCmd [str ''ls'', str ''-l'']) (RedirCmd (ExecCmd [str ''grep'', str ''x'']) (str ''f'') (O_WRONLY OR O_CREATE) 1)"
proof -
  let ?c = "PipeCmd (ExecCmd [str ''ls'', str ''-l'']) (RedirCmd (ExecCmd [str ''grep'', str ''x'']) (str ''f'') (O_WRONLY OR O_CREATE) 1)"
  have "spellable ?c" by (simp add: word_ok_def redir_ok_def plain_def whitespace_def symbols_def str_def MAXARGS_def)
  moreover have "spell ?c = str ''(ls -l )|(grep x >f )''" by (simp add: parens_def spell_words_def spell_redir_def str_def)
  ultimately show ?thesis using parse_spell [of ?c] by simp
qed

end
