(* ===== verification/Runcmd.thy ===== *)
theory Runcmd
  imports Spelling
begin

text \<open>
  The shell at work: \<open>runcmd\<close>, \<open>getcmd\<close> and \<open>main\<close> of \<open>sh.c\<close>. A user program is a tree of system calls: a call whose result the
  code looks at is followed by a function of that result. The input is what the shell's own \<open>read\<close> calls return. What the calls do to the
  descriptor table (the lowest free entry is used, \<open>fork\<close> copies the table) is added by \<open>launches\<close>, which collects the
  programs executed by a process and all its descendants, whichever calls fail, with the table each one starts with.
\<close>

section \<open>User programs\<close>

datatype uprog =
    UExit
  | UStop
  | UPrint "byte list" uprog
  | UExec "byte list" "byte list list" uprog
  | UOpen "byte list" "32 word" "int \<Rightarrow> uprog"
  | UClose nat uprog
  | UDup nat uprog
  | UPipe "int \<Rightarrow> nat \<Rightarrow> nat \<Rightarrow> uprog"
  | UFork "int \<Rightarrow> uprog"
  | UWait uprog
  | UChdir "byte list" "int \<Rightarrow> uprog"

text \<open>\<open>UStop\<close> marks the place where a bound on a loop of the model is used up; what happens there is taken to be anything. Messages go to descriptor 2.\<close>

definition sh_panic :: "string \<Rightarrow> uprog" where
  "sh_panic s = UPrint (str s @ [10]) UExit"

definition fork1 :: "(int \<Rightarrow> uprog) \<Rightarrow> uprog" where
  "fork1 k = UFork (\<lambda>pid. if pid = -1 then sh_panic ''fork'' else k pid)"

fun runcmd :: "byte list cmd \<Rightarrow> uprog" where
  "runcmd (ExecCmd []) = UExit"
| "runcmd (ExecCmd (a # as)) =
     UExec a (a # as)
    (UPrint (str ''exec '' @ a @ str '' failed'' @ [10])
     UExit)"
| "runcmd (RedirCmd c f mode fd) =
     UClose fd
    (UOpen f mode (\<lambda>r.
       if r < 0 then UPrint (str ''open '' @ f @ str '' failed'' @ [10]) UExit
       else runcmd c))"
| "runcmd (ListCmd c d) =
     fork1 (\<lambda>pid.
       if pid = 0 then runcmd c
       else UWait (runcmd d))"
| "runcmd (PipeCmd c d) =
     UPipe (\<lambda>r p0 p1.
       if r < 0 then sh_panic ''pipe''
       else
         fork1 (\<lambda>pid.
           if pid = 0 then UClose 1 (UDup p1 (UClose p0 (UClose p1 (runcmd c))))
           else
             fork1 (\<lambda>pid.
               if pid = 0 then UClose 0 (UDup p0 (UClose p0 (UClose p1 (runcmd d))))
               else UClose p0 (UClose p1 (UWait (UWait UExit))))))"
| "runcmd (BackCmd c) =
     fork1 (\<lambda>pid.
       if pid = 0 then runcmd c
       else UExit)"

text \<open>
  \<open>getcmd\<close>: the line in the buffer before its terminator, and the input after it; None at the end of the input. The rest of the buffer
  is zero.
\<close>

definition SHBUF :: nat where "SHBUF = 100"

definition getcmd :: "byte list \<Rightarrow> (byte list \<times> byte list) option" where
  "getcmd inp =
     (case gets SHBUF inp of (buf, inp') \<Rightarrow>
        if ch buf 0 = 0 then None else Some (takeWhile (\<lambda>c. c \<noteq> 0) buf, inp'))"

text \<open>What the child runs.\<close>

definition run_line :: "byte list \<Rightarrow> uprog" where
  "run_line buf =
     (case parsecmd buf of
        None \<Rightarrow> UStop
      | Some (Inl msg) \<Rightarrow> UPrint msg UExit
      | Some (Inr (c, buf')) \<Rightarrow> runcmd (map_cmd (\<lambda>(q, e). cstring buf' q) c))"

definition is_cd :: "byte list \<Rightarrow> bool" where
  "is_cd buf \<longleftrightarrow> ch buf 0 = of_char CHR ''c'' \<and> ch buf 1 = of_char CHR ''d'' \<and> ch buf 2 = of_char CHR '' ''"

lemma gets_loop_length: "gets_loop buf k inp = (buf', inp') \<Longrightarrow> length buf' + length inp' = length buf + length inp"
  by (induction buf k inp rule: gets_loop.induct) (auto split: if_splits)

lemma getcmd_length: "getcmd inp = Some (buf, inp') \<Longrightarrow> length inp' < length inp"
proof -
  assume g: "getcmd inp = Some (buf, inp')"
  obtain buf' where b: "gets SHBUF inp = (buf', inp')" "ch buf' 0 \<noteq> 0"
    using g by (auto simp: getcmd_def split: prod.splits if_splits)
  then have "length buf' + length inp' = length inp" using gets_loop_length [of "[]" "SHBUF - 1" inp buf' inp'] by (simp add: gets_def)
  then show ?thesis using ch_in [OF b(2)] by linarith
qed

text \<open>The loop of \<open>main\<close> over commands; \<open>cd\<close> cuts off the last character and is run by the shell itself.\<close>

function sh_loop :: "byte list \<Rightarrow> uprog" where
  "sh_loop inp =
     UPrint (str ''$ '')
       (case getcmd inp of
          None \<Rightarrow> UExit
        | Some (buf, inp') \<Rightarrow>
            if is_cd buf then
              (let dir = drop 3 (butlast buf)
               in UChdir dir (\<lambda>r.
                    if r < 0 then UPrint (str ''cannot cd '' @ dir @ [10]) (sh_loop inp')
                    else sh_loop inp'))
            else
              fork1 (\<lambda>pid.
                if pid = 0 then run_line buf
                else UWait (sh_loop inp')))"
  by pat_completeness auto
termination by (relation "measure length") (auto simp: getcmd_length)

declare sh_loop.simps [simp del]

text \<open>The loop that makes sure that three descriptors are open; \<open>n\<close> bounds its rounds.\<close>

fun open_console :: "nat \<Rightarrow> uprog \<Rightarrow> uprog" where
  "open_console 0 k = UStop"
| "open_console (Suc n) k =
     UOpen (str ''console'') O_RDWR (\<lambda>fd.
       if fd \<ge> 0 then
         (if fd \<ge> 3 then UClose (nat fd) k else open_console n k)
       else k)"

definition sh_main :: "byte list \<Rightarrow> uprog" where
  "sh_main inp = open_console 4 (sh_loop inp)"

section \<open>What a program launches\<close>

text \<open>
  A process is named by the path of its births. An open file is one the shell was given, the end of a pipe, named by the process that made it and how many it had made
  before, or a file opened under a name.
\<close>

datatype ofile = Given nat | PipeRead "nat list" nat | PipeWrite "nat list" nat | Opened "byte list" "32 word"

record uproc =
  ufds :: "ofile option list"
  upath :: "nat list"
  uborn :: nat
  upipes :: nat

fun lowest :: "'a option list \<Rightarrow> nat option" where
  "lowest [] = None"
| "lowest (None # fds) = Some 0"
| "lowest (Some _ # fds) = map_option Suc (lowest fds)"

type_synonym launch = "byte list \<times> byte list list \<times> ofile option list"

definition fd_open :: "ofile \<Rightarrow> uproc \<Rightarrow> (nat \<times> uproc) option" where
  "fd_open x p = map_option (\<lambda>d. (d, p\<lparr>ufds := (ufds p)[d := Some x]\<rparr>)) (lowest (ufds p))"

definition fd_close :: "nat \<Rightarrow> uproc \<Rightarrow> uproc" where
  "fd_close d p = p\<lparr>ufds := (ufds p)[d := None]\<rparr>"

definition fd_dup :: "nat \<Rightarrow> uproc \<Rightarrow> uproc" where
  "fd_dup d p =
     (if d < length (ufds p) then
        (case ufds p ! d of
           None \<Rightarrow> p
         | Some x \<Rightarrow> (case fd_open x p of None \<Rightarrow> p | Some (_, p) \<Rightarrow> p))
      else p)"

text \<open>A pipe takes two descriptors; when there is only one, none is taken.\<close>

definition fd_pipe :: "uproc \<Rightarrow> (nat \<times> nat \<times> uproc) option" where
  "fd_pipe p =
     (case fd_open (PipeRead (upath p) (upipes p)) p of
        None \<Rightarrow> None
      | Some (d0, p') \<Rightarrow>
          (case fd_open (PipeWrite (upath p) (upipes p)) p' of
             None \<Rightarrow> None
           | Some (d1, p'') \<Rightarrow> Some (d0, d1, p''\<lparr>upipes := upipes p + 1\<rparr>)))"

definition child_of :: "uproc \<Rightarrow> uproc" where
  "child_of p = p\<lparr>upath := upath p @ [uborn p], uborn := 0, upipes := 0\<rparr>"

definition parent_of :: "uproc \<Rightarrow> uproc" where
  "parent_of p = p\<lparr>uborn := uborn p + 1\<rparr>"

primrec launches :: "uprog \<Rightarrow> uproc \<Rightarrow> launch set" where
  "launches UExit = (\<lambda>p. {})"
| "launches UStop = (\<lambda>p. UNIV)"
| "launches (UPrint t k) = (\<lambda>p. launches k p)"
| "launches (UExec f as k) = (\<lambda>p. {(f, as, ufds p)} \<union> launches k p)"
| "launches (UOpen f mode k) = (\<lambda>p. launches (k (-1)) p \<union> (case fd_open (Opened f mode) p of None \<Rightarrow> {} | Some (d, p) \<Rightarrow> launches (k (int d)) p))"
| "launches (UClose d k) = (\<lambda>p. launches k (fd_close d p))"
| "launches (UDup d k) = (\<lambda>p. launches k (fd_dup d p))"
| "launches (UPipe k) = (\<lambda>p. (\<Union>d0 d1. launches (k (-1) d0 d1) p) \<union> (case fd_pipe p of None \<Rightarrow> {} | Some (d0, d1, p) \<Rightarrow> launches (k 0 d0 d1) p))"
| "launches (UFork k) = (\<lambda>p. launches (k (-1)) p \<union> launches (k 0) (child_of p) \<union> (\<Union>pid\<in>{0<..}. launches (k pid) (parent_of p)))"
| "launches (UWait k) = (\<lambda>p. launches k p)"
| "launches (UChdir f k) = (\<lambda>p. launches (k 0) p \<union> launches (k (-1)) p)"

text \<open>
  What a command means: each of its programs, with its standard input, output and error. \<open>w\<close> and \<open>n\<close> name the process that runs the command and
  count its children.
\<close>

type_synonym wires = "ofile \<times> ofile \<times> ofile"

fun meant :: "byte list cmd \<Rightarrow> nat list \<Rightarrow> nat \<Rightarrow> wires \<Rightarrow> (byte list \<times> byte list list \<times> wires) set" where
  "meant (ExecCmd []) w n x = {}"
| "meant (ExecCmd (a # as)) w n x = {(a, a # as, x)}"
| "meant (RedirCmd c f mode fd) w n (i, out, e) =
     (if fd = 0 then meant c w n (Opened f mode, out, e) else meant c w n (i, Opened f mode, e))"
| "meant (ListCmd c d) w n x = meant c (w @ [n]) 0 x \<union> meant d w (n + 1) x"
| "meant (PipeCmd c d) w n (i, out, e) =
     meant c (w @ [n]) 0 (i, PipeWrite w 0, e) \<union> meant d (w @ [n + 1]) 0 (PipeRead w 0, out, e)"
| "meant (BackCmd c) w n x = meant c (w @ [n]) 0 x"

text \<open>A table with the three descriptors open and no other.\<close>

definition table :: "wires \<Rightarrow> ofile option list" where
  "table = (\<lambda>(i, out, e). [Some i, Some out, Some e] @ replicate (NOFILE - 3) None)"

fun redirs_std :: "'s cmd \<Rightarrow> bool" where
  "redirs_std (ExecCmd as) = True"
| "redirs_std (RedirCmd c f mode fd) = (redirs_std c \<and> fd \<le> 1)"
| "redirs_std (ListCmd c d) = (redirs_std c \<and> redirs_std d)"
| "redirs_std (PipeCmd c d) = (redirs_std c \<and> redirs_std d)"
| "redirs_std (BackCmd c) = redirs_std c"

definition wired :: "(byte list \<times> byte list list \<times> wires) set \<Rightarrow> launch set" where
  "wired = image (\<lambda>(f, as, x). (f, as, table x))"

lemma wired_simps [simp]: "wired {} = {}" "wired (A \<union> B) = wired A \<union> wired B" "wired {(f, as, x)} = {(f, as, table x)}"
  by (simp_all add: wired_def image_Un)

lemma launches_panic [simp]: "launches (sh_panic s) p = {}"
  by (simp add: sh_panic_def)

lemma launches_fork1 [simp]:
  "launches (fork1 (\<lambda>pid. if pid = 0 then c else d)) p = launches c (child_of p) \<union> launches d (parent_of p)"
proof -
  have "{(0::int)<..} \<noteq> {}" by (simp add: ex_in_conv [symmetric] gt_ex)
  moreover have "(\<Union>pid\<in>{(0::int)<..}. launches (if pid = -1 then sh_panic ''fork'' else if pid = 0 then c else d) (parent_of p)) =
      (\<Union>pid\<in>{(0::int)<..}. launches d (parent_of p))"
    by (rule SUP_cong) auto
  ultimately show ?thesis by (simp add: fork1_def)
qed

abbreviation proc_of :: "wires \<Rightarrow> nat list \<Rightarrow> nat \<Rightarrow> uproc" where
  "proc_of x w n \<equiv> \<lparr>ufds = table x, upath = w, uborn = n, upipes = 0\<rparr>"

lemma fd_redirect:
  "fd_open f (fd_close 0 (proc_of (i, out, e) w n)) = Some (0, proc_of (f, out, e) w n)"
  "fd_open f (fd_close (Suc 0) (proc_of (i, out, e) w n)) = Some (Suc 0, proc_of (i, f, e) w n)"
  by (simp_all add: table_def fd_open_def fd_close_def)

text \<open>The descriptor tables around a pipe.\<close>

definition piped :: "wires \<Rightarrow> nat list \<Rightarrow> nat \<Rightarrow> uproc" where
  "piped x w n = \<lparr>ufds = (table x)[3 := Some (PipeRead w 0), 4 := Some (PipeWrite w 0)], upath = w, uborn = n, upipes = 1\<rparr>"

lemma fd_piped:
  "fd_pipe (proc_of x w n) = Some (3, 4, piped x w n)"
  "parent_of (piped x w n) = piped x w (Suc n)"
  by (cases x; simp add: fd_pipe_def fd_open_def table_def NOFILE_def numeral_eq_Suc piped_def parent_of_def)+

lemma fd_left: "fd_close 4 (fd_close 3 (fd_dup 4 (fd_close (Suc 0) (child_of (piped (i, out, e) w n))))) = proc_of (i, PipeWrite w 0, e) (w @ [n]) 0"
  by (simp add: fd_close_def fd_dup_def fd_open_def table_def NOFILE_def numeral_eq_Suc piped_def child_of_def)

lemma fd_right: "fd_close 4 (fd_close 3 (fd_dup 3 (fd_close 0 (child_of (piped (i, out, e) w n))))) = proc_of (PipeRead w 0, out, e) (w @ [n]) 0"
  by (simp add: fd_close_def fd_dup_def fd_open_def table_def NOFILE_def numeral_eq_Suc piped_def child_of_def)

lemma fd_family: "child_of (proc_of x w n) = proc_of x (w @ [n]) 0" "parent_of (proc_of x w n) = proc_of x w (Suc n)"
  by (simp_all add: child_of_def parent_of_def)

lemma runcmd_launches: "redirs_std c \<Longrightarrow> launches (runcmd c) (proc_of x w n) = wired (meant c w n x)"
proof (induction c arbitrary: x w n)
  case (ExecCmd as)
  then show ?case by (cases as) simp_all
next
  case (RedirCmd c f mode fd)
  obtain i out e where x: "x = (i, out, e)" by (cases x)
  have "fd = 0 \<or> fd = Suc 0" using RedirCmd.prems by auto
  then show ?case using RedirCmd by (auto simp: x fd_redirect)
next
  case (PipeCmd c d)
  obtain i out e where x: "x = (i, out, e)" by (cases x)
  show ?case using PipeCmd by (simp add: x fd_piped fd_left fd_right)
qed (simp_all add: fd_family)

section \<open>A session\<close>

lemma gets_line:
  "\<forall>x\<in>set l. x \<noteq> 10 \<and> x \<noteq> 13 \<Longrightarrow> length l < k \<Longrightarrow> gets_loop buf k (l @ 10 # rest) = (buf @ l @ [10], rest)"
proof (induction l arbitrary: buf k)
  case Nil
  then show ?case by (cases k) simp_all
next
  case (Cons a l)
  then show ?case by (cases k) simp_all
qed

lemma getcmd_line:
  assumes "\<forall>x\<in>set l. x \<noteq> 0 \<and> x \<noteq> 10 \<and> x \<noteq> 13" "length l < SHBUF - 1"
  shows "getcmd (l @ 10 # rest) = Some (l @ [10], rest)"
proof -
  have "ch (l @ [10]) 0 \<noteq> 0" using assms(1) by (cases l) (auto simp: ch_def)
  then show ?thesis using assms gets_line [of l "SHBUF - 1" "[]" rest] by (simp add: getcmd_def gets_def)
qed

lemma word_plain: "word_ok w \<Longrightarrow> x \<in> set w \<Longrightarrow> x \<noteq> 10 \<and> x \<noteq> 13 \<and> x \<noteq> 0"
  by (auto simp: word_ok_def plain_def whitespace_def)

lemma spell_line: "spellable c \<Longrightarrow> x \<in> set (spell c) \<Longrightarrow> x \<noteq> 0 \<and> x \<noteq> 10 \<and> x \<noteq> 13"
proof (induction c)
  case (RedirCmd c f mode fd)
  then show ?case by (auto simp: parens_def spell_redir_def str_def redir_ok_def dest: word_plain split: if_splits)
qed (auto simp: parens_def spell_words_def str_def dest: word_plain split: if_splits)

lemma spellable_redirs: "spellable c \<Longrightarrow> redirs_std c"
  by (induction c) (auto simp: redir_ok_def)

text \<open>A command that is typed as one line, and not taken for a change of directory.\<close>

definition typed :: "byte list cmd \<Rightarrow> bool" where
  "typed c \<longleftrightarrow> spellable c \<and> length (spell c) < SHBUF - 1 \<and> \<not> is_cd (spell c)"

lemma is_cd_line: "is_cd (l @ [10]) \<longleftrightarrow> is_cd l"
proof -
  consider "l = []" | a where "l = [a]" | a b where "l = [a, b]" | a b d l' where "l = a # b # d # l'" by (metis list.exhaust)
  then show ?thesis by cases (simp_all add: is_cd_def ch_def)
qed

lemma run_line_spell: "spellable c \<Longrightarrow> run_line (spell c @ [10]) = runcmd c"
  using parse_line [of c] by (auto simp: run_line_def)

lemma sh_loop_line:
  assumes "typed c"
  shows "launches (sh_loop (spell c @ 10 # rest)) (proc_of x w n) =
    wired (meant c (w @ [n]) 0 x) \<union> launches (sh_loop rest) (proc_of x w (Suc n))"
proof -
  have c: "spellable c" and g: "getcmd (spell c @ 10 # rest) = Some (spell c @ [10], rest)"
    using assms spell_line [of c] getcmd_line by (auto simp: typed_def)
  then have "sh_loop (spell c @ 10 # rest) =
      UPrint (str ''$ '') (fork1 (\<lambda>pid. if pid = 0 then runcmd c else UWait (sh_loop rest)))"
    unfolding run_line_spell [OF c, symmetric] using assms by (subst sh_loop.simps) (simp add: is_cd_line typed_def)
  then show ?thesis by (simp add: fd_family runcmd_launches [OF spellable_redirs [OF c]])
qed

lemma sh_loop_lines:
  "\<forall>c\<in>set cs. typed c \<Longrightarrow> launches (sh_loop (concat (map (\<lambda>c. spell c @ [10]) cs))) (proc_of x w n) =
     (\<Union>k<length cs. wired (meant (cs ! k) (w @ [n + k]) 0 x))"
proof (induction cs arbitrary: n)
  case Nil
  have "getcmd [] = None" by (simp add: getcmd_def gets_def SHBUF_def ch_def numeral_eq_Suc)
  then show ?case by (simp add: sh_loop.simps [of "[]"])
next
  case (Cons c cs)
  then show ?case by (simp add: sh_loop_line lessThan_Suc_eq_insert_0 image_image)
qed

lemma open_console_std: "launches (open_console 4 k) (proc_of x w n) = launches k (proc_of x w n)"
proof -
  have "fd_open f (proc_of x w n) = Some (3, (proc_of x w n)\<lparr>ufds := (table x)[3 := Some f]\<rparr>)" for f
    by (cases x) (simp add: fd_open_def table_def NOFILE_def numeral_eq_Suc)
  moreover have "fd_close 3 ((proc_of x w n)\<lparr>ufds := (table x)[3 := Some f]\<rparr>) = proc_of x w n" for f
    by (cases x) (simp add: fd_close_def table_def NOFILE_def numeral_eq_Suc)
  ultimately show ?thesis by (simp add: numeral_eq_Suc)
qed



end
