(* ===== verification/Umalloc.thy ===== *)
theory Umalloc
  imports Prelude
begin

text \<open>
  The memory allocator of user programs, \<open>umalloc.c\<close>. A block is a header of 8 bytes (\<open>ptr\<close> and \<open>size\<close>, which counts the
  block in units of headers) and the space behind it; the free blocks form a circular list ordered by address, through \<open>base\<close>.
  The memory of the headers is two maps from addresses to their fields: headers at distinct multiples of 8 bytes are distinct
  words of memory, and the invariant keeps the blocks apart. The system call \<open>sbrk\<close> returns the old end of the process and
  moves it, or returns -1; whether the kernel grants the request is the argument \<open>ok\<close>.
\<close>

section \<open>Definitions\<close>

record uheap =
  hd_ptr :: "32 word \<Rightarrow> 32 word"
  hd_size :: "32 word \<Rightarrow> 32 word"
  freep :: "32 word"
  brk :: "32 word"

definition HDR :: "32 word" where "HDR = 8"

type_synonym grant = "32 word \<Rightarrow> 32 word \<Rightarrow> bool"

definition sbrk :: "grant \<Rightarrow> 32 word \<Rightarrow> uheap \<Rightarrow> 32 word \<times> uheap" where
  "sbrk ok n h = (if ok (brk h) n then (brk h, h\<lparr>brk := brk h + n\<rparr>) else (-1, h))"

text \<open>The loop of \<open>free\<close>: the free block after which \<open>bp\<close> belongs.\<close>

partial_function (option) free_place :: "uheap \<Rightarrow> 32 word \<Rightarrow> 32 word \<Rightarrow> 32 word option" where
  "free_place h bp p =
     (if bp > p \<and> bp < hd_ptr h p then Some p
      else if p \<ge> hd_ptr h p \<and> (bp > p \<or> bp < hd_ptr h p) then Some p
      else free_place h bp (hd_ptr h p))"

definition join_next :: "32 word \<Rightarrow> 32 word \<Rightarrow> uheap \<Rightarrow> uheap" where
  "join_next bp p h =
     (let q = hd_ptr h p in
      if bp + hd_size h bp * HDR = q
      then h\<lparr>hd_size := (hd_size h)(bp := hd_size h bp + hd_size h q), hd_ptr := (hd_ptr h)(bp := hd_ptr h q)\<rparr>
      else h\<lparr>hd_ptr := (hd_ptr h)(bp := q)\<rparr>)"

definition join_prev :: "32 word \<Rightarrow> 32 word \<Rightarrow> uheap \<Rightarrow> uheap" where
  "join_prev bp p h =
     (if p + hd_size h p * HDR = bp
      then h\<lparr>hd_size := (hd_size h)(p := hd_size h p + hd_size h bp), hd_ptr := (hd_ptr h)(p := hd_ptr h bp)\<rparr>
      else h\<lparr>hd_ptr := (hd_ptr h)(p := bp)\<rparr>)"

definition free :: "32 word \<Rightarrow> uheap \<Rightarrow> uheap option" where
  "free ap h =
     (let bp = ap - HDR in
      Option.bind (free_place h bp (freep h)) (\<lambda>p.
      Some ((join_prev bp p (join_next bp p h))\<lparr>freep := p\<rparr>)))"

definition morecore :: "grant \<Rightarrow> 32 word \<Rightarrow> uheap \<Rightarrow> (32 word \<times> uheap) option" where
  "morecore ok nu h =
     (let nu = (if nu < 4096 then 4096 else nu);
          (p, h) = sbrk ok (nu * HDR) h in
      if p = -1 then Some (0, h)
      else
        Option.bind (free (p + HDR) (h\<lparr>hd_size := (hd_size h)(p := nu)\<rparr>)) (\<lambda>h. Some (freep h, h)))"

text \<open>The block \<open>p\<close> serves the request: the whole of it, or its tail.\<close>

definition carve :: "32 word \<Rightarrow> 32 word \<Rightarrow> 32 word \<Rightarrow> uheap \<Rightarrow> 32 word \<times> uheap" where
  "carve nunits prevp p h =
     (if hd_size h p = nunits then (p + HDR, h\<lparr>hd_ptr := (hd_ptr h)(prevp := hd_ptr h p), freep := prevp\<rparr>)
      else
        let sz = hd_size h p - nunits; q = p + sz * HDR in
        (q + HDR, h\<lparr>hd_size := (hd_size h)(p := sz, q := nunits), freep := prevp\<rparr>))"

partial_function (option) malloc_loop :: "grant \<Rightarrow> 32 word \<Rightarrow> uheap \<Rightarrow> 32 word \<Rightarrow> 32 word \<Rightarrow> (32 word \<times> uheap) option" where
  "malloc_loop ok nunits h prevp p =
     (if hd_size h p \<ge> nunits then Some (carve nunits prevp p h)
      else if p = freep h then
        Option.bind (morecore ok nunits h) (\<lambda>(p, h).
        if p = 0 then Some (0, h) else malloc_loop ok nunits h p (hd_ptr h p))
      else malloc_loop ok nunits h p (hd_ptr h p))"

definition units :: "32 word \<Rightarrow> 32 word" where
  "units nbytes = (nbytes + HDR - 1) div HDR + 1"

definition malloc :: "grant \<Rightarrow> 32 word \<Rightarrow> 32 word \<Rightarrow> uheap \<Rightarrow> (32 word \<times> uheap) option" where
  "malloc ok base nbytes h =
     (let nunits = units nbytes;
          h = (if freep h = 0
               then h\<lparr>hd_ptr := (hd_ptr h)(base := base), hd_size := (hd_size h)(base := 0), freep := base\<rparr> else h) in
      malloc_loop ok nunits h (freep h) (hd_ptr h (freep h)))"

section \<open>The free list\<close>

text \<open>
  The blocks, as addresses and sizes in units, in the order of their addresses; the first one is \<open>base\<close>. \<open>chain h z bs\<close>: the headers
  of \<open>bs\<close> are linked in this order and the last one points to \<open>z\<close>.
\<close>

type_synonym blocks = "(nat \<times> nat) list"

abbreviation adr :: "nat \<Rightarrow> 32 word" where "adr \<equiv> of_nat"

definition succ_of :: "nat \<Rightarrow> blocks \<Rightarrow> nat" where
  "succ_of z bs = (case bs of [] \<Rightarrow> z | b # _ \<Rightarrow> fst b)"

fun chain :: "uheap \<Rightarrow> nat \<Rightarrow> blocks \<Rightarrow> bool" where
  "chain h z [] = True"
| "chain h z ((a, n) # bs) = (hd_ptr h (adr a) = adr (succ_of z bs) \<and> hd_size h (adr a) = adr n \<and> chain h z bs)"

text \<open>Blocks are in order and do not touch; \<open>base\<close> has size 0 and is not followed at once by a block.\<close>

fun apart :: "nat \<Rightarrow> blocks \<Rightarrow> bool" where
  "apart e [] = (e \<le> 0x80000000)"
| "apart e ((a, n) # bs) = (e < a \<and> 0 < n \<and> apart (a + 8 * n) bs)"

definition blocks_ok :: "nat \<Rightarrow> blocks \<Rightarrow> bool" where
  "blocks_ok base bs \<longleftrightarrow> 0 < base \<and> (\<exists>cs. bs = (base, 0) # cs \<and> apart (base + 7) cs)"

definition ring :: "nat \<Rightarrow> uheap \<Rightarrow> blocks \<Rightarrow> bool" where
  "ring base h bs \<longleftrightarrow> blocks_ok base bs \<and> chain h base bs \<and> (\<exists>a\<in>fst ` set bs. freep h = adr a)"

definition space :: "blocks \<Rightarrow> nat set" where
  "space bs = (\<Union>(a, n)\<in>set bs. {a..<a + 8 * n})"

lemma succ_of_simps [simp]: "succ_of z [] = z" "succ_of z (b # bs) = fst b" "succ_of z (xs @ ys) = succ_of (succ_of z ys) xs"
  by (simp_all add: succ_of_def split: list.split)

lemma chain_append [simp]: "chain h z (xs @ ys) \<longleftrightarrow> chain h (succ_of z ys) xs \<and> chain h z ys"
  by (induction xs rule: chain.induct [of _ h z]) auto

lemma chain_frame:
  "(\<And>a. a \<in> fst ` set bs \<Longrightarrow> hd_ptr h' (adr a) = hd_ptr h (adr a) \<and> hd_size h' (adr a) = hd_size h (adr a)) \<Longrightarrow> chain h' z bs = chain h z bs"
  by (induction h z bs rule: chain.induct) auto

lemma apart_le: "apart e bs \<Longrightarrow> e \<le> 0x80000000"
  by (induction e bs rule: apart.induct) auto

lemma apart_mem: "apart e bs \<Longrightarrow> (a, n) \<in> set bs \<Longrightarrow> e < a \<and> 0 < n \<and> a + 8 * n \<le> 0x80000000"
  by (induction e bs rule: apart.induct) (auto dest: apart_le)

lemma apart_append: "apart e (xs @ ys) \<longleftrightarrow> (\<exists>f. apart f ys \<and> (if xs = [] then f = e else apart e xs \<and> f = fst (last xs) + 8 * snd (last xs)))"
  by (induction e xs rule: apart.induct) (auto split: if_splits dest: apart_le)

lemma unat_adr: "a \<le> 0x80000000 \<Longrightarrow> unat (adr a) = a"
  by (simp add: unat_of_nat)

lemma adr_iff:
  assumes "a \<le> 0x80000000" "b \<le> 0x80000000"
  shows "adr a = adr b \<longleftrightarrow> a = b" "adr a < adr b \<longleftrightarrow> a < b" "adr a \<le> adr b \<longleftrightarrow> a \<le> b"
  using unat_adr [OF assms(1)] unat_adr [OF assms(2)] unfolding word_less_nat_alt word_le_nat_alt by (metis, simp_all)

lemma blocks_mem:
  assumes "blocks_ok base bs" "(a, n) \<in> set bs"
  shows "base \<le> a" "a + 8 * n \<le> 0x80000000" "a = base \<longleftrightarrow> n = 0"
proof -
  obtain cs where cs: "bs = (base, 0) # cs" "apart (base + 7) cs" using assms(1) by (auto simp: blocks_ok_def)
  have "base + 7 \<le> 0x80000000" by (rule apart_le [OF cs(2)])
  then show "base \<le> a" "a + 8 * n \<le> 0x80000000" "a = base \<longleftrightarrow> n = 0"
    using apart_mem [OF cs(2), of a n] assms(2) cs(1) by auto
qed

lemma sorted_blocks: "apart e bs \<Longrightarrow> sorted_wrt (\<lambda>x y. fst x + 8 * snd x < fst y) bs"
  by (induction e bs rule: apart.induct) (auto dest: apart_mem)

lemma blocks_sorted:
  assumes "blocks_ok base bs"
  shows "sorted_wrt (\<lambda>x y. fst x + 8 * snd x < fst y) bs" "distinct (map fst bs)"
proof -
  show s: "sorted_wrt (\<lambda>x y. fst x + 8 * snd x < fst y) bs"
    using assms by (force simp: blocks_ok_def sorted_blocks dest: apart_mem)
  then have "sorted_wrt (<) (map fst bs)" by (simp add: sorted_wrt_map) (erule sorted_wrt_mono_rel [rotated], simp)
  then show "distinct (map fst bs)" by (simp add: strict_sorted_iff)
qed

text \<open>The place of a new address among the blocks.\<close>

lemma blocks_place:
  assumes "blocks_ok base bs" "base < b" "b \<notin> fst ` set bs"
  obtains xs a n ys where "bs = xs @ (a, n) # ys" "a < b" "\<forall>y\<in>set ys. b < fst y"
proof -
  define xs where "xs = takeWhile (\<lambda>x. fst x < b) bs"
  define ys where "ys = dropWhile (\<lambda>x. fst x < b) bs"
  have bs: "bs = xs @ ys" by (simp add: xs_def ys_def)
  have ne: "xs \<noteq> []" using assms(1,2) by (auto simp: xs_def blocks_ok_def)
  have "b < fst y" if "y \<in> set ys" for y
  proof (cases ys)
    case (Cons z zs)
    then have "\<not> fst z < b" using hd_dropWhile [of "\<lambda>x. fst x < b" bs] by (simp add: ys_def)
    moreover have "fst z \<noteq> b" using assms(3) bs Cons by auto
    moreover have "y = z \<or> fst z + 8 * snd z < fst y"
      using blocks_sorted(1) [OF assms(1)] that unfolding bs Cons by (auto simp: sorted_wrt_append)
    ultimately show ?thesis by auto
  qed (use that in simp)
  moreover have "bs = butlast xs @ (fst (last xs), snd (last xs)) # ys"
    using ne bs by (simp flip: append_assoc)
  moreover have "fst (last xs) < b" using last_in_set [OF ne] set_takeWhileD unfolding xs_def by fast
  ultimately show thesis using that by blast
qed

lemma place_step:
  assumes ok: "blocks_ok base bs" and ch: "chain h base bs" and bs: "bs = us @ (c, m) # vs"
    and b: "base < b" "b \<le> 0x80000000" "b \<noteq> c" and out: "vs \<noteq> [] \<Longrightarrow> \<not> (c < b \<and> b < fst (hd vs))" "vs = [] \<Longrightarrow> b < c"
  shows "free_place h (adr b) (adr c) = free_place h (adr b) (adr (succ_of base vs))"
proof -
  have nx: "hd_ptr h (adr c) = adr (succ_of base vs)" using ch bs by simp
  have c: "base \<le> c" "c \<le> 0x80000000" using blocks_mem [OF ok, of c m] bs by auto
  show ?thesis
  proof (cases vs)
    case Nil
    then have "hd_ptr h (adr c) = adr base" "b < c" using nx out by simp_all
    moreover have "\<not> adr c < adr b" "\<not> adr b < adr base"
      using adr_iff(2) [OF c(2) b(2)] adr_iff(2) [OF b(2), of base] b c \<open>b < c\<close> by simp_all
    ultimately show ?thesis using Nil by (subst free_place.simps) simp
  next
    case (Cons v ws)
    have v: "c < fst v" "fst v \<le> 0x80000000" "hd_ptr h (adr c) = adr (fst v)"
      using blocks_sorted(1) [OF ok] blocks_mem(2) [OF ok, of "fst v" "snd v"] nx bs Cons by (auto simp: sorted_wrt_append)
    have "\<not> (adr c < adr b \<and> adr b < adr (fst v))" "\<not> adr (fst v) \<le> adr c"
      using adr_iff(2) [OF c(2) b(2)] adr_iff(2) [OF b(2) v(2)] adr_iff(3) [OF v(2) c(2)] v(1) out(1) Cons by simp_all
    then show ?thesis using v(3) Cons by (subst free_place.simps) auto
  qed
qed

lemma place_here:
  assumes ok: "blocks_ok base bs" and ch: "chain h base bs" and bs: "bs = xs @ (a, n) # ys"
    and b: "b \<le> 0x80000000" "a < b" "\<forall>y\<in>set ys. b < fst y"
  shows "free_place h (adr b) (adr a) = Some (adr a)"
proof -
  have nx: "hd_ptr h (adr a) = adr (succ_of base ys)" using ch bs by simp
  have a: "base \<le> a" "a \<le> 0x80000000" using blocks_mem [OF ok, of a n] bs by auto
  show ?thesis
  proof (cases ys)
    case Nil
    then have "hd_ptr h (adr a) = adr base" "adr base \<le> adr a" "adr a < adr b"
      using nx adr_iff(2) [OF a(2) b(1)] adr_iff(3) [OF _ a(2), of base] a b by simp_all
    then show ?thesis by (subst free_place.simps) auto
  next
    case (Cons y zs)
    have "fst y \<le> 0x80000000" using blocks_mem(2) [OF ok, of "fst y" "snd y"] bs Cons by auto
    then have "hd_ptr h (adr a) = adr (fst y)" "adr a < adr b" "adr b < adr (fst y)"
      using nx adr_iff(2) [OF a(2) b(1)] adr_iff(2) [OF b(1), of "fst y"] b Cons by simp_all
    then show ?thesis by (subst free_place.simps) auto
  qed
qed

lemma free_place_finds:
  assumes ok: "blocks_ok base bs" and ch: "chain h base bs" and bs: "bs = xs @ (a, n) # ys"
    and b: "b \<le> 0x80000000" "a < b" "\<forall>y\<in>set ys. b < fst y" and p: "p \<in> fst ` set bs"
  shows "free_place h (adr b) (adr p) = Some (adr a)"
proof -
  have base: "base < b" using blocks_mem(1) [OF ok, of a n] bs b(2) by auto
  have sorted: "sorted_wrt (\<lambda>x y. fst x + 8 * snd x < fst y) bs" by (rule blocks_sorted(1) [OF ok])
  have up: "bs = us @ vs @ (a, n) # ys \<Longrightarrow> free_place h (adr b) (adr (succ_of a vs)) = Some (adr a)" for us vs
  proof (induction vs arbitrary: us)
    case Nil
    then show ?case using place_here [OF ok ch _ b] by simp
  next
    case (Cons v vs)
    have lt: "x \<in> set (v # vs) \<Longrightarrow> fst x < b" for x
      using sorted b(2) unfolding Cons.prems by (auto simp: sorted_wrt_append)
    have "free_place h (adr b) (adr (fst v)) = free_place h (adr b) (adr (succ_of base (vs @ (a, n) # ys)))"
      using lt [of v] lt [of "hd vs"] b(2)
      by (intro place_step [OF ok ch _ base b(1), where us = us and m = "snd v"]) (auto simp: Cons.prems hd_append)
    then show ?case using Cons.IH [of "us @ [v]"] Cons.prems by simp
  qed
  have wrap: "bs = us @ vs \<Longrightarrow> \<forall>y\<in>set vs. b < fst y \<Longrightarrow> free_place h (adr b) (adr (succ_of base vs)) = Some (adr a)" for us vs
  proof (induction vs arbitrary: us)
    case Nil
    obtain cs where cs: "bs = (base, 0) # cs" using ok by (auto simp: blocks_ok_def)
    then have "succ_of a xs = base" using bs by (cases xs) auto
    then show ?case using up [of "[]" xs] bs by simp
  next
    case (Cons v vs)
    have "free_place h (adr b) (adr (fst v)) = free_place h (adr b) (adr (succ_of base vs))"
      using Cons.prems(2) by (intro place_step [OF ok ch _ base b(1), where us = us and m = "snd v"]) (auto simp: Cons.prems(1))
    then show ?case using Cons.IH [of "us @ [v]"] Cons.prems by simp
  qed
  consider (low) us v vs where "xs = us @ v # vs" "fst v = p" | (here) "p = a" | (high) us v vs where "ys = us @ v # vs" "fst v = p"
    using p bs by (auto dest!: split_list)
  then show ?thesis
  proof cases
    case low
    then show ?thesis using up [of us "v # vs"] bs by simp
  next
    case here
    then show ?thesis using up [of xs "[]"] bs by simp
  next
    case high
    then show ?thesis using wrap [of "xs @ (a, n) # us" "v # vs"] bs b(3) by simp
  qed
qed

section \<open>Freeing a block\<close>

text \<open>The blocks after \<open>join_next\<close> and \<open>join_prev\<close>.\<close>

definition join_up :: "nat \<times> nat \<Rightarrow> blocks \<Rightarrow> blocks" where
  "join_up x ys = (case ys of y # zs \<Rightarrow> if fst x + 8 * snd x = fst y then (fst x, snd x + snd y) # zs else x # ys | [] \<Rightarrow> [x])"

lemma join_up_simps [simp]:
  "join_up x [] = [x]" "join_up x (y # zs) = (if fst x + 8 * snd x = fst y then (fst x, snd x + snd y) # zs else x # y # zs)"
  by (simp_all add: join_up_def)

text \<open>A new block \<open>(b, m)\<close> fits into the gap before \<open>ys\<close>.\<close>

definition fits :: "nat \<Rightarrow> nat \<Rightarrow> blocks \<Rightarrow> bool" where
  "fits b m ys \<longleftrightarrow> 0 < m \<and> b + 8 * m \<le> 0x80000000 \<and> (ys = [] \<or> b + 8 * m \<le> fst (hd ys))"

lemma apart_replace: "(\<And>e. apart e ys \<Longrightarrow> apart e zs) \<Longrightarrow> apart e (xs @ ys) \<Longrightarrow> apart e (xs @ zs)"
  by (induction e xs rule: apart.induct) auto

lemma apart_join:
  "apart e ys \<Longrightarrow> e < b \<Longrightarrow> fits b m ys \<Longrightarrow> apart e (join_up (b, m) ys)"
  "apart e ((a, n) # ys) \<Longrightarrow> a + 8 * n \<le> b \<Longrightarrow> fits b m ys \<Longrightarrow> apart e (join_up (a, n) (join_up (b, m) ys))"
  by (cases ys; auto simp: fits_def algebra_simps)+

lemma space_simps [simp]: "space [] = {}" "space ((a, n) # bs) = {a..<a + 8 * n} \<union> space bs" "space (xs @ ys) = space xs \<union> space ys"
  by (auto simp: space_def)

lemma space_join [simp]: "space (join_up (a, n) ys) = {a..<a + 8 * n} \<union> space ys"
  by (cases ys) (auto simp: space_def)

lemma fst_join: "fst ` set (join_up (b, m) ys) \<subseteq> insert b (fst ` set ys)" "join_up (b, m) ys = (b, snd (hd (join_up (b, m) ys))) # tl (join_up (b, m) ys)"
  by (cases ys; auto)+

lemma adr_end: "adr b + adr m * HDR = adr (b + 8 * m)"
  by (simp add: HDR_def mult.commute)

text \<open>Both halves of \<open>free\<close> link a block \<open>p\<close> to the block \<open>q\<close> behind it, merging the two if they touch.\<close>

definition link :: "32 word \<Rightarrow> 32 word \<Rightarrow> uheap \<Rightarrow> uheap" where
  "link p q h =
     (if p + hd_size h p * HDR = q
      then h\<lparr>hd_size := (hd_size h)(p := hd_size h p + hd_size h q), hd_ptr := (hd_ptr h)(p := hd_ptr h q)\<rparr>
      else h\<lparr>hd_ptr := (hd_ptr h)(p := q)\<rparr>)"

lemma join_link: "join_next bp p h = link bp (hd_ptr h p) h" "join_prev bp p h = link p bp h"
  by (simp_all add: join_next_def join_prev_def link_def Let_def)

lemma link_frame:
  "x \<noteq> p \<Longrightarrow> hd_ptr (link p q h) x = hd_ptr h x" "x \<noteq> p \<Longrightarrow> hd_size (link p q h) x = hd_size h x"
  "freep (link p q h) = freep h" "brk (link p q h) = brk h"
  by (simp_all add: link_def)

lemma link_chain:
  assumes ch: "chain h z ys" "hd_size h (adr b) = adr m" and b: "b + 8 * m \<le> 0x80000000" "b \<notin> fst ` set ys"
    and z: "z \<le> 0x80000000" "ys = [] \<Longrightarrow> b + 8 * m \<noteq> z" and ys: "\<And>a. a \<in> fst ` set ys \<Longrightarrow> a \<le> 0x80000000"
  shows "chain (link (adr b) (adr (succ_of z ys)) h) z (join_up (b, m) ys)"
proof -
  have b': "b \<le> 0x80000000" using b(1) by simp
  let ?h = "link (adr b) (adr (succ_of z ys)) h"
  have "a \<noteq> b \<Longrightarrow> adr a \<noteq> adr b" if "a \<in> fst ` set ys" for a using adr_iff(1) [OF ys [OF that] b'] by simp
  then have fr: "chain ?h z zs = chain h z zs" if "set zs \<subseteq> set ys" for zs
    using that b(2) by (intro chain_frame) (metis image_mono link_frame(1,2) subsetD)
  show ?thesis
  proof (cases ys)
    case Nil
    then show ?thesis using ch z b(1) adr_iff(1) [OF b(1) z(1)] by (simp add: link_def adr_end)
  next
    case (Cons y zs)
    have y: "fst y \<le> 0x80000000" "hd_size h (adr (fst y)) = adr (snd y)"
       "hd_ptr h (adr (fst y)) = adr (succ_of z zs)" "fst y \<noteq> b" "chain h z zs"
      using b(2) ys ch Cons by (cases y; auto)+
    have c: "chain ?h z zs" "chain ?h z ys" using fr [of zs] fr [of ys] Cons y(5) ch(1) by auto
    have eq: "adr (b + 8 * m) = adr (fst y) \<longleftrightarrow> b + 8 * m = fst y" by (rule adr_iff(1) [OF b(1) y(1)])
    have v: "hd_ptr ?h (adr b) = (if b + 8 * m = fst y then adr (succ_of z zs) else adr (fst y))"
      "hd_size ?h (adr b) = (if b + 8 * m = fst y then adr (m + snd y) else adr m)"
      using y Cons ch(2) eq by (simp_all add: link_def adr_end)
    show ?thesis using v c Cons by (cases y) simp
  qed
qed

text \<open>A block that may be freed: it carries its size, and lies above \<open>base\<close>, apart from the free blocks.\<close>

definition loose :: "nat \<Rightarrow> uheap \<Rightarrow> blocks \<Rightarrow> nat \<Rightarrow> nat \<Rightarrow> bool" where
  "loose base h bs b m \<longleftrightarrow> hd_size h (adr b) = adr m \<and> 0 < m \<and> base + 8 \<le> b \<and> b + 8 * m \<le> 0x80000000 \<and>
     {b..<b + 8 * m} \<inter> space bs = {}"

lemma in_space: "(a, n) \<in> set bs \<Longrightarrow> a \<le> x \<Longrightarrow> x < a + 8 * n \<Longrightarrow> x \<in> space bs"
  unfolding space_def by (rule UN_I [of "(a, n)"]) simp_all

lemma loose_gap:
  assumes ok: "blocks_ok base bs" and l: "loose base h bs b m"
  shows "b \<notin> fst ` set bs"
    "(a, n) \<in> set bs \<Longrightarrow> a < b \<Longrightarrow> a + 8 * n \<le> b"
    "(a, n) \<in> set bs \<Longrightarrow> b < a \<Longrightarrow> b + 8 * m \<le> a"
proof -
  have d: "x \<in> space bs \<Longrightarrow> \<not> (b \<le> x \<and> x < b + 8 * m)" for x using l by (auto simp: loose_def)
  have m: "0 < m" "base < b" using l by (simp_all add: loose_def)
  have sp: "(a, n) \<in> set bs \<Longrightarrow> a \<noteq> base \<Longrightarrow> a \<in> space bs" for a n
    using in_space [of a n bs a] blocks_mem(3) [OF ok, of a n] by simp
  show "b \<notin> fst ` set bs" using d [of b] sp m by auto
  show "(a, n) \<in> set bs \<Longrightarrow> a < b \<Longrightarrow> a + 8 * n \<le> b"
    using d [of b] in_space [of a n bs b] m(1) by force
  show "(a, n) \<in> set bs \<Longrightarrow> b < a \<Longrightarrow> b + 8 * m \<le> a"
    using d [of a] sp [of a n] m(2) by auto
qed

lemma blocks_insert:
  assumes ok: "blocks_ok base bs" and bs: "bs = xs @ (a, n) # ys" and l: "loose base h bs b m"
    and a: "a < b" "\<forall>y\<in>set ys. b < fst y"
  shows "blocks_ok base (xs @ join_up (a, n) (join_up (b, m) ys))"
proof -
  obtain cs where cs: "bs = (base, 0) # cs" "apart (base + 7) cs" "0 < base" using ok by (auto simp: blocks_ok_def)
  have f: "fits b m ys" unfolding fits_def
    using l loose_gap(3) [OF ok l, of "fst (hd ys)" "snd (hd ys)"] a(2) bs by (cases ys) (auto simp: loose_def)
  have n: "a + 8 * n \<le> b" using loose_gap(2) [OF ok l] a(1) bs by simp
  show ?thesis
  proof (cases xs)
    case Nil
    then have an: "a = base" "n = 0" "apart (base + 7) ys" using bs cs by auto
    have "join_up (base, 0) (join_up (b, m) ys) = (base, 0) # join_up (b, m) ys"
      using a(1) an(1) fst_join(2) [of b m ys] by (metis add_0_right fst_conv join_up_simps(2) mult_zero_right nat_neq_iff snd_conv)
    then show ?thesis using Nil an cs(3) apart_join(1) [OF an(3) _ f] l by (simp add: blocks_ok_def loose_def)
  next
    case (Cons x xs')
    then have x: "x = (base, 0)" "apart (base + 7) (xs' @ (a, n) # ys)" using bs cs by auto
    have "apart (base + 7) (xs' @ join_up (a, n) (join_up (b, m) ys))"
      by (rule apart_replace [OF _ x(2)]) (rule apart_join(2) [OF _ n f])
    then show ?thesis using Cons x(1) cs(3) by (simp add: blocks_ok_def)
  qed
qed

lemma join_big: "\<exists>(c, l)\<in>set (join_up (a, n) (join_up (b, m) ys)). m \<le> l"
  by (cases ys) (auto split: if_splits)

lemma fst_join2: "fst ` set (join_up (a, n) zs) \<subseteq> insert a (fst ` set zs)" "a \<in> fst ` set (join_up (a, n) zs)" "succ_of z (join_up (a, n) zs) = a"
  by (cases zs; auto)+

lemma free_ok:
  assumes r: "ring base h bs" and l: "loose base h bs b m"
  obtains h' bs' where "free (adr b + HDR) h = Some h'" "ring base h' bs'" "space bs' = space bs \<union> {b..<b + 8 * m}"
    "brk h' = brk h" "\<forall>x. x \<notin> adr ` insert b (fst ` set bs) \<longrightarrow> hd_size h' x = hd_size h x"
    "\<exists>(c, l)\<in>set bs'. m \<le> l"
proof -
  have ok: "blocks_ok base bs" and ch: "chain h base bs" using r by (simp_all add: ring_def)
  have b: "base < b" "b \<le> 0x80000000" "b + 8 * m \<le> 0x80000000" "hd_size h (adr b) = adr m" using l by (simp_all add: loose_def)
  obtain xs a n ys where bs: "bs = xs @ (a, n) # ys" and a: "a < b" "\<forall>y\<in>set ys. b < fst y"
    using blocks_place [OF ok b(1) loose_gap(1) [OF ok l]] by blast
  have le: "c \<in> fst ` set bs \<Longrightarrow> c \<le> 0x80000000 \<and> base \<le> c" for c using blocks_mem [OF ok] by fastforce
  have dist: "distinct (map fst bs)" by (rule blocks_sorted(2) [OF ok])
  let ?h1 = "join_next (adr b) (adr a) h" let ?Y = "join_up (b, m) ys"
  let ?h2 = "join_prev (adr b) (adr a) ?h1" let ?bs = "xs @ join_up (a, n) ?Y"
  have ne: "c \<in> fst ` set bs \<Longrightarrow> adr c \<noteq> adr b" for c using adr_iff(1) [OF _ b(2)] le loose_gap(1) [OF ok l] by metis
  have ptr: "hd_ptr h (adr a) = adr (succ_of base ys)" "hd_size h (adr a) = adr n" "chain h base ys" "chain h a xs" using ch bs by simp_all
  have "chain (link (adr b) (adr (succ_of base ys)) h) base ?Y"
    using ptr(3) b le bs loose_gap(1) [OF ok l] by (intro link_chain) auto
  then have h1: "chain ?h1 base ?Y" by (simp add: join_link ptr(1))
  have e: "succ_of base ?Y = b" "?Y \<noteq> []" by (cases ys; auto)+
  have an: "a + 8 * n \<le> 0x80000000" using blocks_mem(2) [OF ok, of a n] bs by simp
  have Y: "c \<in> fst ` set ?Y \<Longrightarrow> c = b \<or> c \<in> fst ` set ys" for c using fst_join(1) [of b m ys] by auto
  have "chain (link (adr a) (adr (succ_of base ?Y)) ?h1) base (join_up (a, n) ?Y)"
    using h1 an e Y le bs a(1) dist b(1,2) ne [of a] ptr(2) loose_gap(1) [OF ok l]
    by (intro link_chain) (auto simp: join_link link_frame)
  then have h2: "chain ?h2 base (join_up (a, n) ?Y)" by (simp add: join_link e(1))
  have "adr c \<noteq> adr a \<and> adr c \<noteq> adr b" if "c \<in> fst ` set xs" for c
  proof -
    have "c \<in> fst ` set bs" "c \<noteq> a" using that dist bs by auto
    then show ?thesis using ne [of c] adr_iff(1) [of c a] le [of c] le [of a] bs by simp
  qed
  then have xs: "chain ?h2 a xs" using ptr(4) by (subst chain_frame) (auto simp: join_link link_frame)
  obtain p where p: "p \<in> fst ` set bs" "freep h = adr p" using r by (auto simp: ring_def)
  have f: "free (adr b + HDR) h = Some (?h2\<lparr>freep := adr a\<rparr>)"
    using free_place_finds [OF ok ch bs b(2) a p(1)] p(2) by (simp add: free_def Let_def)
  have "chain (?h2\<lparr>freep := adr a\<rparr>) base ?bs"
    using h2 xs fst_join2(3) [of base a n ?Y] by (subst chain_frame [of _ _ ?h2]) simp_all
  then have ring: "ring base (?h2\<lparr>freep := adr a\<rparr>) ?bs"
    using blocks_insert [OF ok bs l a] fst_join2(2) [of a n ?Y] by (auto simp: ring_def)
  show thesis
  proof (rule that [OF f ring])
    show "space ?bs = space bs \<union> {b..<b + 8 * m}" using bs by auto
    show "brk (?h2\<lparr>freep := adr a\<rparr>) = brk h" by (simp add: join_link link_frame)
    show "\<forall>x. x \<notin> adr ` insert b (fst ` set bs) \<longrightarrow> hd_size (?h2\<lparr>freep := adr a\<rparr>) x = hd_size h x"
      using bs by (simp add: join_link link_frame)
    show "\<exists>(c, l)\<in>set ?bs. m \<le> l" using join_big [of a n b m ys] by auto
  qed
qed

section \<open>Serving a request\<close>

lemma apart_mono: "apart e bs \<Longrightarrow> e' \<le> e \<Longrightarrow> apart e' bs"
  by (cases bs) auto

lemma chain_pred:
  assumes ok: "blocks_ok base bs" and ch: "chain h base bs" and bs: "bs = xs @ (p, s) # ys" "p \<noteq> base"
    and prev: "prev \<in> fst ` set bs" "hd_ptr h (adr prev) = adr p"
  obtains us k where "xs = us @ [(prev, k)]"
proof -
  obtain us k vs where u: "bs = us @ (prev, k) # vs" using prev(1) by (auto dest: split_list)
  have le: "c \<in> fst ` set bs \<Longrightarrow> c \<le> 0x80000000" for c using blocks_mem(2) [OF ok] by fastforce
  have base: "base \<in> fst ` set bs" using ok by (auto simp: blocks_ok_def)
  have "adr (succ_of base vs) = adr p" using ch u prev(2) by simp
  moreover have "succ_of base vs \<in> fst ` set bs" using base u by (cases vs) auto
  ultimately have s: "succ_of base vs = p" using adr_iff(1) [OF le le] bs(1) by auto
  then obtain t ws where v: "vs = (p, t) # ws" using bs(2) by (cases vs) auto
  have d: "distinct (map fst bs)" by (rule blocks_sorted(2) [OF ok])
  have "map fst us @ prev # p # map fst ws = map fst bs" unfolding u v by simp
  also have "\<dots> = map fst xs @ p # map fst ys" unfolding bs(1) by simp
  finally have "map fst us @ prev # p # map fst ws = map fst xs @ p # map fst ys" .
  moreover have "p \<notin> set (map fst us @ [prev])" "p \<notin> set (map fst ws)" using d unfolding u v by auto
  moreover have "p \<notin> set (map fst xs)" using d unfolding bs(1) by auto
  ultimately have "map fst us @ [prev] = map fst xs"
    using append_Cons_eq_iff [of p "map fst us @ [prev]" "map fst ws" "map fst xs" "map fst ys"] by simp
  then have "length xs = Suc (length us)" by (metis length_append_singleton length_map)
  then have "take (length xs) bs = us @ [(prev, k)]" using u v by simp
  then show thesis using that bs(1) by simp
qed

definition heap_inv :: "nat \<Rightarrow> uheap \<Rightarrow> blocks \<Rightarrow> bool" where
  "heap_inv base h bs \<longleftrightarrow> ring base h bs \<and> base + 8 \<le> unat (brk h) \<and> unat (brk h) \<le> 0x80000000 \<and> space bs \<subseteq> {..<unat (brk h)}"

text \<open>A block in use.\<close>

definition held :: "nat \<Rightarrow> uheap \<Rightarrow> blocks \<Rightarrow> nat \<Rightarrow> nat \<Rightarrow> bool" where
  "held base h bs c l \<longleftrightarrow> loose base h bs c l \<and> c + 8 * l \<le> unat (brk h)"

lemma adr_sub: "n \<le> m \<Longrightarrow> adr m - adr n = adr (m - n)"
  by (simp add: of_nat_diff)

lemma space_apart:
  assumes "blocks_ok base (xs @ (p, s) # ys)" "0 < s"
  shows "x \<in> space (xs @ ys) \<Longrightarrow> x < p \<or> p + 8 * s < x" "(c, l) \<in> set (xs @ ys) \<Longrightarrow> c < p \<or> p + 8 * s < c"
proof -
  have s: "sorted_wrt (\<lambda>x y. fst x + 8 * snd x < fst y) (xs @ (p, s) # ys)" by (rule blocks_sorted(1) [OF assms(1)])
  then have b: "(a, n) \<in> set (xs @ ys) \<Longrightarrow> a + 8 * n < p \<or> p + 8 * s < a" for a n
    by (auto simp: sorted_wrt_append)
  then show "x \<in> space (xs @ ys) \<Longrightarrow> x < p \<or> p + 8 * s < x" by (fastforce simp: space_def)
  show "(c, l) \<in> set (xs @ ys) \<Longrightarrow> c < p \<or> p + 8 * s < c" using b [of c l] by auto
qed

lemma carve_cases:
  assumes "hd_size h (adr p) = adr s" "nu \<le> s" "s \<le> 0x80000000"
  shows "s = nu \<Longrightarrow> carve (adr nu) w (adr p) h = (adr (p + 8), h\<lparr>hd_ptr := (hd_ptr h)(w := hd_ptr h (adr p)), freep := w\<rparr>)"
    "s \<noteq> nu \<Longrightarrow> carve (adr nu) w (adr p) h = (adr (p + 8 * (s - nu) + 8),
       h\<lparr>hd_size := (hd_size h)(adr p := adr (s - nu), adr (p + 8 * (s - nu)) := adr nu), freep := w\<rparr>)"
proof -
  have h8: "adr x + HDR = adr (x + 8)" for x by (simp add: HDR_def)
  have eq: "adr s = adr nu \<longleftrightarrow> s = nu" using assms(2,3) by (intro adr_iff) simp_all
  show "s = nu \<Longrightarrow> carve (adr nu) w (adr p) h = (adr (p + 8), h\<lparr>hd_ptr := (hd_ptr h)(w := hd_ptr h (adr p)), freep := w\<rparr>)"
    using assms(1) by (simp add: carve_def h8)
  show "s \<noteq> nu \<Longrightarrow> carve (adr nu) w (adr p) h = (adr (p + 8 * (s - nu) + 8),
       h\<lparr>hd_size := (hd_size h)(adr p := adr (s - nu), adr (p + 8 * (s - nu)) := adr nu), freep := w\<rparr>)"
    unfolding carve_def Let_def assms(1) adr_sub [OF assms(2)] adr_end h8 by (simp only: eq if_False)
qed

lemma blocks_shrink:
  assumes "blocks_ok base (xs @ (p, s) # ys)" "xs \<noteq> []"
  shows "blocks_ok base (xs @ ys)" "0 < n \<Longrightarrow> n \<le> s \<Longrightarrow> blocks_ok base (xs @ (p, n) # ys)"
proof -
  obtain cs where cs: "xs = (base, 0) # cs" "apart (base + 7) (cs @ (p, s) # ys)" "0 < base"
    using assms by (cases xs) (auto simp: blocks_ok_def)
  have "apart (base + 7) (cs @ ys)" by (rule apart_replace [OF _ cs(2)]) (auto intro: apart_mono)
  then show "blocks_ok base (xs @ ys)" using cs by (simp add: blocks_ok_def)
  assume n: "0 < n" "n \<le> s"
  have "apart (base + 7) (cs @ (p, n) # ys)" by (rule apart_replace [OF _ cs(2)]) (use n in \<open>auto intro: apart_mono\<close>)
  then show "blocks_ok base (xs @ (p, n) # ys)" using cs by (simp add: blocks_ok_def)
qed

lemma held_shrink:
  assumes "held base h bs c l" "space bs' \<subseteq> space bs" "hd_size h' (adr c) = hd_size h (adr c)" "brk h' = brk h"
  shows "held base h' bs' c l"
  using assms by (auto simp: held_def loose_def)

lemma carve_ok:
  assumes hp: "heap_inv base h bs" and bs: "(p, s) \<in> set bs" "nu \<le> s" "0 < nu"
    and prev: "prev \<in> fst ` set bs" "hd_ptr h (adr prev) = adr p"
  obtains q h' bs' where "carve (adr nu) (adr prev) (adr p) h = (adr (q + 8), h')" "heap_inv base h' bs'" "held base h' bs' q nu"
    "space bs = space bs' \<union> {q..<q + 8 * nu}" "brk h' = brk h"
    "\<And>c l. held base h bs c l \<Longrightarrow> held base h' bs' c l"
proof -
  have ok: "blocks_ok base bs" and ch: "chain h base bs" and sp: "space bs \<subseteq> {..<unat (brk h)}" and bk: "base + 8 \<le> unat (brk h)" "unat (brk h) \<le> 0x80000000"
    using hp by (simp_all add: heap_inv_def ring_def)
  obtain xs ys where xs: "bs = xs @ (p, s) # ys" using bs(1) by (auto dest: split_list)
  have pb: "p \<noteq> base" "p + 8 * s \<le> 0x80000000" "base \<le> p" "s \<le> 0x80000000" using blocks_mem [OF ok bs(1)] bs(2,3) by simp_all
  obtain us k where us: "xs = us @ [(prev, k)]" by (rule chain_pred [OF ok ch xs pb(1) prev])
  have sz: "hd_size h (adr p) = adr s" "hd_ptr h (adr p) = adr (succ_of base ys)" using ch xs by simp_all
  note cc = carve_cases [OF sz(1) bs(2) pb(4), of "adr prev"]
  have sh: "blocks_ok base (xs @ ys)" "nu \<noteq> s \<Longrightarrow> blocks_ok base (xs @ (p, s - nu) # ys)"
    using blocks_shrink [of base xs p s ys] ok xs us bs(2,3) by auto
  have out: "x \<in> space (xs @ ys) \<Longrightarrow> x < p \<or> p + 8 * s < x" "(c, l) \<in> set (xs @ ys) \<Longrightarrow> c < p \<or> p + 8 * s < c" for x c l
    using space_apart [of base xs p s ys] ok xs bs(2,3) by auto
  have le: "c \<in> fst ` set bs \<Longrightarrow> c \<le> 0x80000000" for c using blocks_mem(2) [OF ok] by fastforce
  have new: "base + 8 \<le> p" "p + 8 * s \<le> unat (brk h)"
  proof -
    show "base + 8 \<le> p" using ok bs pb(1) apart_mem by (fastforce simp: blocks_ok_def)
    have "p + 8 * s - 1 \<in> space bs" using bs by (intro in_space [OF bs(1)]) simp_all
    then show "p + 8 * s \<le> unat (brk h)" using sp by auto
  qed
  have prevb: "prev \<le> 0x80000000" by (rule le [OF prev(1)])
  show thesis
  proof (cases "s = nu")
    case True
    let ?h = "h\<lparr>hd_ptr := (hd_ptr h)(adr prev := hd_ptr h (adr p)), freep := adr prev\<rparr>"
    have "adr c \<noteq> adr prev" if "c \<in> fst ` set (us @ ys)" for c
    proof -
      have "c \<noteq> prev" "c \<in> fst ` set bs" using blocks_sorted(2) [OF ok] that by (auto simp: xs us)
      then show ?thesis using adr_iff(1) [OF le prevb] by simp
    qed
    then have "chain ?h z zs = chain h z zs" if "set zs \<subseteq> set (us @ ys)" for z zs
      using that by (intro chain_frame) (auto simp: image_iff)
    note fr = this [of us] this [of ys]
    have "chain ?h base (xs @ ys)" using ch fr sz(2) by (simp add: xs us)
    then have r: "ring base ?h (xs @ ys)" using sh(1) us by (auto simp: ring_def)
    have un: "space bs = space (xs @ ys) \<union> {p..<p + 8 * nu}" by (simp add: xs True Un_ac)
    show thesis
    proof (rule that [OF cc(1) [OF True]])
      show "heap_inv base ?h (xs @ ys)" using r sp bk un by (simp add: heap_inv_def)
      have "x \<notin> space (xs @ ys)" if "p \<le> x" "x < p + 8 * nu" for x using out(1) [of x] that True by (auto simp del: space_simps)
      then have "{p..<p + 8 * nu} \<inter> space (xs @ ys) = {}" by (auto simp del: space_simps)
      then show "held base ?h (xs @ ys) p nu"
        using pb sz(1) True bs(3) new by (simp add: held_def loose_def)
      show "held base h bs c l \<Longrightarrow> held base ?h (xs @ ys) c l" for c l by (erule held_shrink) (simp_all add: un)
    qed (simp_all add: un)
  next
    case False
    let ?q = "p + 8 * (s - nu)"
    let ?h = "h\<lparr>hd_size := (hd_size h)(adr p := adr (s - nu), adr ?q := adr nu), freep := adr prev\<rparr>"
    let ?bs = "xs @ (p, s - nu) # ys"
    have q: "p < ?q" "?q + 8 * nu = p + 8 * s" "?q \<le> 0x80000000" using False bs(2) pb(2) by auto
    have ne: "adr c \<noteq> adr p \<and> adr c \<noteq> adr ?q" if c: "c \<in> fst ` set (xs @ ys)" for c
    proof -
      have "c \<in> fst ` set bs" using c xs by auto
      then have "c \<le> 0x80000000" by (rule le)
      moreover obtain l where "(c, l) \<in> set (xs @ ys)" using c by (metis imageE prod.collapse)
      from out(2) [OF this] have "c \<noteq> p" "c \<noteq> ?q" using q(2) by linarith+
      ultimately have "c \<le> 0x80000000" "c \<noteq> p" "c \<noteq> ?q" by simp_all
      then show ?thesis using adr_iff(1) [of c p] adr_iff(1) [OF _ q(3), of c] pb(2) by simp
    qed
    then have "chain ?h z zs = chain h z zs" if "set zs \<subseteq> set (xs @ ys)" for z zs
      using that by (intro chain_frame) (auto simp: image_iff)
    note fr = this [of xs] this [of ys]
    have "adr p \<noteq> adr ?q" using adr_iff(1) [OF _ q(3), of p] q(1) pb(2) by simp
    then have "chain ?h base ?bs" using ch fr sz by (simp add: xs)
    then have r: "ring base ?h ?bs" using sh(2) False us by (auto simp: ring_def)
    have "{p..<p + 8 * s} = {p..<?q} \<union> {?q..<?q + 8 * nu}" using q by (auto simp del: diff_mult_distrib2)
    then have un: "space bs = space ?bs \<union> {?q..<?q + 8 * nu}" by (simp add: xs Un_ac)
    show thesis
    proof (rule that [OF cc(2) [OF False]])
      show "heap_inv base ?h ?bs" using r sp bk un by (simp add: heap_inv_def)
      have "x \<notin> space ?bs" if "?q \<le> x" "x < ?q + 8 * nu" for x
        using out(1) [of x] that q(1,2) by (auto simp: not_less)
      then have "{?q..<?q + 8 * nu} \<inter> space ?bs = {}" by (auto simp del: space_simps)
      then show "held base ?h ?bs ?q nu" using new pb(2) bs(3) by (simp add: held_def loose_def q(2))
      show "held base ?h ?bs c l" if hl: "held base h bs c l" for c l
      proof (rule held_shrink [OF hl])
        from hl have "c \<in> {c..<c + 8 * l}" "{c..<c + 8 * l} \<inter> space bs = {}" "c \<le> 0x80000000" by (simp_all add: held_def loose_def)
        then have "c \<notin> space bs" "c \<le> 0x80000000" by blast+
        moreover have "p \<in> space bs" "?q \<in> space bs" using q bs by (auto intro: in_space [OF bs(1)])
        ultimately show "hd_size ?h (adr c) = hd_size h (adr c)" using adr_iff(1) [of c p] adr_iff(1) [OF _ q(3), of c] pb(2) by auto
      qed (simp_all add: un)
    qed (simp_all add: un)
  qed
qed

section \<open>The search\<close>

text \<open>
  What the loop of \<open>malloc\<close> does from \<open>prev\<close> on, when \<open>es\<close> are the blocks up to \<open>freep\<close>: it serves the request from a block
  that is large enough, or asks for more memory when there is none.
\<close>

definition serves :: "grant \<Rightarrow> nat \<Rightarrow> uheap \<Rightarrow> nat set \<Rightarrow> blocks \<Rightarrow> (32 word \<times> uheap) option \<Rightarrow> bool" where
  "serves ok nu h A es r \<longleftrightarrow>
     (if \<exists>x\<in>set es. nu \<le> snd x
      then \<exists>pr p s. pr \<in> A \<and> (p, s) \<in> set es \<and> hd_ptr h (adr pr) = adr p \<and> nu \<le> s \<and> r = Some (carve (adr nu) (adr pr) (adr p) h)
      else r = Option.bind (morecore ok (adr nu) h)
        (\<lambda>(p, h). if p = 0 then Some (0, h) else malloc_loop ok (adr nu) h p (hd_ptr h p)))"

lemma serves_mono: "serves ok nu h A es r \<Longrightarrow> snd e < nu \<Longrightarrow> serves ok nu h A (e # es) r"
  unfolding serves_def by (auto simp: not_le split: if_splits; blast)

lemma serves_cong: "set es = set fs \<Longrightarrow> serves ok nu h A es r = serves ok nu h A fs r"
  by (simp add: serves_def)

lemma search:
  assumes "chain h z es" "es \<noteq> []" "prev \<in> A" "hd_ptr h (adr prev) = adr (fst (hd es))" "fst ` set es \<subseteq> A"
    and "freep h = adr (fst (last es))" "\<forall>x\<in>set (butlast es). adr (fst x) \<noteq> freep h"
    and "nu \<le> 0x80000000" "\<forall>x\<in>set es. snd x \<le> 0x80000000"
  shows "serves ok nu h A es (malloc_loop ok (adr nu) h (adr prev) (adr (fst (hd es))))"
  using assms
proof (induction es arbitrary: prev)
  case (Cons e es)
  obtain p s where e: "e = (p, s)" by (cases e)
  have sz: "hd_size h (adr p) = adr s" "hd_ptr h (adr p) = adr (succ_of z es)" "chain h z es" using Cons.prems(1) e by simp_all
  have le: "hd_size h (adr p) \<ge> adr nu \<longleftrightarrow> nu \<le> s" unfolding sz using adr_iff(3) [OF Cons.prems(8), of s] Cons.prems(9) e by simp
  show ?case
  proof (cases "nu \<le> s")
    case True
    then have "malloc_loop ok (adr nu) h (adr prev) (adr p) = Some (carve (adr nu) (adr prev) (adr p) h)"
      using le by (subst malloc_loop.simps) simp
    then show ?thesis using True Cons.prems(3,4) e by (auto simp: serves_def)
  next
    case False
    show ?thesis
    proof (cases es)
      case Nil
      then have "adr p = freep h" using Cons.prems(6) e by simp
      then show ?thesis using False le Nil e by (subst malloc_loop.simps) (simp add: serves_def)
    next
      case nx: (Cons f fs)
      have "adr p \<noteq> freep h" using Cons.prems(7) e nx by simp
      then have "malloc_loop ok (adr nu) h (adr prev) (adr p) = malloc_loop ok (adr nu) h (adr p) (adr (fst (hd es)))"
        using False le sz(2) nx by (subst malloc_loop.simps) simp
      moreover have "serves ok nu h A es (malloc_loop ok (adr nu) h (adr p) (adr (fst (hd es))))"
        using Cons.prems(5-9) sz nx e by (intro Cons.IH) auto
      ultimately show ?thesis using serves_mono False e by simp
    qed
  qed
qed simp

lemma ring_search:
  assumes r: "ring base h bs" and nu: "nu \<le> 0x80000000"
  shows "serves ok nu h (fst ` set bs) bs (malloc_loop ok (adr nu) h (freep h) (hd_ptr h (freep h)))"
proof -
  have ok: "blocks_ok base bs" and ch: "chain h base bs" using r by (simp_all add: ring_def)
  obtain f where f: "f \<in> fst ` set bs" "freep h = adr f" using r by (auto simp: ring_def)
  then obtain us k vs where bs: "bs = us @ (f, k) # vs" by (auto dest: split_list)
  let ?es = "vs @ us @ [(f, k)]"
  have hd: "succ_of base vs = fst (hd ?es)" using ok bs by (cases us; cases vs) (auto simp: blocks_ok_def)
  have le: "(a, n) \<in> set bs \<Longrightarrow> a \<le> 0x80000000 \<and> n \<le> 0x80000000" for a n using blocks_mem(2) [OF ok, of a n] by simp
  have "succ_of f us = base" using ok bs by (cases us) (auto simp: blocks_ok_def)
  then have "chain h (succ_of base vs) ?es" using ch bs by simp
  moreover have "hd_ptr h (adr f) = adr (fst (hd ?es))" using ch bs hd by simp
  moreover have "adr (fst x) \<noteq> adr f" if "x \<in> set (us @ vs)" for x
  proof -
    have "fst x \<noteq> f" "fst x \<le> 0x80000000" "f \<le> 0x80000000"
      using blocks_sorted(2) [OF ok] that le [of "fst x" "snd x"] le [of f k] bs by auto
    then show ?thesis using adr_iff(1) by simp
  qed
  moreover have "\<forall>x\<in>set ?es. snd x \<le> 0x80000000" using bs le by fastforce
  ultimately have "serves ok nu h (fst ` set bs) ?es (malloc_loop ok (adr nu) h (adr f) (adr (fst (hd ?es))))"
    using bs f nu by (intro search [where z = "succ_of base vs"]) (auto simp: butlast_append)
  moreover have "set ?es = set bs" "hd_ptr h (freep h) = adr (fst (hd ?es))" using bs f(2) ch hd by auto
  ultimately show ?thesis using serves_cong [of ?es bs] f(2) by simp
qed

section \<open>More memory\<close>

text \<open>What the kernel grants ends below the kernel's part of the address space.\<close>

definition grants :: "grant \<Rightarrow> bool" where
  "grants ok \<longleftrightarrow> (\<forall>b n. ok b n \<longrightarrow> unat b + unat n \<le> 0x80000000)"

lemma heap_addr: "heap_inv base h bs \<Longrightarrow> a \<in> fst ` set bs \<Longrightarrow> a < unat (brk h)"
proof -
  assume h: "heap_inv base h bs" "a \<in> fst ` set bs"
  then obtain n where n: "(a, n) \<in> set bs" by auto
  have ok: "blocks_ok base bs" using h(1) by (simp add: heap_inv_def ring_def)
  show "a < unat (brk h)"
  proof (cases "a = base")
    case False
    then have "a \<in> space bs" using in_space [OF n, of a] blocks_mem(3) [OF ok n] by simp
    then show ?thesis using h(1) by (auto simp: heap_inv_def)
  qed (use h(1) in \<open>simp add: heap_inv_def\<close>)
qed

lemma morecore_grant:
  assumes hp: "heap_inv base h bs" and nu: "4096 \<le> nu" "8 * nu < 0x80000000" and gr: "unat (brk h) + 8 * nu \<le> 0x80000000"
    and h1: "h1 = h\<lparr>brk := brk h + adr nu * HDR, hd_size := (hd_size h)(brk h := adr nu)\<rparr>"
  obtains h' bs' where "free (brk h + HDR) h1 = Some h'" "heap_inv base h' bs'"
    "space bs' = space bs \<union> {unat (brk h)..<unat (brk h')}" "unat (brk h') = unat (brk h) + 8 * nu"
    "\<exists>(c, l)\<in>set bs'. nu \<le> l" "\<forall>c l. held base h bs c l \<longrightarrow> held base h' bs' c l"
proof -
  define b where "b = unat (brk h)"
  have b: "adr b = brk h" "base + 8 \<le> b" "b \<le> 0x80000000" "space bs \<subseteq> {..<b}" using hp by (simp_all add: b_def heap_inv_def)
  have brk1: "unat (brk h1) = b + 8 * nu"
    using unat_adr [of "b + 8 * nu"] gr h1 b(1) adr_end [of b nu] by (simp add: b_def)
  have ne: "adr a \<noteq> adr b" if "a < b" for a using adr_iff(1) [of a b] that b(3) by simp
  have "chain h1 base bs = chain h base bs"
    by (rule chain_frame) (use heap_addr [OF hp] ne b(1) in \<open>auto simp: h1 b_def\<close>)
  then have ring: "ring base h1 bs" using hp by (simp add: heap_inv_def ring_def h1)
  have "{b..<b + 8 * nu} \<inter> space bs = {}" using b(4) by auto
  then have loose: "loose base h1 bs b nu" using b nu gr by (simp add: loose_def h1 b_def)
  obtain h' bs' where f: "free (adr b + HDR) h1 = Some h'" "ring base h' bs'"
    "space bs' = space bs \<union> {b..<b + 8 * nu}" "brk h' = brk h1"
    and fr: "\<forall>x. x \<notin> adr ` insert b (fst ` set bs) \<longrightarrow> hd_size h' x = hd_size h1 x" and big: "\<exists>(c, l)\<in>set bs'. nu \<le> l"
    by (rule free_ok [OF ring loose])
  have hp': "heap_inv base h' bs'" using f b gr brk1 by (auto simp: heap_inv_def b_def)
  have "held base h' bs' c l" if hl: "held base h bs c l" for c l
  proof -
    have c: "c + 8 * l \<le> b" "0 < l" "{c..<c + 8 * l} \<inter> space bs = {}" "loose base h bs c l" using hl by (simp_all add: held_def loose_def b_def)
    have "adr c \<noteq> adr a" if "a \<in> fst ` set bs" for a
    proof -
      have "a < b" using heap_addr [OF hp that] by (simp add: b_def)
      moreover have "c \<noteq> a" using loose_gap(1) [OF _ c(4)] hp that by (auto simp: heap_inv_def ring_def)
      ultimately show ?thesis using adr_iff(1) [of c a] b(3) c(1) by simp
    qed
    then have "adr c \<notin> adr ` insert b (fst ` set bs)" using ne [of c] c(1,2) by auto
    then have "hd_size h' (adr c) = hd_size h (adr c)" using fr ne [of c] b(1) c by (simp add: h1)
    moreover have "{c..<c + 8 * l} \<inter> space bs' = {}" using c f(3) by auto
    ultimately show ?thesis using hl brk1 f(4) by (simp add: held_def loose_def b_def)
  qed
  then show thesis using that [of h' bs'] f b(1) hp' brk1 big by (simp add: b_def)
qed

lemma heap_freep:
  assumes "heap_inv base h bs"
  shows "freep h \<noteq> 0"
proof -
  obtain a where a: "a \<in> fst ` set bs" "freep h = adr a" and ok: "blocks_ok base bs" "unat (brk h) \<le> 0x80000000"
    using assms by (auto simp: heap_inv_def ring_def)
  then have "base \<le> a" "a \<le> 0x80000000" using blocks_mem(1,2) [OF ok(1), of a] heap_addr [OF assms a(1)] by auto
  moreover have "0 < base" using ok(1) by (simp add: blocks_ok_def)
  ultimately show ?thesis using adr_iff(1) [of a 0] a(2) by simp
qed

text \<open>A request that the free blocks can serve.\<close>

definition served :: "nat \<Rightarrow> nat \<Rightarrow> uheap \<Rightarrow> blocks \<Rightarrow> 32 word \<times> uheap \<Rightarrow> bool" where
  "served base nu h bs r \<longleftrightarrow> (\<exists>q h' bs'. r = (adr (q + 8), h') \<and> heap_inv base h' bs' \<and> held base h' bs' q nu \<and>
     space bs = space bs' \<union> {q..<q + 8 * nu} \<and> brk h' = brk h \<and> (\<forall>c l. held base h bs c l \<longrightarrow> held base h' bs' c l))"

lemma serve_big:
  assumes hp: "heap_inv base h bs" and nu: "0 < nu" "nu \<le> 0x80000000" and big: "\<exists>x\<in>set bs. nu \<le> snd x"
  shows "\<exists>r. malloc_loop ok (adr nu) h (freep h) (hd_ptr h (freep h)) = Some r \<and> served base nu h bs r"
proof -
  have "ring base h bs" using hp by (simp add: heap_inv_def)
  from ring_search [OF this nu(2)] big obtain pr p s where c: "pr \<in> fst ` set bs" "(p, s) \<in> set bs" "hd_ptr h (adr pr) = adr p" "nu \<le> s"
    and m: "malloc_loop ok (adr nu) h (freep h) (hd_ptr h (freep h)) = Some (carve (adr nu) (adr pr) (adr p) h)"
    unfolding serves_def by (simp only: if_True) blast
  show ?thesis
    by (rule carve_ok [OF hp c(2,4) nu(1) c(1,3)]) (auto simp: m served_def)
qed

lemma morecore_cases:
  assumes hp: "heap_inv base h bs" and gr: "grants ok" and nu: "0 < nu" "8 * nu < 0x80000000"
  defines "m \<equiv> max nu 4096"
  shows "if ok (brk h) (adr m * HDR)
    then \<exists>h' bs'. morecore ok (adr nu) h = Some (freep h', h') \<and> heap_inv base h' bs' \<and>
      space bs' = space bs \<union> {unat (brk h)..<unat (brk h')} \<and> (\<exists>x\<in>set bs'. nu \<le> snd x) \<and> (\<forall>c l. held base h bs c l \<longrightarrow> held base h' bs' c l)
    else morecore ok (adr nu) h = Some (0, h)"
proof -
  have m: "4096 \<le> m" "8 * m < 0x80000000" "nu \<le> m" using nu by (simp_all add: m_def)
  have am: "(if adr nu < 4096 then 4096 else adr nu) = adr m"
    using adr_iff(2) [of nu 4096] nu(2) by (auto simp: m_def max_def)
  have bk: "unat (brk h) \<le> 0x80000000" using hp by (simp add: heap_inv_def)
  have "unat (-1 :: 32 word) = 0xFFFFFFFF" by (simp add: unsigned_minus_1_eq_mask mask_eq_exp_minus_1)
  then have n1: "brk h \<noteq> -1" using bk by auto
  show ?thesis
  proof (cases "ok (brk h) (adr m * HDR)")
    case True
    have "unat (adr m * HDR) = 8 * m" using adr_end [of 0 m] unat_adr [of "8 * m"] m(2) by simp
    then have g: "unat (brk h) + 8 * m \<le> 0x80000000" using gr [unfolded grants_def, rule_format, OF True] by simp
    let ?h1 = "h\<lparr>brk := brk h + adr m * HDR, hd_size := (hd_size h)(brk h := adr m)\<rparr>"
    obtain h' bs' where f: "free (brk h + HDR) ?h1 = Some h'" "heap_inv base h' bs'"
      "space bs' = space bs \<union> {unat (brk h)..<unat (brk h')}" "unat (brk h') = unat (brk h) + 8 * m"
      "\<exists>(c, l)\<in>set bs'. m \<le> l" "\<forall>c l. held base h bs c l \<longrightarrow> held base h' bs' c l"
      by (rule morecore_grant [OF hp m(1,2) g refl])
    have "morecore ok (adr nu) h = Some (freep h', h')"
      using f(1) True n1 by (simp add: morecore_def sbrk_def Let_def am)
    moreover obtain c l where "(c, l) \<in> set bs'" "m \<le> l" using f(5) by auto
    then have "\<exists>x\<in>set bs'. nu \<le> snd x" using m(3) by (intro bexI [of _ "(c, l)"]) simp_all
    ultimately show ?thesis using True f(2,3,6) by (simp only: if_True) blast
  next
    case False
    then show ?thesis by (simp add: morecore_def sbrk_def Let_def am)
  qed
qed

definition need :: "32 word \<Rightarrow> nat" where
  "need nbytes = (unat nbytes + 7) div 8 + 1"

lemma units_need:
  assumes "unat nbytes \<le> 0x7FFFFFF0"
  shows "units nbytes = adr (need nbytes)" "0 < need nbytes" "8 * need nbytes < 0x80000000"
proof -
  have "unat (adr (unat nbytes + 7)) = unat nbytes + 7" using assms by (subst unat_of_nat) simp
  then have "unat (nbytes + 7) = unat nbytes + 7" by simp
  moreover have "nbytes + HDR - 1 = nbytes + 7" "unat HDR = 8" by (simp_all add: HDR_def)
  ultimately have "unat ((nbytes + HDR - 1) div HDR) = (unat nbytes + 7) div 8" by (simp only: unat_div)
  moreover have "adr (unat ((nbytes + HDR - 1) div HDR)) = (nbytes + HDR - 1) div HDR" by simp
  ultimately have "(nbytes + HDR - 1) div HDR = adr ((unat nbytes + 7) div 8)" by (simp only:)
  then show "units nbytes = adr (need nbytes)" by (simp add: units_def need_def)
  show "0 < need nbytes" "8 * need nbytes < 0x80000000" using assms by (simp_all add: need_def)
qed

text \<open>The state of a program that has not called \<open>malloc\<close> yet, or has.\<close>

definition uheap_ok :: "nat \<Rightarrow> uheap \<Rightarrow> blocks \<Rightarrow> bool" where
  "uheap_ok base h bs \<longleftrightarrow> heap_inv base h bs \<or>
     freep h = 0 \<and> bs = [(base, 0)] \<and> 0 < base \<and> base + 8 \<le> unat (brk h) \<and> unat (brk h) \<le> 0x80000000"

lemma malloc_starts:
  assumes "uheap_ok base h bs"
  obtains h0 where "malloc ok (adr base) nbytes h = malloc_loop ok (units nbytes) h0 (freep h0) (hd_ptr h0 (freep h0))" "heap_inv base h0 bs"
    "brk h0 = brk h" "\<forall>c l. held base h bs c l \<longrightarrow> held base h0 bs c l"
proof (cases "freep h = 0")
  case True
  then have i: "bs = [(base, 0)]" "0 < base" "base + 8 \<le> unat (brk h)" "unat (brk h) \<le> 0x80000000"
    using assms heap_freep by (auto simp: uheap_ok_def)
  let ?h = "h\<lparr>hd_ptr := (hd_ptr h)(adr base := adr base), hd_size := (hd_size h)(adr base := 0), freep := adr base\<rparr>"
  have "heap_inv base ?h bs" using i by (simp add: heap_inv_def ring_def blocks_ok_def)
  moreover have "held base ?h bs c l" if hl: "held base h bs c l" for c l
  proof (rule held_shrink [OF hl])
    show "hd_size ?h (adr c) = hd_size h (adr c)" using hl i adr_iff(1) [of c base] by (simp add: held_def loose_def)
  qed simp_all
  ultimately show thesis using True by (intro that [of ?h]) (simp_all add: malloc_def Let_def)
next
  case False
  then show thesis using assms by (intro that [of h]) (simp_all add: malloc_def Let_def uheap_ok_def)
qed

text \<open>The outcome of a served request, seen from the heap \<open>h\<close> the program had, which may have grown to \<open>H\<close> meanwhile.\<close>

lemma served_result:
  assumes "served base nu H BS r" "space BS = space bs \<union> {unat (brk h)..<unat (brk H)}" "\<forall>c l. held base h bs c l \<longrightarrow> held base H BS c l"
  shows "\<exists>p h' bs'. r = (p, h') \<and> heap_inv base h' bs' \<and> (\<forall>c l. held base h bs c l \<longrightarrow> held base h' bs' c l) \<and>
    (if p = 0 then Z bs'
     else held base h' bs' (unat p - 8) nu \<and>
       (\<forall>c l. held base h bs c l \<longrightarrow> {c..<c + 8 * l} \<inter> {unat p - 8..<unat p - 8 + 8 * nu} = {}) \<and>
       space bs' \<union> {unat p - 8..<unat p - 8 + 8 * nu} = space bs \<union> {unat (brk h)..<unat (brk h')})"
proof -
  obtain q h' bs' where r: "r = (adr (q + 8), h')" "heap_inv base h' bs'" "held base h' bs' q nu"
    "space BS = space bs' \<union> {q..<q + 8 * nu}" "brk h' = brk H" "\<forall>c l. held base H BS c l \<longrightarrow> held base h' bs' c l"
    using assms(1) by (auto simp: served_def)
  have "q + 8 * nu \<le> 0x80000000" "0 < nu" using r(3) by (simp_all add: held_def loose_def)
  then have u: "unat (adr (q + 8)) = q + 8" by (intro unat_adr) linarith
  have "{c..<c + 8 * l} \<inter> {q..<q + 8 * nu} = {}" if "held base h bs c l" for c l
  proof -
    have "{c..<c + 8 * l} \<inter> space BS = {}" using assms(3) that by (simp add: held_def loose_def)
    then show ?thesis unfolding r(4) by blast
  qed
  moreover have "adr (q + 8) \<noteq> 0" using u by (metis add_is_0 unat_0 zero_neq_numeral)
  ultimately show ?thesis using r assms(2,3) u by (intro exI [of _ "adr (q + 8)"] exI [of _ h'] exI [of _ bs']) simp
qed

text \<open>
  C6. \<open>malloc\<close> returns, and serves the request or fails for lack of memory. For a request below 2 GB, on a heap in order (or
  not yet used), it ends. If it returns a pointer, the block before it has the size of the request, rounded up to headers plus its own header,
  it lies apart from the free blocks and from every block in use, all of which keep their headers, and it came out of the
  space that was free or that \<open>sbrk\<close> added; nothing else is lost. If it returns null, no free block was large enough and the kernel refused the
  request, and the free space is as before. In each case the free list is again a circular list of blocks in address order, no two of
  which touch.
\<close>

theorem malloc_spec:
  assumes "uheap_ok base h bs" "grants ok" "unat nbytes \<le> 0x7FFFFFF0"
  shows "\<exists>r h' bs'. malloc ok (adr base) nbytes h = Some (r, h') \<and> heap_inv base h' bs' \<and>
    (\<forall>c l. held base h bs c l \<longrightarrow> held base h' bs' c l) \<and>
    (if r = 0 then space bs' = space bs \<and> (\<forall>x\<in>set bs. snd x < need nbytes) \<and> \<not> ok (brk h) (adr (max (need nbytes) 4096) * HDR)
     else held base h' bs' (unat r - 8) (need nbytes) \<and>
       (\<forall>c l. held base h bs c l \<longrightarrow> {c..<c + 8 * l} \<inter> {unat r - 8..<unat r - 8 + 8 * need nbytes} = {}) \<and>
       space bs' \<union> {unat r - 8..<unat r - 8 + 8 * need nbytes} = space bs \<union> {unat (brk h)..<unat (brk h')})"
proof -
  note nu = units_need [OF assms(3)]
  have nu': "need nbytes \<le> 0x80000000" using nu(3) by simp
  obtain h0 where m: "malloc ok (adr base) nbytes h = malloc_loop ok (units nbytes) h0 (freep h0) (hd_ptr h0 (freep h0))"
    and h0: "heap_inv base h0 bs" "brk h0 = brk h" "\<forall>c l. held base h bs c l \<longrightarrow> held base h0 bs c l"
    by (rule malloc_starts [OF assms(1)])
  have sv: "serves ok (need nbytes) h0 (fst ` set bs) bs (malloc ok (adr base) nbytes h)"
    unfolding m nu(1) using h0(1) nu' by (intro ring_search [of base]) (simp_all add: heap_inv_def)
  show ?thesis
  proof (cases "\<exists>x\<in>set bs. need nbytes \<le> snd x")
    case True
    then obtain r where r: "malloc ok (adr base) nbytes h = Some r" "served base (need nbytes) h0 bs r"
      using serve_big [OF h0(1) nu(2) nu', of ok] unfolding m nu(1) by blast
    have u: "space bs = space bs \<union> {unat (brk h)..<unat (brk h0)}" using h0(2) by simp
    show ?thesis unfolding r(1) option.inject by (rule served_result [OF r(2) u h0(3)])
  next
    case False
    note mc = morecore_cases [OF h0(1) assms(2) nu(2,3)]
    have more: "malloc ok (adr base) nbytes h = Option.bind (morecore ok (adr (need nbytes)) h0)
        (\<lambda>(p, h). if p = 0 then Some (0, h) else malloc_loop ok (adr (need nbytes)) h p (hd_ptr h p))"
      using sv False by (simp add: serves_def)
    show ?thesis
    proof (cases "ok (brk h) (adr (max (need nbytes) 4096) * HDR)")
      case True
      then obtain h1 bs1 where h1: "morecore ok (adr (need nbytes)) h0 = Some (freep h1, h1)" "heap_inv base h1 bs1"
        "space bs1 = space bs \<union> {unat (brk h)..<unat (brk h1)}" "\<exists>x\<in>set bs1. need nbytes \<le> snd x"
        "\<forall>c l. held base h0 bs c l \<longrightarrow> held base h1 bs1 c l"
        using mc h0(2) by auto
      from serve_big [OF h1(2) nu(2) nu' h1(4), of ok] obtain r
        where r: "malloc ok (adr base) nbytes h = Some r" "served base (need nbytes) h1 bs1 r"
        using more h1(1) heap_freep [OF h1(2)] by auto
      have k: "\<forall>c l. held base h bs c l \<longrightarrow> held base h1 bs1 c l" using h0(3) h1(5) by blast
      show ?thesis unfolding r(1) option.inject by (rule served_result [OF r(2) h1(3) k])
    next
      case no: False
      then have "malloc ok (adr base) nbytes h = Some (0, h0)" using more mc h0(2) by simp
      then show ?thesis using h0 False no by (intro exI [of _ 0] exI [of _ h0] exI [of _ bs]) (auto simp: not_le)
    qed
  qed
qed

definition fresh_heap :: uheap where
  "fresh_heap = \<lparr>hd_ptr = (\<lambda>_. 0), hd_size = (\<lambda>_. 0), freep = 0, brk = 0x4000\<rparr>"

definition below_kernel :: grant where
  "below_kernel b n \<longleftrightarrow> unat b + unat n \<le> 0x80000000"

theorem malloc_spec_witness:
  "\<exists>r h' bs'. malloc below_kernel (adr 0x2000) 100 fresh_heap = Some (r, h') \<and> heap_inv 0x2000 h' bs' \<and>
    r \<noteq> 0 \<and> held 0x2000 h' bs' (unat r - 8) 14"
proof -
  have "uheap_ok 0x2000 fresh_heap [(0x2000, 0)]" by (simp add: uheap_ok_def fresh_heap_def)
  moreover have "grants below_kernel" by (simp add: grants_def below_kernel_def)
  moreover have "need 100 = 14" by (simp add: need_def)
  moreover have "below_kernel (brk fresh_heap) (adr (max 14 4096) * HDR)" by (simp add: below_kernel_def fresh_heap_def HDR_def)
  ultimately show ?thesis using malloc_spec [of "0x2000" fresh_heap "[(0x2000, 0)]" below_kernel 100]
    by (auto split: if_splits)
qed

text \<open>
  C7. \<open>free\<close> returns, and gives the block back. For a block in use, of a heap in order, its loop over the free list ends; afterwards the free space is
  what it was and the block, the free list is again a circular list in address order in which no two blocks touch (so the block has been
  merged with its neighbours), and every other block in use keeps its header and stays apart from the free list.
\<close>

theorem free_spec:
  assumes "heap_inv base h bs" "held base h bs b m"
  shows "\<exists>h' bs'. free (adr b + HDR) h = Some h' \<and> heap_inv base h' bs' \<and> space bs' = space bs \<union> {b..<b + 8 * m} \<and>
    (\<forall>c l. held base h bs c l \<and> {c..<c + 8 * l} \<inter> {b..<b + 8 * m} = {} \<longrightarrow> held base h' bs' c l)"
proof -
  have r: "ring base h bs" and l: "loose base h bs b m" and bm: "b + 8 * m \<le> unat (brk h)" "b \<le> 0x80000000"
    using assms by (simp_all add: heap_inv_def held_def loose_def)
  obtain h' bs' where f: "free (adr b + HDR) h = Some h'" "ring base h' bs'" "space bs' = space bs \<union> {b..<b + 8 * m}" "brk h' = brk h"
    and fr: "\<forall>x. x \<notin> adr ` insert b (fst ` set bs) \<longrightarrow> hd_size h' x = hd_size h x" and "\<exists>(c, l)\<in>set bs'. m \<le> l"
    by (rule free_ok [OF r l])
  have hp: "heap_inv base h' bs'" using assms(1) f bm by (auto simp: heap_inv_def)
  have "held base h' bs' c k" if hl: "held base h bs c k" and d: "{c..<c + 8 * k} \<inter> {b..<b + 8 * m} = {}" for c k
  proof -
    have c: "0 < k" "{c..<c + 8 * k} \<inter> space bs = {}" "loose base h bs c k" "c + 8 * k \<le> unat (brk h)" "c \<le> 0x80000000"
      using hl by (simp_all add: held_def loose_def)
    have "adr c \<noteq> adr a" if "a \<in> insert b (fst ` set bs)" for a
    proof -
      have "c \<noteq> b" using d c(1) l by (auto simp: loose_def)
      moreover have "c \<notin> fst ` set bs" using loose_gap(1) [OF _ c(3)] r by (simp add: ring_def)
      moreover have "a \<le> 0x80000000"
        using insertE [OF that] heap_addr [OF assms(1), of a] assms(1) bm(2) by (metis heap_inv_def less_imp_le order_trans)
      ultimately show ?thesis using adr_iff(1) [OF c(5), of a] that by auto
    qed
    then have "hd_size h' (adr c) = hd_size h (adr c)" using fr by blast
    moreover have "{c..<c + 8 * k} \<inter> space bs' = {}" using c(2) d f(3) by auto
    ultimately show ?thesis using hl f(4) by (simp add: held_def loose_def)
  qed
  then show ?thesis using f hp by blast
qed

text \<open>The first block that \<open>malloc\<close> of the example carves out, at the end of what \<open>sbrk\<close> returned.\<close>

definition used_heap :: uheap where
  "used_heap = \<lparr>hd_ptr = (\<lambda>_. 0)(0x2000 := 0x4000, 0x4000 := 0x2000), hd_size = (\<lambda>_. 0)(0x4000 := 4082, 0xBF90 := 14), freep = 0x2000, brk = 0xC000\<rparr>"

theorem free_spec_witness:
  "\<exists>h' bs'. free 0xBF98 used_heap = Some h' \<and> heap_inv 0x2000 h' bs' \<and> space bs' = {0x4000..<0xC000}"
proof -
  have "heap_inv 0x2000 used_heap [(0x2000, 0), (0x4000, 4082)]"
    by (auto simp: heap_inv_def ring_def blocks_ok_def used_heap_def)
  moreover have "held 0x2000 used_heap [(0x2000, 0), (0x4000, 4082)] 0xBF90 14"
    by (auto simp: held_def loose_def used_heap_def)
  moreover have "{0x4000..<0xC000::nat} = {0x4000..<0xBF90} \<union> {0xBF90..<0xC000}" by auto
  ultimately show ?thesis using free_spec [of "0x2000" used_heap "[(0x2000, 0), (0x4000, 4082)]" "0xBF90" 14] by (auto simp: HDR_def)
qed

text \<open>The sizes wrap: a request of 4 GB less one byte asks for one unit, and one of 4 GB less 16 bytes for \<open>sbrk(0)\<close>.\<close>

lemma units_wrap: "units 0xFFFFFFFF = 1" "units 0xFFFFFFF0 = 0x1FFFFFFF" "units 0xFFFFFFF8 * HDR = 0"
  by (simp_all add: units_def HDR_def)

end
