(* ===== verification/Grep.thy ===== *)
theory Grep
  imports Strings
begin

text \<open>
  The user program \<open>grep.c\<close>: the pattern matcher and the loop that cuts the input into lines. A C string
  is the list of its characters without the terminator.
\<close>

definition star :: byte where "star = 42"
definition dot :: byte where "dot = 46"
definition dollar :: byte where "dollar = 36"
definition caret :: byte where "caret = 94"
definition newline :: byte where "newline = 10"

function matchhere :: "byte list \<Rightarrow> byte list \<Rightarrow> bool"
and matchstar :: "byte \<Rightarrow> byte list \<Rightarrow> byte list \<Rightarrow> bool" where
  "matchhere [] tx = True"
| "matchhere (c # re) tx =
     (if re \<noteq> [] \<and> hd re = star then matchstar c (tl re) tx
      else if c = dollar \<and> re = [] then tx = []
      else if tx \<noteq> [] \<and> (c = dot \<or> c = hd tx) then matchhere re (tl tx)
      else False)"
| "matchstar c re tx =
     (if matchhere re tx then True
      else if tx \<noteq> [] \<and> (hd tx = c \<or> c = dot) then matchstar c re (tl tx)
      else False)"
  by pat_completeness auto
termination
  by (relation "measures
      [\<lambda>x. case x of Inl (re, tx) \<Rightarrow> length re | Inr (c, re, tx) \<Rightarrow> Suc (length re),
       \<lambda>x. case x of Inl (re, tx) \<Rightarrow> length tx | Inr (c, re, tx) \<Rightarrow> length tx]")
    (auto simp: neq_Nil_conv)

text \<open>\<open>match\<close>: the loop tries every suffix of the text, the empty one included.\<close>

fun match_from :: "byte list \<Rightarrow> byte list \<Rightarrow> bool" where
  "match_from re tx = (if matchhere re tx then True else case tx of [] \<Rightarrow> False | _ # t \<Rightarrow> match_from re t)"

definition match :: "byte list \<Rightarrow> byte list \<Rightarrow> bool" where
  "match re tx = (case re of c # r \<Rightarrow> if c = caret then matchhere r tx else match_from re tx | [] \<Rightarrow> match_from re tx)"

declare match_from.simps [simp del] matchhere.simps(2) [simp del] matchstar.simps [simp del]

text \<open>\<open>strchr(p, '\n')\<close>: the position of the first newline before any terminator.\<close>

definition find_newline :: "byte list \<Rightarrow> nat option" where
  "find_newline p =
     (let q = length (takeWhile (\<lambda>c. c \<noteq> newline \<and> c \<noteq> 0) p)
      in if q < length p \<and> p ! q = newline then Some q else None)"

lemma find_newline_Some: "find_newline p = Some q \<Longrightarrow> q < length p"
  by (auto simp: find_newline_def Let_def split: if_splits)

text \<open>The inner loop of \<open>grep\<close>: what it writes, and the text from \<open>p\<close> on at its end.\<close>

function grep_lines :: "byte list \<Rightarrow> byte list \<Rightarrow> byte list \<times> byte list" where
  "grep_lines pattern p =
     (case find_newline p of
        None \<Rightarrow> ([], p)
      | Some q \<Rightarrow>
          (case grep_lines pattern (drop (q + 1) p) of
             (out, rest) \<Rightarrow> ((if match pattern (take q p) then take (q + 1) p else []) @ out, rest)))"
  by pat_completeness auto
termination
  by (relation "measure (\<lambda>(pattern, p). length p)") (auto dest: find_newline_Some)

declare grep_lines.simps [simp del]

definition BUFSZ :: nat where "BUFSZ = 1024"

text \<open>
  The outer loop: \<open>buf\<close> holds the \<open>m\<close> bytes kept from before, \<open>input\<close> is what is still to be read, and
  \<open>k i\<close> bounds what the \<open>i\<close>-th call of \<open>read\<close> returns.
\<close>

function grep_loop :: "byte list \<Rightarrow> (nat \<Rightarrow> nat) \<Rightarrow> nat \<Rightarrow> byte list \<Rightarrow> byte list \<Rightarrow> byte list" where
  "grep_loop pattern k i buf input =
     (let n = min (k i) (min (BUFSZ - length buf - 1) (length input)) in
      if n = 0 then []
      else
        (let buf1 = buf @ take n input; (out, p) = grep_lines pattern buf1;
             buf2 = (if length p = length buf1 then [] else p)
         in out @ grep_loop pattern k (Suc i) buf2 (drop n input)))"
  by pat_completeness auto
termination
  by (relation "measure (\<lambda>(pattern, k, i, buf, input). length input)") auto

declare grep_loop.simps [simp del]

definition grep :: "byte list \<Rightarrow> (nat \<Rightarrow> nat) \<Rightarrow> byte list \<Rightarrow> byte list" where
  "grep pattern k input = grep_loop pattern k 0 [] input"

subsection \<open>What a pattern means\<close>

datatype relem = One byte | Star byte | End

fun parse_re :: "byte list \<Rightarrow> relem list" where
  "parse_re [] = []"
| "parse_re [c] = (if c = dollar then [End] else [One c])"
| "parse_re (c # d # re) = (if d = star then Star c # parse_re re else One c # parse_re (d # re))"

definition fits :: "byte \<Rightarrow> byte \<Rightarrow> bool" where
  "fits c a \<longleftrightarrow> c = dot \<or> c = a"

text \<open>\<open>takes e u v\<close>: the element can match the text \<open>u\<close> when \<open>v\<close> follows it.\<close>

fun takes :: "relem \<Rightarrow> byte list \<Rightarrow> byte list \<Rightarrow> bool" where
  "takes (One c) u v \<longleftrightarrow> (\<exists>a. u = [a] \<and> fits c a)"
| "takes (Star c) u v \<longleftrightarrow> list_all (fits c) u"
| "takes End u v \<longleftrightarrow> u = [] \<and> v = []"

text \<open>A prefix of the text matches the elements one after the other.\<close>

fun den :: "relem list \<Rightarrow> byte list \<Rightarrow> bool" where
  "den [] t \<longleftrightarrow> True"
| "den (e # es) t \<longleftrightarrow> (\<exists>u v. t = u @ v \<and> takes e u v \<and> den es v)"

lemma den_End: "den (End # es) t \<longleftrightarrow> t = [] \<and> den es []"
  by auto

lemma den_One: "den (One c # es) t \<longleftrightarrow> t \<noteq> [] \<and> fits c (hd t) \<and> den es (tl t)"
proof (cases t)
  case (Cons a t')
  then have "den (One c # es) t \<longleftrightarrow> (\<exists>u v. a # t' = u @ v \<and> (\<exists>a. u = [a] \<and> fits c a) \<and> den es v)" by simp
  also have "\<dots> \<longleftrightarrow> fits c a \<and> den es t'" by (metis append_Cons append_Nil list.inject)
  finally show ?thesis by (simp add: Cons)
qed simp

lemma den_Star: "den (Star c # es) t \<longleftrightarrow> den es t \<or> (t \<noteq> [] \<and> fits c (hd t) \<and> den (Star c # es) (tl t))"
proof (cases t)
  case (Cons a t')
  have "den (Star c # es) t \<longleftrightarrow> (\<exists>u v. a # t' = u @ v \<and> list_all (fits c) u \<and> den es v)" by (simp add: Cons)
  also have "\<dots> \<longleftrightarrow> den es t \<or> (fits c a \<and> (\<exists>u v. t' = u @ v \<and> list_all (fits c) u \<and> den es v))"
  proof
    assume "\<exists>u v. a # t' = u @ v \<and> list_all (fits c) u \<and> den es v"
    then obtain u v where "a # t' = u @ v" "list_all (fits c) u" "den es v" by blast
    then show "den es t \<or> (fits c a \<and> (\<exists>u v. t' = u @ v \<and> list_all (fits c) u \<and> den es v))"
      by (cases u) (auto simp: Cons)
  next
    assume "den es t \<or> (fits c a \<and> (\<exists>u v. t' = u @ v \<and> list_all (fits c) u \<and> den es v))"
    then show "\<exists>u v. a # t' = u @ v \<and> list_all (fits c) u \<and> den es v"
    proof
      assume "den es t"
      then show ?thesis using Cons by (intro exI [of _ "[]"] exI [of _ t]) simp
    next
      assume "fits c a \<and> (\<exists>u v. t' = u @ v \<and> list_all (fits c) u \<and> den es v)"
      then obtain u v where "fits c a" "t' = u @ v" "list_all (fits c) u" "den es v" by blast
      then show ?thesis by (intro exI [of _ "a # u"] exI [of _ v]) simp
    qed
  qed
  finally show ?thesis by (simp add: Cons)
qed simp

lemma matcher_den:
  "matchhere re tx \<longleftrightarrow> den (parse_re re) tx"
  "matchstar c re tx \<longleftrightarrow> den (Star c # parse_re re) tx"
proof (induction re tx and c re tx rule: matchhere_matchstar.induct)
  case (2 c re tx)
  show ?case
  proof (cases re)
    case Nil
    then show ?thesis using 2
      by (auto simp: matchhere.simps(2) den_End den_One fits_def simp del: den.simps(2))
  next
    case (Cons d re')
    then show ?thesis using 2
      by (auto simp: matchhere.simps(2) den_One fits_def simp del: den.simps(2))
  qed
next
  case (3 c re tx)
  then show ?case
    by (subst den_Star, subst matchstar.simps) (auto simp: fits_def simp del: den.simps(2))
qed simp

lemma match_from_Cons: "match_from re (a # t) \<longleftrightarrow> matchhere re (a # t) \<or> match_from re t"
  by (subst match_from.simps) simp

lemma match_from_suffix: "match_from re tx \<longleftrightarrow> (\<exists>u v. tx = u @ v \<and> matchhere re v)"
proof (induction tx)
  case Nil
  then show ?case by (simp add: match_from.simps)
next
  case (Cons a t)
  show ?case
    unfolding match_from_Cons Cons.IH by (metis append_Cons append_Nil list.inject list.exhaust)
qed

text \<open>
  C37. The matcher is correct: \<open>match\<close> accepts a text exactly when, after a leading caret, a prefix of it, and
  without one, a prefix of one of its suffixes, is a sequence of pieces that the elements of the pattern match in
  order: a character or dot one character, a starred one any number of them, a final dollar the end of the text.
\<close>

theorem match_spec:
  "match re tx \<longleftrightarrow>
     (if re \<noteq> [] \<and> hd re = caret then den (parse_re (tl re)) tx
      else \<exists>u v. tx = u @ v \<and> den (parse_re re) v)"
  by (cases re) (auto simp: match_def match_from_suffix matcher_den)


subsection \<open>Cutting the input into lines\<close>

text \<open>The complete lines of a text, without their newlines, and what follows the last newline.\<close>

fun split_lines :: "byte list \<Rightarrow> byte list \<Rightarrow> byte list list \<times> byte list" where
  "split_lines acc [] = ([], acc)"
| "split_lines acc (c # cs) =
     (if c = newline then apfst (Cons acc) (split_lines [] cs) else split_lines (acc @ [c]) cs)"

definition grep_output :: "byte list \<Rightarrow> byte list list \<Rightarrow> byte list" where
  "grep_output pattern ls = concat (map (\<lambda>l. l @ [newline]) (filter (match pattern) ls))"

lemma split_lines_no_newline: "newline \<notin> set cs \<Longrightarrow> split_lines acc (cs @ ds) = split_lines (acc @ cs) ds"
  by (induction cs arbitrary: acc) auto

lemma split_lines_rest: "newline \<notin> set acc \<Longrightarrow> newline \<notin> set (snd (split_lines acc cs))"
  by (induction acc cs rule: split_lines.induct) auto

lemma split_lines_rest_set: "set (snd (split_lines acc cs)) \<subseteq> set acc \<union> set cs"
  by (induction acc cs rule: split_lines.induct) auto

lemma split_lines_rest_le: "length (snd (split_lines acc cs)) \<le> length acc + length cs"
  by (induction acc cs rule: split_lines.induct) auto

lemma split_lines_rest_less: "newline \<in> set cs \<Longrightarrow> length (snd (split_lines acc cs)) < length acc + length cs"
proof (induction acc cs rule: split_lines.induct)
  case (2 acc c cs)
  then show ?case using split_lines_rest_le [of "[]" cs] by (cases "c = newline") auto
qed simp

lemma split_lines_append:
  "fst (split_lines acc (xs @ ys)) = fst (split_lines acc xs) @ fst (split_lines (snd (split_lines acc xs)) ys)"
  by (induction acc xs rule: split_lines.induct) auto

lemma split_lines_Nil: "newline \<notin> set cs \<Longrightarrow> split_lines [] cs = ([], cs)"
  using split_lines_no_newline [of cs "[]" "[]"] by simp

lemma find_newline_split:
  assumes "0 \<notin> set p"
  shows "find_newline p = Some q \<longleftrightarrow> (\<exists>l r. p = l @ newline # r \<and> newline \<notin> set l \<and> length l = q)"
    "find_newline p = None \<longleftrightarrow> newline \<notin> set p"
proof -
  let ?P = "\<lambda>c. c \<noteq> newline \<and> c \<noteq> 0"
  have n: "newline \<notin> set p \<Longrightarrow> find_newline p = None"
  proof -
    assume "newline \<notin> set p"
    then have "takeWhile ?P p = p" using assms by (auto simp: takeWhile_eq_all_conv)
    then show ?thesis unfolding find_newline_def Let_def by (simp only:) simp
  qed
  have s: "find_newline (l @ newline # r) = Some (length l)" if "newline \<notin> set l" "0 \<notin> set l" for l r
  proof -
    have "takeWhile ?P (l @ newline # r) = l" using that by (auto simp: takeWhile_append newline_def)
    then show ?thesis by (simp add: find_newline_def Let_def)
  qed
  show "find_newline p = Some q \<longleftrightarrow> (\<exists>l r. p = l @ newline # r \<and> newline \<notin> set l \<and> length l = q)"
  proof (cases "newline \<in> set p")
    case True
    then obtain l r where l: "p = l @ newline # r" "newline \<notin> set l" by (meson split_list_first)
    then have f: "find_newline p = Some (length l)" using s assms by simp
    show ?thesis
    proof
      assume "find_newline p = Some q"
      then have "length l = q" using f by simp
      then show "\<exists>l r. p = l @ newline # r \<and> newline \<notin> set l \<and> length l = q" using l by blast
    next
      assume "\<exists>l r. p = l @ newline # r \<and> newline \<notin> set l \<and> length l = q"
      then obtain l' r' where "p = l' @ newline # r'" "newline \<notin> set l'" "length l' = q" by blast
      then show "find_newline p = Some q" using s [of l' r'] assms by simp
    qed
  qed (use n in auto)
  show "find_newline p = None \<longleftrightarrow> newline \<notin> set p"
  proof (cases "newline \<in> set p")
    case True
    then obtain l r where "p = l @ newline # r" "newline \<notin> set l" by (meson split_list_first)
    then show ?thesis using s assms True by simp
  qed (use n in simp)
qed

lemma grep_lines_split:
  "0 \<notin> set p \<Longrightarrow> grep_lines pattern p = (grep_output pattern (fst (split_lines [] p)), snd (split_lines [] p))"
proof (induction pattern p rule: grep_lines.induct)
  case (1 pattern p)
  show ?case
  proof (cases "find_newline p")
    case None
    then have "newline \<notin> set p" using find_newline_split(2) [OF 1(2)] by simp
    then show ?thesis using None by (subst grep_lines.simps) (simp add: split_lines_Nil grep_output_def)
  next
    case (Some q)
    then obtain l r where l: "p = l @ newline # r" "newline \<notin> set l" "length l = q"
      using find_newline_split(1) [OF 1(2)] by blast
    then have d: "drop (q + 1) p = r" "take q p = l" "take (q + 1) p = l @ [newline]" by auto
    have "0 \<notin> set (drop (q + 1) p)" using 1(2) d l by simp
    from 1(1) [OF Some this] show ?thesis
      using Some l by (subst grep_lines.simps) (simp add: d split_lines_no_newline grep_output_def)
  qed
qed

lemma split_lines_all:
  assumes "newline \<notin> set b"
  shows "split_lines [] (b @ xs) = split_lines b xs"
  using split_lines_no_newline [of b "[]" xs] assms by simp

text \<open>A text whose lines all fit into the buffer, the unfinished one at the end apart.\<close>

definition short_lines :: "byte list \<Rightarrow> bool" where
  "short_lines t \<longleftrightarrow> list_all (\<lambda>l. length l < BUFSZ - 1) (fst (split_lines [] t))"

lemma grep_loop_spec:
  assumes "\<And>i. BUFSZ \<le> k i" "0 \<notin> set buf" "0 \<notin> set input" "newline \<notin> set buf" "length buf < BUFSZ - 1"
    "short_lines (buf @ input)"
  shows "grep_loop pattern k i buf input = grep_output pattern (fst (split_lines [] (buf @ input)))"
  using assms
proof (induction pattern k i buf input rule: grep_loop.induct)
  case (1 pattern k i buf input)
  note p = 1(2-)
  let ?n = "min (k i) (min (BUFSZ - length buf - 1) (length input))"
  have n: "?n = min (BUFSZ - length buf - 1) (length input)" using p(1) [of i] p(5) by simp
  show ?case
  proof (cases "?n = 0")
    case True
    then have "input = []" using n p(5) by (auto simp: min_def split: if_splits)
    then show ?thesis using True p(4)
      by (subst grep_loop.simps) (simp add: split_lines_Nil grep_output_def)
  next
    case False
    let ?b = "buf @ take ?n input" and ?rest = "drop ?n input"
    have z: "0 \<notin> set ?b" using p(2,3) by (auto dest: in_set_takeD)
    have zr: "0 \<notin> set ?rest" using p(3) by (auto dest: in_set_dropD)
    let ?r = "snd (split_lines [] ?b)"
    note gl = grep_lines_split [OF z, of pattern]
    have rn: "newline \<notin> set ?r" by (rule split_lines_rest) simp
    have all: "split_lines [] (buf @ input) = split_lines [] (?b @ ?rest)" by simp
    have cat: "fst (split_lines [] (buf @ input)) = fst (split_lines [] ?b) @ fst (split_lines [] (?r @ ?rest))"
      unfolding all split_lines_append split_lines_all [OF rn] ..
    have bl: "length ?b \<le> BUFSZ - 1" using n p(5) by simp
    have e: "grep_loop pattern k i buf input = grep_output pattern (fst (split_lines [] ?b)) @
        grep_loop pattern k (Suc i) (if length ?r = length ?b then [] else ?r) ?rest"
      by (subst grep_loop.simps) (simp only: Let_def False if_False gl prod.case)
    note ih = 1(1) [OF refl False refl gl [symmetric] refl refl p(1) _ zr]
    show ?thesis
    proof (cases "newline \<in> set ?b")
      case True
      have lt: "length ?r < length ?b" using split_lines_rest_less [OF True, of "[]"] by simp
      have b2: "(if length ?r = length ?b then [] else ?r) = ?r" using lt by (simp only: less_imp_neq if_False)
      have "0 \<notin> set ?r" using split_lines_rest_set [of "[]" ?b] z by auto
      moreover have "length ?r < BUFSZ - 1" using lt bl by linarith
      moreover have "short_lines (?r @ ?rest)" using p(6) unfolding short_lines_def cat by simp
      ultimately have "grep_loop pattern k (Suc i) ?r ?rest = grep_output pattern (fst (split_lines [] (?r @ ?rest)))"
        using rn by (intro ih [unfolded b2])
      then show ?thesis unfolding e b2 cat by (simp only:) (simp only: grep_output_def filter_append map_append concat_append)
    next
      case nb: False
      then have r: "split_lines [] ?b = ([], ?b)" by (rule split_lines_Nil)
      have nr: "newline \<notin> set ?rest"
      proof
        assume nl: "newline \<in> set ?rest"
        then obtain l r where l: "?rest = l @ newline # r" "newline \<notin> set l" by (meson split_list_first)
        have "?rest \<noteq> []" using nl by auto
        then have "length ?b = BUFSZ - 1" using n p(5) by auto
        moreover have "fst (split_lines [] (?b @ ?rest)) = (?b @ l) # fst (split_lines [] r)"
          using nb l by (simp add: split_lines_all split_lines_no_newline)
        ultimately show False using p(6) unfolding short_lines_def all by (simp only: list.pred_inject(2) length_append) linarith
      qed
      then have sr: "split_lines [] ?rest = ([], ?rest)" by (rule split_lines_Nil)
      have b2: "(if length ?r = length ?b then [] else ?r) = []" by (simp only: r snd_conv simp_thms if_True)
      have "grep_loop pattern k (Suc i) [] ?rest = grep_output pattern (fst (split_lines [] ([] @ ?rest)))"
        by (rule ih [unfolded b2]) (simp_all only: append_Nil sr short_lines_def fst_conv, simp_all add: BUFSZ_def)
      then have "grep_loop pattern k (Suc i) [] ?rest = []" unfolding append_Nil sr by (simp add: grep_output_def)
      moreover have "fst (split_lines [] (?b @ ?rest)) = []"
        using nb nr split_lines_Nil [of "?b @ ?rest"] by (simp only: set_append Un_iff simp_thms fst_conv not_False_eq_True)
      ultimately show ?thesis unfolding all e r by (simp only: fst_conv snd_conv simp_thms if_True append_Nil2)
    qed
  qed
qed

text \<open>
  C38. \<open>grep\<close> on a file: when every call of \<open>read\<close> returns as much as was asked for, the input holds no zero byte
  and no line is longer than the buffer, \<open>grep\<close> writes exactly the lines that match, in order and with their
  newlines; text after the last newline is not looked at.
\<close>

theorem grep_spec:
  assumes "\<And>i. BUFSZ \<le> k i" "0 \<notin> set input" "short_lines input"
  shows "grep pattern k input = grep_output pattern (fst (split_lines [] input))"
  using grep_loop_spec [OF assms(1), of "[]" input] assms by (simp add: grep_def BUFSZ_def)

theorem grep_spec_witness:
  "grep [97, star] (\<lambda>_. 4096) [98, newline, newline, 99, 97] = [98, newline, newline] \<and>
   grep [98] (\<lambda>_. 4096) [98, newline, newline, 98, 97] = [98, newline]"
proof -
  have s: "0 \<notin> set [98, newline, newline, 99, 97]" "short_lines [98, newline, newline, 99, 97]"
      "0 \<notin> set [98, newline, newline, 98, 97]" "short_lines [98, newline, newline, 98, 97]"
    by code_simp+
  have o: "grep_output [97, star] (fst (split_lines [] [98, newline, newline, 99, 97])) = [98, newline, newline]"
      "grep_output [98] (fst (split_lines [] [98, newline, newline, 98, 97])) = [98, newline]"
    by code_simp+
  show ?thesis
    using grep_spec [of "\<lambda>_. 4096", OF _ s(1,2), of "[97, star]"] grep_spec [of "\<lambda>_. 4096", OF _ s(3,4), of "[98]"]
    by (simp only: o BUFSZ_def)
qed

text \<open>
  When \<open>read\<close> returns less than a line, as it does on a pipe or the console, the loop forgets what it has read:
  the line \<open>a\<close> matches the pattern \<open>a\<close>, but arriving byte by byte it is not printed.
\<close>

lemma grep_forgets_partial_lines:
  "match [97] [97] \<and> grep [97] (\<lambda>_. 1) [97, newline] = [] \<and> grep [97] (\<lambda>_. 2) [97, newline] = [97, newline]"
  by code_simp

end
