(* ===== verification/Spec2Isabelle.thy ===== *)
theory Spec2Isabelle
  imports Badargs Typing Runcmd Spelling Shell Umalloc Schedule Procinv Frame Trap Sysfile Syscall Exec Proc File Console Content Grep Spinlock Pipe
begin

text \<open>
  A model of the xv6-based kernel of this repository and the theorems that make it correct.
\<close>

end
